(* ===== verification/Prelude.thy ===== *)
theory Prelude
  imports Main "HOL-Library.Word"
begin

text \<open>
  Shared vocabulary of the development: the machine types of the XS1 (32-bit words, bytes,
  and the mathematical integers that addresses are), C's conversion of an \<open>int\<close> to an
  unsigned value in a mixed comparison, the byte reversal builtin, and the generic lemmas on
  words and lists that several components use.
\<close>

unbundle bit_operations_syntax

type_synonym word32 = "32 word"
type_synonym word16 = "16 word"
type_synonym byte = "8 word"
type_synonym addr = int

named_theorems ptr_simps \<open>reading back a pointer that was stored in a memory word\<close>
named_theorems field_defs \<open>the accessors of the structures kept in memory\<close>

subsection \<open>Pointers and C integers in memory words\<close>

definition to_unsigned :: "int \<Rightarrow> int" where
  "to_unsigned x = x mod 2 ^ 32"

lemma to_unsigned_id [ptr_simps]: "0 \<le> x \<Longrightarrow> x < 2 ^ 32 \<Longrightarrow> to_unsigned x = x"
  by (simp add: to_unsigned_def)

lemma to_unsigned_neg:
  assumes "x < 0" "- (2 ^ 31) \<le> x"
  shows "2 ^ 31 \<le> to_unsigned x"
proof -
  have "to_unsigned x = (x + 2 ^ 32) mod 2 ^ 32"
    by (simp add: to_unsigned_def)
  also have "\<dots> = x + 2 ^ 32"
    using assms by (intro mod_pos_pos_trivial) auto
  finally show ?thesis using assms by simp
qed

lemma uint_of_ptr [ptr_simps]:
  "0 \<le> a \<Longrightarrow> a < 2 ^ 31 \<Longrightarrow> uint (word_of_int a :: word32) = a"
  by (simp add: uint_word_of_int)

lemma sint_of_ptr [ptr_simps]:
  assumes "0 \<le> a" "a < 2 ^ 31"
  shows "sint (word_of_int a :: word32) = a"
proof -
  have "signed_take_bit 31 a = a"
    using assms by (intro signed_take_bit_int_eq_self) auto
  then show ?thesis by (simp add: sint_sbintrunc')
qed

lemma sint_of_neg_ptr [ptr_simps]:
  assumes "0 \<le> a" "a < 2 ^ 31"
  shows "sint (word_of_int (- a) :: word32) = - a"
proof -
  have "signed_take_bit 31 (- a) = - a"
    using assms by (intro signed_take_bit_int_eq_self) auto
  then have "sint (word_of_int (- a) :: word32) = - a"
    by (simp only: sint_sbintrunc') simp
  then show ?thesis .
qed

lemma sint_range32: "- (2 ^ 31) \<le> sint (w :: word32) \<and> sint w < 2 ^ 31"
  using sint_ge [of w] sint_lt [of w] by simp

lemma sint_uminus:
  assumes "- (2 ^ 31) < sint (w :: word32)"
  shows "sint (- w) = - sint w"
proof (cases "0 \<le> sint w")
  case True
  have "sint (word_of_int (- sint w) :: word32) = - sint w"
    using True sint_range32 [of w] by (intro sint_of_neg_ptr) auto
  then show ?thesis by simp
next
  case False
  have "sint (word_of_int (- sint w) :: word32) = - sint w"
    using False assms by (intro sint_of_ptr) auto
  then show ?thesis by simp
qed

subsection \<open>Bytes of a word\<close>

definition word_byte :: "word32 \<Rightarrow> nat \<Rightarrow> byte" where
  "word_byte w k = ucast (drop_bit (8 * k) w)"

definition bytes_of_word :: "word32 \<Rightarrow> byte list" where
  "bytes_of_word w = map (word_byte w) [0, 1, 2, 3]"

definition word_of_bytes :: "byte \<Rightarrow> byte \<Rightarrow> byte \<Rightarrow> byte \<Rightarrow> word32" where
  "word_of_bytes a b c d =
     ucast a OR push_bit 8 (ucast b) OR push_bit 16 (ucast c) OR push_bit 24 (ucast d)"

text \<open>The builtin \<open>byterev\<close> of the compiler's library: the four bytes in the other order.\<close>

definition byterev :: "word32 \<Rightarrow> word32" where
  "byterev w = word_of_bytes (word_byte w 3) (word_byte w 2) (word_byte w 1) (word_byte w 0)"

lemma bit_word_byte: "bit (word_byte w k) n \<longleftrightarrow> n < 8 \<and> bit w (8 * k + n)"
  by (auto simp: word_byte_def bit_simps ac_simps dest: bit_imp_le_length)

lemma bit_word_of_bytes:
  "bit (word_of_bytes a b c d) n \<longleftrightarrow>
     (if n < 8 then bit a n
      else if n < 16 then bit b (n - 8)
      else if n < 24 then bit c (n - 16)
      else n < 32 \<and> bit d (n - 24))"
  by (auto simp: word_of_bytes_def bit_simps dest: bit_imp_le_length)

lemma word_byte_of_bytes [simp]:
  "word_byte (word_of_bytes a b c d) 0 = a"
  "word_byte (word_of_bytes a b c d) (Suc 0) = b"
  "word_byte (word_of_bytes a b c d) 2 = c"
  "word_byte (word_of_bytes a b c d) 3 = d"
  by (auto intro!: bit_word_eqI simp: bit_word_byte bit_word_of_bytes)

lemma word_of_bytes_of_word [simp]:
  "word_of_bytes (word_byte w 0) (word_byte w (Suc 0)) (word_byte w 2) (word_byte w 3) = w"
proof (rule bit_word_eqI)
  fix n :: nat
  assume "n < LENGTH(32)"
  then show "bit (word_of_bytes (word_byte w 0) (word_byte w (Suc 0)) (word_byte w 2)
      (word_byte w 3)) n = bit w n"
    by (cases "n < 8"; cases "n < 16"; cases "n < 24")
      (auto simp: bit_word_byte bit_word_of_bytes)
qed

lemma word_byte_byterev [simp]:
  "word_byte (byterev w) 0 = word_byte w 3"
  "word_byte (byterev w) (Suc 0) = word_byte w 2"
  "word_byte (byterev w) 2 = word_byte w (Suc 0)"
  "word_byte (byterev w) 3 = word_byte w 0"
  by (simp_all add: byterev_def)

lemma byterev_byterev [simp]: "byterev (byterev w) = w"
  by (simp add: byterev_def [of "byterev w"])

lemma length_bytes_of_word [simp]: "length (bytes_of_word w) = 4"
  by (simp add: bytes_of_word_def)

subsection \<open>Lists\<close>

lemma fold_concat_map: "fold f (concat (map g xs)) a = fold (\<lambda>x. fold f (g x)) xs a"
  by (induction xs arbitrary: a) auto

lemma length_concat_same:
  "(\<And>x. x \<in> set xs \<Longrightarrow> length (g x) = n) \<Longrightarrow> length (concat (map g xs)) = n * length xs"
  by (induction xs) auto

end
