(* ===== verification/Config.thy ===== *)
theory Config
  imports Prelude
begin

text \<open>
  The compile-time configuration of the MAC: the macros of \<open>ethernet_conf.h\<close> with the
  defaults that \<open>mii_full.h\<close>, \<open>mii_queue.h\<close> and \<open>ethernet_server_def.h\<close> give them, and
  the command codes of the client protocol. The preprocessor's choices are fields of a record,
  so one model covers every build.
\<close>

record mac_config =
  num_ports :: nat
  num_master_ports :: nat
  max_packet_size :: int
  crc_error_check :: bool
  count_packets :: bool
  rx_bufsize_lp :: int
  rx_bufsize_hp :: int
  tx_bufsize_lp :: int
  tx_bufsize_hp :: int
  max_tx_hp_packet_size :: int
  max_tx_lp_packet_size :: int
  filter_enable_user_data :: bool
  rx_hp_queue :: bool
  tx_hp_queue :: bool
  traffic_shaper :: bool
  port_forwarding_disabled :: bool
  num_mii_rx_buf :: nat
  num_mii_tx_buf :: nat
  tx_no_buffering :: bool

definition default_config :: mac_config where
  "default_config =
    \<lparr>num_ports = 1, num_master_ports = 1, max_packet_size = 1518, crc_error_check = True,
     count_packets = True, rx_bufsize_lp = 4096, rx_bufsize_hp = 2048, tx_bufsize_lp = 4096,
     tx_bufsize_hp = 2048, max_tx_hp_packet_size = 1518, max_tx_lp_packet_size = 1518,
     filter_enable_user_data = False, rx_hp_queue = False, tx_hp_queue = False,
     traffic_shaper = False, port_forwarding_disabled = False,
     num_mii_rx_buf = 5, num_mii_tx_buf = 5, tx_no_buffering = False\<rparr>"

subsection \<open>Options and their defaults\<close>

text \<open>
  The options of an application's \<open>ethernet_conf.h\<close>: \<open>None\<close> is a macro that is not defined.
  A macro that the code only tests with \<open>#if\<close> or \<open>defined\<close> is a truth value. The names
  with \<open>mii\<close> are the older spellings of the buffer sizes.
\<close>

datatype implementation = Impl_full | Impl_lite

record mac_options =
  opt_implementation :: "implementation option"
  opt_full_timings :: "bool option"
  opt_num_ports :: "nat option"
  opt_num_master_ports :: "nat option"
  opt_max_packet_size :: "int option"
  opt_crc_error_check :: "bool option"
  opt_count_packets :: "bool option"
  opt_rx_bufsize :: "int option"
  opt_rx_bufsize_lp :: "int option"
  opt_rx_bufsize_hp :: "int option"
  opt_tx_bufsize :: "int option"
  opt_tx_bufsize_lp :: "int option"
  opt_tx_bufsize_hp :: "int option"
  mii_rx_bufsize :: "int option"
  mii_rx_bufsize_lp :: "int option"
  mii_rx_bufsize_hp :: "int option"
  mii_tx_bufsize :: "int option"
  mii_tx_bufsize_lp :: "int option"
  mii_tx_bufsize_hp :: "int option"
  opt_max_tx_hp_packet_size :: "int option"
  opt_max_tx_lp_packet_size :: "int option"
  opt_filter_enable_user_data :: "bool option"
  opt_num_mii_rx_buf :: "nat option"
  opt_num_mii_tx_buf :: "nat option"
  def_rx_hp_queue :: bool
  def_tx_hp_queue :: bool
  def_traffic_shaper :: bool
  def_port_forwarding_disabled :: bool
  def_tx_no_buffering :: bool

fun or_else :: "'a option \<Rightarrow> 'a option \<Rightarrow> 'a option" where
  "or_else (Some x) y = Some x"
| "or_else None y = y"

fun or_default :: "'a option \<Rightarrow> 'a \<Rightarrow> 'a" where
  "or_default (Some x) d = x"
| "or_default None d = d"

text \<open>
  \<open>ethernet_conf_derived.h\<close>. Of the macros \<open>ETHERNET_is_full_full\<close> and
  \<open>ETHERNET_is_full_lite\<close> only the first is defined, so the other counts as 0.
\<close>

fun implementation_is_full :: "implementation \<Rightarrow> bool" where
  "implementation_is_full Impl_full = True"
| "implementation_is_full Impl_lite = False"

definition derive_options :: "mac_options \<Rightarrow> mac_options" where
  "derive_options m =
     (let impl = or_default (opt_implementation m) Impl_lite
      in m\<lparr>opt_implementation := Some impl,
           opt_full_timings := or_else (opt_full_timings m) (Some (implementation_is_full impl)),
           opt_rx_bufsize := or_else (opt_rx_bufsize m) (mii_rx_bufsize m),
           opt_rx_bufsize_lp := or_else (opt_rx_bufsize_lp m) (mii_rx_bufsize_lp m),
           opt_rx_bufsize_hp := or_else (opt_rx_bufsize_hp m) (mii_rx_bufsize_hp m),
           opt_tx_bufsize := or_else (opt_tx_bufsize m) (mii_tx_bufsize m),
           opt_tx_bufsize_lp := or_else (opt_tx_bufsize_lp m) (mii_tx_bufsize_lp m),
           opt_tx_bufsize_hp := or_else (opt_tx_bufsize_hp m) (mii_tx_bufsize_hp m)\<rparr>)"

text \<open>
  The configuration that \<open>mii_full.h\<close> and \<open>mii_queue.h\<close> give to derived options. The high
  priority sizes are read only in builds with the corresponding queue.
\<close>

definition config_of_options :: "mac_options \<Rightarrow> mac_config" where
  "config_of_options m =
    \<lparr>num_ports = or_default (opt_num_ports m) 1,
     num_master_ports = or_default (opt_num_master_ports m) 1,
     max_packet_size = or_default (opt_max_packet_size m) 1518,
     crc_error_check = or_default (opt_crc_error_check m) True,
     count_packets = or_default (opt_count_packets m) True,
     rx_bufsize_lp = or_default (or_else (opt_rx_bufsize_lp m) (opt_rx_bufsize m)) 4096,
     rx_bufsize_hp = or_default (opt_rx_bufsize_hp m) 2048,
     tx_bufsize_lp = or_default (or_else (opt_tx_bufsize_lp m) (opt_tx_bufsize m)) 4096,
     tx_bufsize_hp = or_default (opt_tx_bufsize_hp m) 2048,
     max_tx_hp_packet_size = or_default (opt_max_tx_hp_packet_size m) 1518,
     max_tx_lp_packet_size = or_default (opt_max_tx_lp_packet_size m) 1518,
     filter_enable_user_data = or_default (opt_filter_enable_user_data m) False,
     rx_hp_queue = def_rx_hp_queue m, tx_hp_queue = def_tx_hp_queue m,
     traffic_shaper = def_traffic_shaper m,
     port_forwarding_disabled = def_port_forwarding_disabled m,
     num_mii_rx_buf = or_default (opt_num_mii_rx_buf m) 5,
     num_mii_tx_buf = or_default (opt_num_mii_tx_buf m) 5,
     tx_no_buffering = def_tx_no_buffering m\<rparr>"

definition no_options :: mac_options where
  "no_options =
    \<lparr>opt_implementation = None, opt_full_timings = None, opt_num_ports = None,
     opt_num_master_ports = None, opt_max_packet_size = None, opt_crc_error_check = None,
     opt_count_packets = None, opt_rx_bufsize = None, opt_rx_bufsize_lp = None,
     opt_rx_bufsize_hp = None, opt_tx_bufsize = None, opt_tx_bufsize_lp = None,
     opt_tx_bufsize_hp = None, mii_rx_bufsize = None, mii_rx_bufsize_lp = None,
     mii_rx_bufsize_hp = None, mii_tx_bufsize = None, mii_tx_bufsize_lp = None,
     mii_tx_bufsize_hp = None, opt_max_tx_hp_packet_size = None,
     opt_max_tx_lp_packet_size = None, opt_filter_enable_user_data = None,
     opt_num_mii_rx_buf = None, opt_num_mii_tx_buf = None, def_rx_hp_queue = False,
     def_tx_hp_queue = False, def_traffic_shaper = False, def_port_forwarding_disabled = False,
     def_tx_no_buffering = False\<rparr>"

subsection \<open>Configurations in the repository\<close>

text \<open>
  \<open>ethernet_conf_example.h\<close> and the files of two applications. The macros of the example that are
  not options here, \<open>ETHERNET_MAX_RX_CLIENTS\<close>, \<open>ETHERNET_MAX_TX_CLIENTS\<close> and
  \<open>ETHERNET_CLIENT_FIFO_SIZE\<close>, are read by no file of the repository.
\<close>

definition ethernet_conf_example :: mac_options where
  "ethernet_conf_example =
     no_options\<lparr>opt_implementation := Some Impl_lite, opt_rx_bufsize := Some 4096,
       opt_tx_bufsize := Some 2048, opt_count_packets := Some False,
       def_rx_hp_queue := False, def_tx_hp_queue := False\<rparr>"

definition ethernet_conf_demo :: "bool \<Rightarrow> mac_options" where
  "ethernet_conf_demo config_full =
     (if config_full
      then no_options\<lparr>opt_implementation := Some Impl_full, opt_max_packet_size := Some 1518\<rparr>
      else no_options\<lparr>opt_implementation := Some Impl_lite\<rparr>)"

definition ethernet_conf_loopback :: mac_options where
  "ethernet_conf_loopback =
     no_options\<lparr>opt_max_packet_size := Some 1518, opt_num_mii_rx_buf := Some 20,
       opt_num_mii_tx_buf := Some 2\<rparr>"

lemma demo_is_default: "config_of_options (derive_options (ethernet_conf_demo b)) = default_config"
  by (cases b)
    (simp_all add: config_of_options_def derive_options_def no_options_def default_config_def
      ethernet_conf_demo_def)

text \<open>The queue size the example asks for, 4, has no effect: the servers have 5 entries.\<close>

lemma example_fifo_size:
  "config_of_options (derive_options ethernet_conf_example) =
     default_config\<lparr>tx_bufsize_lp := 2048, count_packets := False\<rparr>"
  "num_mii_rx_buf (config_of_options (derive_options ethernet_conf_example)) = 5"
  by (simp_all add: config_of_options_def derive_options_def no_options_def default_config_def
      ethernet_conf_example_def)

lemma loopback_entries:
  "num_mii_rx_buf (config_of_options (derive_options ethernet_conf_loopback)) = 20"
  by (simp add: config_of_options_def derive_options_def no_options_def ethernet_conf_loopback_def)

lemma or_else_assoc: "or_else (or_else x y) z = or_else x (or_else y z)"
  by (cases x) simp_all

lemma or_else_same [simp]: "or_else (or_else x y) y = or_else x y"
  by (cases x; cases y) simp_all

lemma default_config_of_no_options: "config_of_options (derive_options no_options) = default_config"
  by (simp add: config_of_options_def derive_options_def no_options_def default_config_def)

lemma derive_options_idem: "derive_options (derive_options m) = derive_options m"
  by (simp add: derive_options_def Let_def or_else_assoc [symmetric])

lemma rx_bufsize_precedence:
  "rx_bufsize_lp (config_of_options (derive_options m)) =
     or_default (or_else (opt_rx_bufsize_lp m) (or_else (mii_rx_bufsize_lp m)
       (or_else (opt_rx_bufsize m) (mii_rx_bufsize m)))) 4096"
  by (simp add: config_of_options_def derive_options_def Let_def or_else_assoc)

text \<open>The condition under which the forwarding code is compiled in.\<close>

definition port_forwarding :: "mac_config \<Rightarrow> bool" where
  "port_forwarding c \<longleftrightarrow> 1 < num_ports c \<and> \<not> port_forwarding_disabled c"

text \<open>\<open>mii_queue.h\<close>: the entries of a timestamp queue, one more than the larger buffer count.\<close>

definition MAC_MAX_ENTRIES :: "mac_config \<Rightarrow> nat" where
  "MAC_MAX_ENTRIES c =
     (if num_mii_rx_buf c < num_mii_tx_buf c then num_mii_tx_buf c else num_mii_rx_buf c) + 1"

definition MAX_ETHERNET_CLIENTS :: nat where
  "MAX_ETHERNET_CLIENTS = 4"

definition ETH_BROADCAST :: int where
  "ETH_BROADCAST = - 1"

definition MII_CREDIT_FRACTIONAL_BITS :: nat where
  "MII_CREDIT_FRACTIONAL_BITS = 16"

definition ETHERNET_AVB_ENABLE_FORWARDING :: int where
  "ETHERNET_AVB_ENABLE_FORWARDING = 1"

definition ETHERNET_AVB_DISABLE_FORWARDING :: int where
  "ETHERNET_AVB_DISABLE_FORWARDING = 0"

subsection \<open>Protocol commands\<close>

datatype ethernet_protocol_t =
    ETHERNET_TX_REQ
  | ETHERNET_TX_REQ_TIMED
  | ETHERNET_GET_MAC_ADRS
  | ETHERNET_TX_SET_SPACING
  | ETHERNET_TX_REQ_OFFSET2
  | ETHERNET_TX_UPDATE_AVB_ROUTER
  | ETHERNET_TX_INIT_AVB_ROUTER
  | ETHERNET_TX_REQ_HP
  | ETHERNET_TX_REQ_TIMED_HP
  | ETHERNET_TX_REQ_OFFSET2_HP
  | ETHERNET_TX_UPDATE_AVB_FORWARDING
  | ETHERNET_TX_SET_QAV_IDLE_SLOPE
  | ETHERNET_RX_FRAME_REQ
  | ETHERNET_RX_TYPE_PAYLOAD_REQ
  | ETHERNET_RX_OVERFLOW_CNT_REQ
  | ETHERNET_RX_OVERFLOW_MII_CNT_REQ
  | ETHERNET_RX_FILTER_SET
  | ETHERNET_RX_DROP_PACKETS_SET
  | ETHERNET_RX_KILL_LINK
  | ETHERNET_RX_CUSTOM_FILTER_SET
  | ETHERNET_RX_QUEUE_SIZE_SET
  | ETHERNET_RX_FRAME_REQ_OFFSET2
  | ETHERNET_RX_WANTS_STATUS_UPDATES_SET
  | ETHERNET_RX_TILE_TIMER_OFFSET_REQ
  | ETHERNET_REQ_ACK
  | ETHERNET_REQ_NACK

text \<open>
  The enumerators in declaration order. \<open>ETHERNET_TX_SET_QAV_IDLE_SLOPE\<close> exists only when the
  high priority transmit queue and the traffic shaper are both compiled in, so the codes after
  it depend on the build.
\<close>

definition protocol_order :: "mac_config \<Rightarrow> ethernet_protocol_t list" where
  "protocol_order c =
     [ETHERNET_TX_REQ, ETHERNET_TX_REQ_TIMED, ETHERNET_GET_MAC_ADRS, ETHERNET_TX_SET_SPACING,
      ETHERNET_TX_REQ_OFFSET2, ETHERNET_TX_UPDATE_AVB_ROUTER, ETHERNET_TX_INIT_AVB_ROUTER,
      ETHERNET_TX_REQ_HP, ETHERNET_TX_REQ_TIMED_HP, ETHERNET_TX_REQ_OFFSET2_HP,
      ETHERNET_TX_UPDATE_AVB_FORWARDING]
     @ (if tx_hp_queue c \<and> traffic_shaper c then [ETHERNET_TX_SET_QAV_IDLE_SLOPE] else []) @
     [ETHERNET_RX_FRAME_REQ, ETHERNET_RX_TYPE_PAYLOAD_REQ, ETHERNET_RX_OVERFLOW_CNT_REQ,
      ETHERNET_RX_OVERFLOW_MII_CNT_REQ, ETHERNET_RX_FILTER_SET, ETHERNET_RX_DROP_PACKETS_SET,
      ETHERNET_RX_KILL_LINK, ETHERNET_RX_CUSTOM_FILTER_SET, ETHERNET_RX_QUEUE_SIZE_SET,
      ETHERNET_RX_FRAME_REQ_OFFSET2, ETHERNET_RX_WANTS_STATUS_UPDATES_SET,
      ETHERNET_RX_TILE_TIMER_OFFSET_REQ, ETHERNET_REQ_ACK, ETHERNET_REQ_NACK]"

fun position :: "'a \<Rightarrow> 'a list \<Rightarrow> nat option" where
  "position x [] = None"
| "position x (y # ys) = (if x = y then Some 0 else map_option Suc (position x ys))"

definition protocol_code :: "mac_config \<Rightarrow> ethernet_protocol_t \<Rightarrow> word32 option" where
  "protocol_code c p =
     map_option (\<lambda>i. 0x80000000 + of_nat i) (position p (protocol_order c))"

lemma position_Some: "position x xs = Some i \<Longrightarrow> i < length xs \<and> xs ! i = x"
  by (induction xs arbitrary: i) (auto split: if_splits)

lemma distinct_protocol_order: "distinct (protocol_order c)"
  by (simp add: protocol_order_def)

lemma protocol_code_inj:
  assumes p: "protocol_code c p = Some w" and q: "protocol_code c q = Some w"
  shows "p = q"
proof -
  obtain i where i: "position p (protocol_order c) = Some i" "w = 0x80000000 + of_nat i"
    using p by (auto simp: protocol_code_def)
  obtain j where j: "position q (protocol_order c) = Some j" "w = 0x80000000 + of_nat j"
    using q by (auto simp: protocol_code_def)
  have "length (protocol_order c) < 27"
    by (simp add: protocol_order_def)
  then have small: "i < 2 ^ LENGTH(32)" "j < 2 ^ LENGTH(32)"
    using position_Some [OF i(1)] position_Some [OF j(1)] by simp_all
  have "(of_nat i :: word32) = of_nat j"
    using i(2) j(2) by simp
  then have "unat (of_nat i :: word32) = unat (of_nat j :: word32)"
    by simp
  with small have "i = j"
    by (simp add: unat_of_nat take_bit_nat_eq_self)
  then show ?thesis
    using position_Some [OF i(1)] position_Some [OF j(1)] by simp
qed

end
