(* ===== verification/Ram.thy ===== *)
theory Ram
  imports Config
begin

text \<open>
  The shared memory of the tile and the packet structure kept in it (\<open>mii_full.h\<close>,
  \<open>mii_packet.c\<close>). The logical cores of the full implementation communicate through packets
  in this memory: \<open>mem\<close> holds the word at each (word-aligned) byte address and \<open>pools\<close>
  the \<open>mempool_info_t\<close> structure at each pool address. A handle is the address itself, 0 is
  the null handle, as in the code.
\<close>

record mempool_info_t =
  rdptr :: addr
  wrptr :: addr
  pool_start :: addr
  pool_end :: addr
  rdptr_at_start :: int

record ram =
  mem :: "addr \<Rightarrow> word32"
  pools :: "addr \<Rightarrow> mempool_info_t"

definition ldw :: "ram \<Rightarrow> addr \<Rightarrow> word32" where
  "ldw s a = mem s a"

definition stw :: "ram \<Rightarrow> addr \<Rightarrow> word32 \<Rightarrow> ram" where
  "stw s a w = s\<lparr>mem := (mem s)(a := w)\<rparr>"

definition set_pool :: "ram \<Rightarrow> addr \<Rightarrow> mempool_info_t \<Rightarrow> ram" where
  "set_pool s p i = s\<lparr>pools := (pools s)(p := i)\<rparr>"


lemma ldw_stw [simp]: "ldw (stw s a w) b = (if a = b then w else ldw s b)"
  by (simp add: ldw_def stw_def)

lemma ldw_set_pool [simp]: "ldw (set_pool s p i) a = ldw s a"
  by (simp add: ldw_def set_pool_def)

lemma pools_stw [simp]: "pools (stw s a w) = pools s"
  by (simp add: stw_def)

lemma pools_set_pool [simp]: "pools (set_pool s p i) = (pools s)(p := i)"
  by (simp add: set_pool_def)

lemma mem_stw: "mem (stw s a w) = (mem s)(a := w)"
  by (simp add: stw_def)

lemma mem_set_pool [simp]: "mem (set_pool s p i) = mem s"
  by (simp add: set_pool_def)

lemma stw_stw_same [simp]: "stw (stw s a v) a w = stw s a w"
  by (simp add: stw_def)

subsection \<open>The packet structure\<close>

text \<open>
  The word offset of each field of \<open>mii_packet_t\<close>, the macros \<open>BUF_OFFSET_length\<close> to
  \<open>BUF_OFFSET_user_data\<close>; the data words follow at \<open>BUF_DATA_OFFSET\<close>.
\<close>

datatype mii_packet_field =
    F_length | F_timestamp | F_filter_result | F_src_port | F_timestamp_id
  | F_stage | F_tcount | F_crc | F_forwarding | F_user_data

fun BUF_OFFSET :: "mii_packet_field \<Rightarrow> int" where
  "BUF_OFFSET F_length = 0"
| "BUF_OFFSET F_timestamp = 1"
| "BUF_OFFSET F_filter_result = 2"
| "BUF_OFFSET F_src_port = 3"
| "BUF_OFFSET F_timestamp_id = 4"
| "BUF_OFFSET F_stage = 5"
| "BUF_OFFSET F_tcount = 6"
| "BUF_OFFSET F_crc = 7"
| "BUF_OFFSET F_forwarding = 8"
| "BUF_OFFSET F_user_data = 9"

definition BUF_DATA_OFFSET :: int where
  "BUF_DATA_OFFSET = 10"

definition mii_packet_sizeof :: "mac_config \<Rightarrow> int" where
  "mii_packet_sizeof c = 4 * BUF_DATA_OFFSET + 4 * ((max_packet_size c + 3) div 4)"

definition MII_PACKET_HEADER_SIZE :: "mac_config \<Rightarrow> int" where
  "MII_PACKET_HEADER_SIZE c = mii_packet_sizeof c - ((max_packet_size c + 3) div 4) * 4"

lemma MII_PACKET_HEADER_SIZE_40: "MII_PACKET_HEADER_SIZE c = 40"
  by (simp add: MII_PACKET_HEADER_SIZE_def mii_packet_sizeof_def BUF_DATA_OFFSET_def)

text \<open>The accessors \<open>create_buf_getset\<close> generates: a load or a store of the field's word.\<close>

definition mii_packet_get :: "mii_packet_field \<Rightarrow> ram \<Rightarrow> addr \<Rightarrow> word32" where
  "mii_packet_get f s buf = ldw s (buf + 4 * BUF_OFFSET f)"

definition mii_packet_set :: "mii_packet_field \<Rightarrow> ram \<Rightarrow> addr \<Rightarrow> word32 \<Rightarrow> ram" where
  "mii_packet_set f s buf x = stw s (buf + 4 * BUF_OFFSET f) x"

abbreviation "mii_packet_get_length \<equiv> mii_packet_get F_length"
abbreviation "mii_packet_set_length \<equiv> mii_packet_set F_length"
abbreviation "mii_packet_get_timestamp \<equiv> mii_packet_get F_timestamp"
abbreviation "mii_packet_set_timestamp \<equiv> mii_packet_set F_timestamp"
abbreviation "mii_packet_get_filter_result \<equiv> mii_packet_get F_filter_result"
abbreviation "mii_packet_set_filter_result \<equiv> mii_packet_set F_filter_result"
abbreviation "mii_packet_get_src_port \<equiv> mii_packet_get F_src_port"
abbreviation "mii_packet_set_src_port \<equiv> mii_packet_set F_src_port"
abbreviation "mii_packet_get_timestamp_id \<equiv> mii_packet_get F_timestamp_id"
abbreviation "mii_packet_set_timestamp_id \<equiv> mii_packet_set F_timestamp_id"
abbreviation "mii_packet_get_stage \<equiv> mii_packet_get F_stage"
abbreviation "mii_packet_set_stage \<equiv> mii_packet_set F_stage"
abbreviation "mii_packet_get_tcount \<equiv> mii_packet_get F_tcount"
abbreviation "mii_packet_set_tcount \<equiv> mii_packet_set F_tcount"
abbreviation "mii_packet_get_crc \<equiv> mii_packet_get F_crc"
abbreviation "mii_packet_set_crc \<equiv> mii_packet_set F_crc"
abbreviation "mii_packet_get_forwarding \<equiv> mii_packet_get F_forwarding"
abbreviation "mii_packet_set_forwarding \<equiv> mii_packet_set F_forwarding"
abbreviation "mii_packet_get_user_data \<equiv> mii_packet_get F_user_data"
abbreviation "mii_packet_set_user_data \<equiv> mii_packet_set F_user_data"

definition mii_packet_get_data_ptr :: "addr \<Rightarrow> addr" where
  "mii_packet_get_data_ptr buf = buf + 4 * BUF_DATA_OFFSET"

definition mii_packet_get_data_word :: "ram \<Rightarrow> addr \<Rightarrow> int \<Rightarrow> word32" where
  "mii_packet_get_data_word s data n = ldw s (data + 4 * n)"

definition mii_packet_set_data_word :: "ram \<Rightarrow> addr \<Rightarrow> int \<Rightarrow> word32 \<Rightarrow> ram" where
  "mii_packet_set_data_word s data n v = stw s (data + 4 * n) v"

text \<open>
  The setters of \<open>mii_full.h\<close> that take the packet and count from its data; the half-word and
  byte stores replace part of a word, little-endian, as \<open>st16\<close> and \<open>st8\<close> do.
\<close>

definition mii_packet_set_data :: "ram \<Rightarrow> addr \<Rightarrow> int \<Rightarrow> word32 \<Rightarrow> ram" where
  "mii_packet_set_data s buf n v = stw s (buf + 4 * (n + BUF_DATA_OFFSET)) v"

definition st_part :: "nat \<Rightarrow> ram \<Rightarrow> addr \<Rightarrow> word32 \<Rightarrow> ram" where
  "st_part w s a v =
     (let base = 4 * (a div 4);
          sh = 8 * nat (a mod 4);
          m = push_bit sh (mask w)
      in stw s base ((ldw s base AND NOT m) OR (push_bit sh v AND m)))"

definition mii_packet_set_data_short :: "ram \<Rightarrow> addr \<Rightarrow> int \<Rightarrow> word32 \<Rightarrow> ram" where
  "mii_packet_set_data_short s buf n v = st_part 16 s (buf + 2 * (n + BUF_DATA_OFFSET * 2)) v"

definition mii_packet_set_data_byte :: "ram \<Rightarrow> addr \<Rightarrow> int \<Rightarrow> word32 \<Rightarrow> ram" where
  "mii_packet_set_data_byte s buf n v = st_part 8 s (buf + (n + BUF_DATA_OFFSET * 4)) v"

text \<open>A field reads back what was stored in it; a store to one field leaves the others.\<close>

lemma BUF_OFFSET_inj: "BUF_OFFSET f = BUF_OFFSET g \<longleftrightarrow> f = g"
  by (cases f; cases g) simp_all

lemma BUF_OFFSET_range: "0 \<le> BUF_OFFSET f \<and> BUF_OFFSET f < BUF_DATA_OFFSET"
  by (cases f) (simp_all add: BUF_DATA_OFFSET_def)

lemma packet_get_set [simp]:
  "mii_packet_get f (mii_packet_set g s buf x) buf = (if f = g then x else mii_packet_get f s buf)"
  by (auto simp: mii_packet_get_def mii_packet_set_def BUF_OFFSET_inj)

lemma ldw_packet_set:
  "a \<noteq> buf + 4 * BUF_OFFSET f \<Longrightarrow> ldw (mii_packet_set f s buf x) a = ldw s a"
  by (simp add: mii_packet_set_def)

lemma pools_packet_set [simp]: "pools (mii_packet_set f s buf x) = pools s"
  by (simp add: mii_packet_set_def)

end
