(* ===== verification/Mii_Malloc.thy ===== *)
theory Mii_Malloc
  imports Ram
begin

text \<open>
  The packet allocator \<open>mii_malloc.c\<close>: a circular buffer of variable-length packets, each
  preceded by a header \<open>malloc_hdr_t\<close> (\<open>next\<close>, \<open>info\<close>). The producer reserves at
  \<open>wrptr\<close> and publishes by moving it; packets are freed in any order, and \<open>rdptr\<close> moves
  over the freed packets at the front. The word at \<open>pool_end\<close> holds the address of the start,
  which the writers and readers of packet data load to wrap.

  The locked section of \<open>mii_free\<close> is one step of the model: \<open>hwlock_acquire\<close> and
  \<open>hwlock_release\<close> are outside the repository and only make that section atomic.
\<close>

subsection \<open>Sizes and header fields\<close>

definition sizeof_mempool_info :: int where
  "sizeof_mempool_info = 20"

definition sizeof_malloc_hdr :: int where
  "sizeof_malloc_hdr = 8"

definition MIN_USAGE :: "mac_config \<Rightarrow> int" where
  "MIN_USAGE c = MII_PACKET_HEADER_SIZE c + sizeof_malloc_hdr + 4 * 10"

lemma MIN_USAGE_88 [simp]: "MIN_USAGE c = 88"
  by (simp add: MIN_USAGE_def MII_PACKET_HEADER_SIZE_40 sizeof_malloc_hdr_def)

definition MII_MALLOC_FULL_PACKET_SIZE_LP :: "mac_config \<Rightarrow> int" where
  "MII_MALLOC_FULL_PACKET_SIZE_LP c = MII_PACKET_HEADER_SIZE c + 8 + max_tx_lp_packet_size c"

definition MII_MALLOC_FULL_PACKET_SIZE_HP :: "mac_config \<Rightarrow> int" where
  "MII_MALLOC_FULL_PACKET_SIZE_HP c = MII_PACKET_HEADER_SIZE c + 8 + max_tx_hp_packet_size c"

definition hdr_next :: "ram \<Rightarrow> addr \<Rightarrow> int" where
  "hdr_next s hdr = sint (ldw s hdr)"

definition hdr_info :: "ram \<Rightarrow> addr \<Rightarrow> addr" where
  "hdr_info s hdr = uint (ldw s (hdr + 4))"

definition hdr_of_buf :: "addr \<Rightarrow> addr" where
  "hdr_of_buf buf = buf - sizeof_malloc_hdr"

definition buf_of_hdr :: "addr \<Rightarrow> addr" where
  "buf_of_hdr hdr = hdr + sizeof_malloc_hdr"

lemma hdr_of_buf_of_hdr [simp]: "hdr_of_buf (buf_of_hdr h) = h"
  by (simp add: hdr_of_buf_def buf_of_hdr_def)

subsection \<open>Operations\<close>

definition mii_init_mempool :: "ram \<Rightarrow> addr \<Rightarrow> int \<Rightarrow> ram" where
  "mii_init_mempool s mempool0 bytes =
     (let st = mempool0 + sizeof_mempool_info;
          en = mempool0 + bytes - 4;
          s = set_pool s mempool0
                \<lparr>rdptr = st, wrptr = st, pool_start = st, pool_end = en, rdptr_at_start = 1\<rparr>;
          s = stw s st 0
      in stw s en (word_of_int st))"

definition mii_get_wrap_ptr :: "ram \<Rightarrow> addr \<Rightarrow> addr" where
  "mii_get_wrap_ptr s mempool = pool_end (pools s mempool)"

text \<open>Both reservations return the buffer (0 when there is no space) and the state.\<close>

definition mii_reserve_at_least :: "mac_config \<Rightarrow> ram \<Rightarrow> addr \<Rightarrow> int \<Rightarrow> addr \<times> ram" where
  "mii_reserve_at_least c s mempool min_size =
     (let info = pools s mempool;
          space_left = rdptr info - wrptr info;
          space_left = (if space_left \<le> 0
                        then space_left + (pool_end info - pool_start info) else space_left);
          min_size = (if rdptr info = pool_start info then min_size + MIN_USAGE c else min_size)
      in if space_left < min_size then (0, s)
         else (buf_of_hdr (wrptr info), stw s (wrptr info + 4) (word_of_int mempool)))"

text \<open>\<open>mii_reserve\<close> also stores the read pointer in \<open>end_ptr\<close>, on success only.\<close>

definition mii_reserve :: "mac_config \<Rightarrow> ram \<Rightarrow> addr \<Rightarrow> addr \<times> addr option \<times> ram" where
  "mii_reserve c s mempool =
     (let info = pools s mempool
      in if rdptr info > wrptr info \<and> to_unsigned (rdptr info - wrptr info) < MIN_USAGE c
         then (0, None, s)
         else (buf_of_hdr (wrptr info), Some (rdptr info),
               stw s (wrptr info + 4) (word_of_int mempool)))"

definition mii_commit :: "mac_config \<Rightarrow> ram \<Rightarrow> addr \<Rightarrow> addr \<Rightarrow> int \<times> ram" where
  "mii_commit c s buf endptr0 =
     (let hdr = hdr_of_buf buf;
          mp = hdr_info s hdr;
          info = pools s mp;
          wraps = to_unsigned (pool_end info - endptr0) < MIN_USAGE c;
          end_ptr = (if wraps then pool_start info else endptr0)
      in if wraps \<and> rdptr_at_start info \<noteq> 0 then (0, s)
         else
           let s = mii_packet_set_stage s buf 0;
               s = (if port_forwarding c then mii_packet_set_forwarding s buf 0 else s);
               s = stw s hdr (word_of_int end_ptr);
               s = set_pool s mp (info\<lparr>wrptr := end_ptr\<rparr>)
           in (1, s))"

partial_function (option) mii_free_loop :: "ram \<Rightarrow> addr \<Rightarrow> addr \<Rightarrow> ram option" where
  "mii_free_loop s mp hdr =
     (let info = pools s mp
      in if hdr = rdptr info then
           let old_hdr = hdr;
               nxt = hdr_next s hdr;
               hdr = (if nxt < 0 then - nxt else nxt);
               info = info\<lparr>rdptr := hdr,
                           rdptr_at_start := (if hdr = pool_start info then 1 else 0)\<rparr>;
               s = stw (set_pool s mp info) old_hdr 0
           in if hdr = wrptr info \<or> hdr_next s hdr > 0 then Some s
              else mii_free_loop s mp hdr
         else Some (stw s hdr (- ldw s hdr)))"

definition mii_free :: "ram \<Rightarrow> addr \<Rightarrow> ram option" where
  "mii_free s buf =
     (let hdr = hdr_of_buf buf in mii_free_loop s (hdr_info s hdr) hdr)"

definition mii_init_my_rdptr :: "ram \<Rightarrow> addr \<Rightarrow> addr" where
  "mii_init_my_rdptr s mempool = rdptr (pools s mempool)"

text \<open>\<open>MII_MALLOC_ASSERT\<close> is not defined by the repository, so the trap is not compiled in.\<close>

definition mii_update_my_rdptr :: "ram \<Rightarrow> addr \<Rightarrow> addr \<Rightarrow> addr" where
  "mii_update_my_rdptr s mempool rdptr0 = hdr_next s rdptr0"

text \<open>\<open>&info->rdptr\<close>: the address is the pool's own, and a load from it is \<open>rdptr\<close>.\<close>

definition mii_get_rdptr_address :: "ram \<Rightarrow> addr \<Rightarrow> addr" where
  "mii_get_rdptr_address s mempool = mempool"

definition ldw_rdptr :: "ram \<Rightarrow> addr \<Rightarrow> addr" where
  "ldw_rdptr s a = rdptr (pools s a)"

definition mii_get_my_next_buf :: "ram \<Rightarrow> addr \<Rightarrow> addr \<Rightarrow> addr" where
  "mii_get_my_next_buf s mempool rdptr0 =
     (if rdptr0 = wrptr (pools s mempool) then 0 else buf_of_hdr rdptr0)"

definition mii_get_next_buf :: "ram \<Rightarrow> addr \<Rightarrow> addr" where
  "mii_get_next_buf s mempool =
     (let info = pools s mempool
      in if rdptr info = wrptr info then 0 else buf_of_hdr (rdptr info))"

definition mii_packet_get_data :: "ram \<Rightarrow> addr \<Rightarrow> int \<Rightarrow> word32" where
  "mii_packet_get_data s buf n =
     (let info = pools s (hdr_info s (hdr_of_buf buf));
          p = buf + 4 * (n + BUF_DATA_OFFSET);
          p = (if p \<ge> pool_end info then p - (pool_end info - pool_start info) else p)
      in ldw s p)"

definition mii_packet_get_wrap_ptr :: "ram \<Rightarrow> addr \<Rightarrow> addr" where
  "mii_packet_get_wrap_ptr s buf = pool_end (pools s (hdr_info s (hdr_of_buf buf)))"

end
