(* ===== verification/Mempool.thy ===== *)
theory Mempool
  imports Mii_Malloc
begin

text \<open>
  What the allocator of \<open>mii_malloc.c\<close> promises. A pool's state is abstracted to the list of
  the packets in it, oldest first, each with the flag that says it was freed out of turn.
  \<open>pool_inv\<close> ties that list to the headers in memory; every operation keeps it and acts on
  the list as its specification says, and the interface the servers rely on is the locale
  \<open>packet_pool\<close>, interpreted here on the code's model.
\<close>

subsection \<open>The abstract pool\<close>

type_synonym pool_queue = "(addr \<times> bool) list"

definition commit_spec :: "addr \<Rightarrow> pool_queue \<Rightarrow> pool_queue" where
  "commit_spec h q = q @ [(h, False)]"

definition toggle :: "addr \<Rightarrow> pool_queue \<Rightarrow> pool_queue" where
  "toggle h q = map (\<lambda>(a, f). if a = h then (a, \<not> f) else (a, f)) q"

definition free_spec :: "addr \<Rightarrow> pool_queue \<Rightarrow> pool_queue" where
  "free_spec h q = dropWhile snd (toggle h q)"

definition next_spec :: "pool_queue \<Rightarrow> addr" where
  "next_spec q = (case q of [] \<Rightarrow> 0 | (h, f) # _ \<Rightarrow> buf_of_hdr h)"

definition pending :: "pool_queue \<Rightarrow> addr set" where
  "pending q = {h. (h, False) \<in> set q}"

lemma toggle_Nil [simp]: "toggle h [] = []"
  by (simp add: toggle_def)

lemma toggle_Cons: "toggle h ((a, f) # q) = (if a = h then (a, \<not> f) else (a, f)) # toggle h q"
  by (simp add: toggle_def)

lemma map_fst_toggle [simp]: "map fst (toggle h q) = map fst q"
  by (induction q) (auto simp: toggle_Cons)

lemma toggle_not_in: "h \<notin> set (map fst q) \<Longrightarrow> toggle h q = q"
  by (induction q) (auto simp: toggle_Cons)

lemma toggle_toggle [simp]: "toggle h (toggle h q) = q"
  by (induction q) (auto simp: toggle_Cons)

subsection \<open>The invariant\<close>

text \<open>
  \<open>chain s mp p q w\<close>: following \<open>next\<close> from \<open>p\<close> visits the headers of \<open>q\<close> and ends
  at \<open>w\<close>; a negative \<open>next\<close> is a packet freed out of turn.
\<close>

fun chain :: "ram \<Rightarrow> addr \<Rightarrow> addr \<Rightarrow> pool_queue \<Rightarrow> addr \<Rightarrow> bool" where
  "chain s mp p [] w \<longleftrightarrow> p = w"
| "chain s mp p ((h, f) # q) w \<longleftrightarrow>
     p = h \<and> hdr_info s h = mp \<and> hdr_next s h \<noteq> 0 \<and> f = (hdr_next s h < 0) \<and>
     chain s mp \<bar>hdr_next s h\<bar> q w"

definition pool_len :: "mempool_info_t \<Rightarrow> int" where
  "pool_len i = pool_end i - pool_start i"

text \<open>Distance in bytes from the read pointer, going round the buffer.\<close>

definition off :: "mempool_info_t \<Rightarrow> addr \<Rightarrow> int" where
  "off i a = (if rdptr i \<le> a then a - rdptr i else a - rdptr i + pool_len i)"

definition pool_shape :: "mempool_info_t \<Rightarrow> addr \<Rightarrow> bool" where
  "pool_shape i mp \<longleftrightarrow>
     0 < mp \<and> 4 dvd mp \<and> pool_start i = mp + sizeof_mempool_info \<and>
     pool_start i + 88 \<le> pool_end i \<and> pool_end i < 2 ^ 31 \<and> 4 dvd pool_end i"

definition slot_ok :: "mempool_info_t \<Rightarrow> addr \<Rightarrow> bool" where
  "slot_ok i a \<longleftrightarrow> pool_start i \<le> a \<and> a + 88 \<le> pool_end i \<and> 4 dvd a"

text \<open>Consecutive packets are at least a packet header and an allocator header apart.\<close>

definition spaced :: "mempool_info_t \<Rightarrow> addr list \<Rightarrow> bool" where
  "spaced i as \<longleftrightarrow> sorted_wrt (\<lambda>a b. off i a + 48 \<le> off i b) as"

definition pool_wf :: "ram \<Rightarrow> addr \<Rightarrow> pool_queue \<Rightarrow> bool" where
  "pool_wf s mp q \<longleftrightarrow>
     (let i = pools s mp; as = map fst q @ [wrptr i]
      in pool_shape i mp \<and> ldw s (pool_end i) = word_of_int (pool_start i) \<and>
         rdptr_at_start i = (if rdptr i = pool_start i then 1 else 0) \<and>
         chain s mp (rdptr i) q (wrptr i) \<and> list_all (slot_ok i) as \<and> spaced i as)"

definition pool_inv :: "ram \<Rightarrow> addr \<Rightarrow> pool_queue \<Rightarrow> bool" where
  "pool_inv s mp q \<longleftrightarrow> pool_wf s mp q \<and> (q \<noteq> [] \<longrightarrow> \<not> snd (hd q))"

lemmas pool_layout_defs =
  pool_shape_def slot_ok_def off_def pool_len_def sizeof_mempool_info_def sizeof_malloc_hdr_def

subsection \<open>Geometry of the ring\<close>

lemma chain_start: "chain s mp p q w \<Longrightarrow> p = hd (map fst q @ [w])"
  by (cases q) auto

lemma chain_info: "chain s mp p q w \<Longrightarrow> (h, f) \<in> set q \<Longrightarrow>
    hdr_info s h = mp \<and> hdr_next s h \<noteq> 0 \<and> f = (hdr_next s h < 0)"
  by (induction s mp p q w rule: chain.induct) auto

lemma chain_cong:
  assumes "\<And>h. h \<in> fst ` set q \<Longrightarrow> ldw s' h = ldw s h \<and> ldw s' (h + 4) = ldw s (h + 4)"
  shows "chain s' mp p q w = chain s mp p q w"
  using assms
  by (induction s mp p q w rule: chain.induct) (auto simp: hdr_next_def hdr_info_def)

lemma chain_append:
  "chain s mp p (q @ [(h, f)]) w \<longleftrightarrow>
     chain s mp p q h \<and> hdr_info s h = mp \<and> hdr_next s h \<noteq> 0 \<and> f = (hdr_next s h < 0) \<and>
     \<bar>hdr_next s h\<bar> = w"
  by (induction s mp p q h rule: chain.induct) auto

lemma off_less:
  "slot_ok i (rdptr i) \<Longrightarrow> pool_start i \<le> a \<Longrightarrow> a < pool_end i \<Longrightarrow> 0 \<le> off i a \<and> off i a < pool_len i"
  by (auto simp: pool_layout_defs)

lemma slots_apart:
  assumes "slot_ok i (rdptr i)" "slot_ok i a" "slot_ok i b"
    and "off i a + 48 \<le> off i b" "off i b + 48 \<le> pool_len i"
  shows "48 \<le> \<bar>a - b\<bar>"
  using assms by (auto simp: pool_layout_defs split: if_splits)

text \<open>
  An address at or after the write pointer (in ring order) is none of the words the allocator
  reads, which are the headers of the packets in the pool.
\<close>

lemma beyond_slot:
  assumes "slot_ok i (rdptr i)" "slot_ok i h" "pool_start i \<le> x" "x < pool_end i"
    and "off i h + 48 \<le> off i x"
  shows "x < h \<or> h + 48 \<le> x"
  using assms by (auto simp: pool_layout_defs split: if_splits)


lemma pool_wf_slot:
  "pool_wf s mp q \<Longrightarrow> h \<in> fst ` set q \<Longrightarrow> slot_ok (pools s mp) h"
  by (auto simp: pool_wf_def Let_def list_all_iff)

lemma pool_wf_wr_slot: "pool_wf s mp q \<Longrightarrow> slot_ok (pools s mp) (wrptr (pools s mp))"
  by (auto simp: pool_wf_def Let_def)

lemma pool_wf_rd_slot: "pool_wf s mp q \<Longrightarrow> slot_ok (pools s mp) (rdptr (pools s mp))"
  by (cases q) (auto simp: pool_wf_def Let_def)

lemma pool_wf_shape: "pool_wf s mp q \<Longrightarrow> pool_shape (pools s mp) mp"
  by (simp add: pool_wf_def Let_def)

lemma pool_wf_chain:
  "pool_wf s mp q \<Longrightarrow> chain s mp (rdptr (pools s mp)) q (wrptr (pools s mp))"
  by (simp add: pool_wf_def Let_def)

lemma pool_wf_before_wr:
  "pool_wf s mp q \<Longrightarrow> h \<in> fst ` set q \<Longrightarrow>
     off (pools s mp) h + 48 \<le> off (pools s mp) (wrptr (pools s mp))"
  by (auto simp: pool_wf_def Let_def spaced_def sorted_wrt_append)

lemma pool_wf_off_wr_bound:
  "pool_wf s mp q \<Longrightarrow> off (pools s mp) (wrptr (pools s mp)) < pool_len (pools s mp)"
  using off_less [of "pools s mp" "wrptr (pools s mp)"] pool_wf_rd_slot pool_wf_wr_slot
  by (fastforce simp: slot_ok_def)

lemma sorted_wrt_off_distinct:
  "sorted_wrt (\<lambda>a b. off i a + 48 \<le> off i b) as \<Longrightarrow> distinct as"
  by (induction as) fastforce+

lemma pool_wf_distinct: "pool_wf s mp q \<Longrightarrow> distinct (map fst q @ [wrptr (pools s mp)])"
  by (simp only: pool_wf_def Let_def spaced_def) (blast dest: sorted_wrt_off_distinct)

lemma sorted_wrt_off_cases:
  assumes "sorted_wrt (\<lambda>a b. off i a + 48 \<le> off i b) as" "a \<in> set as" "b \<in> set as" "a \<noteq> b"
  shows "off i a + 48 \<le> off i b \<or> off i b + 48 \<le> off i a"
  using assms by (induction as) auto

lemma pool_wf_apart:
  assumes wf: "pool_wf s mp q" and a: "a \<in> fst ` set q" and b: "b \<in> fst ` set q" and "a \<noteq> b"
  shows "48 \<le> \<bar>a - b\<bar>"
proof -
  let ?i = "pools s mp"
  have "sorted_wrt (\<lambda>a b. off ?i a + 48 \<le> off ?i b) (map fst q @ [wrptr ?i])"
    using wf by (simp add: pool_wf_def Let_def spaced_def)
  then have "off ?i a + 48 \<le> off ?i b \<or> off ?i b + 48 \<le> off ?i a"
    by (rule sorted_wrt_off_cases) (use a b \<open>a \<noteq> b\<close> in simp_all)
  moreover have "off ?i a + 48 \<le> pool_len ?i" "off ?i b + 48 \<le> pool_len ?i"
    using pool_wf_before_wr [OF wf a] pool_wf_before_wr [OF wf b] pool_wf_off_wr_bound [OF wf]
    by linarith+
  ultimately show ?thesis
    using slots_apart [of ?i a b] slots_apart [of ?i b a] pool_wf_slot [OF wf] a b
      pool_wf_rd_slot [OF wf] by fastforce
qed

text \<open>Only the headers of the packets and the wrap word matter to the invariant.\<close>

lemma pool_wf_frame:
  assumes wf: "pool_wf s mp q" and pools: "pools s' mp = pools s mp"
    and hdrs: "\<And>h. h \<in> fst ` set q \<Longrightarrow> ldw s' h = ldw s h \<and> ldw s' (h + 4) = ldw s (h + 4)"
    and wrap: "ldw s' (pool_end (pools s mp)) = ldw s (pool_end (pools s mp))"
  shows "pool_wf s' mp q"
  using wf wrap by (simp add: pool_wf_def Let_def pools chain_cong [of q s' s, OF hdrs])

text \<open>
  A store anywhere from the write pointer on (in ring order) leaves the pool as it is: the
  producer fills the space it reserved without touching a published packet.
\<close>

lemma pool_wf_store_free_space:
  assumes wf: "pool_wf s mp q" and x: "pool_start (pools s mp) \<le> x" "x < pool_end (pools s mp)"
    and free: "off (pools s mp) (wrptr (pools s mp)) \<le> off (pools s mp) x"
  shows "pool_wf (stw s x w) mp q"
proof (rule pool_wf_frame [OF wf])
  show "pools (stw s x w) mp = pools s mp" by simp
next
  fix h assume h: "h \<in> fst ` set q"
  have "x < h \<or> h + 48 \<le> x"
    using beyond_slot [OF pool_wf_rd_slot [OF wf] pool_wf_slot [OF wf h] x]
      pool_wf_before_wr [OF wf h] free by linarith
  then show "ldw (stw s x w) h = ldw s h \<and> ldw (stw s x w) (h + 4) = ldw s (h + 4)"
    by auto
next
  show "ldw (stw s x w) (pool_end (pools s mp)) = ldw s (pool_end (pools s mp))"
    using x by simp
qed


subsection \<open>Initialisation and reservation\<close>

lemma mii_init_mempool_inv:
  assumes "0 < mp" "4 dvd mp" "4 dvd bytes" "112 \<le> bytes" "mp + bytes \<le> 2 ^ 31"
  shows "pool_inv (mii_init_mempool s mp bytes) mp []"
  using assms
  by (auto simp: pool_inv_def pool_wf_def mii_init_mempool_def Let_def pool_layout_defs spaced_def
      hdr_next_def)

text \<open>Writing the \<open>info\<close> word of the header at the write pointer keeps the pool.\<close>

lemma pool_wf_write_info:
  assumes wf: "pool_wf s mp q"
    and space: "off (pools s mp) (wrptr (pools s mp)) + 8 \<le> pool_len (pools s mp)"
  shows "pool_wf (stw s (wrptr (pools s mp) + 4) w) mp q"
proof (rule pool_wf_store_free_space [OF wf])
  show "pool_start (pools s mp) \<le> wrptr (pools s mp) + 4"
    "wrptr (pools s mp) + 4 < pool_end (pools s mp)"
    using pool_wf_wr_slot [OF wf] by (auto simp: slot_ok_def)
  show "off (pools s mp) (wrptr (pools s mp)) \<le> off (pools s mp) (wrptr (pools s mp) + 4)"
    using space pool_wf_wr_slot [OF wf] pool_wf_rd_slot [OF wf]
    by (auto simp: pool_layout_defs split: if_splits)
qed

lemma pool_inv_wf: "pool_inv s mp q \<Longrightarrow> pool_wf s mp q"
  by (simp add: pool_inv_def)

text \<open>The space from the write pointer to the oldest packet, the whole ring when empty.\<close>

definition free_bytes :: "mempool_info_t \<Rightarrow> int" where
  "free_bytes i = pool_len i - off i (wrptr i)"

lemma mii_reserve_space:
  assumes inv: "pool_wf s mp q" and "mii_reserve c s mp = (buf, e, s')" and "buf \<noteq> 0"
  shows "buf = buf_of_hdr (wrptr (pools s mp))" "e = Some (rdptr (pools s mp))"
    "s' = stw s (wrptr (pools s mp) + 4) (word_of_int mp)"
    "88 \<le> free_bytes (pools s mp)"
  using assms(2,3) pool_wf_wr_slot [OF inv] pool_wf_rd_slot [OF inv] pool_wf_shape [OF inv]
  by (auto simp: mii_reserve_def Let_def free_bytes_def pool_layout_defs to_unsigned_id
      split: if_splits)

lemma mii_reserve_inv:
  assumes inv: "pool_inv s mp q" and r: "mii_reserve c s mp = (buf, e, s')"
  shows "pool_inv s' mp q" "pools s' = pools s"
proof -
  show "pools s' = pools s"
    using r by (auto simp: mii_reserve_def Let_def split: if_splits)
  show "pool_inv s' mp q"
  proof (cases "buf = 0")
    case True
    then have "s' = s"
      using r pool_wf_wr_slot [OF pool_inv_wf [OF inv]] pool_wf_shape [OF pool_inv_wf [OF inv]]
      by (auto simp: mii_reserve_def Let_def buf_of_hdr_def pool_layout_defs split: if_splits)
    with inv show ?thesis by simp
  next
    case False
    note sp = mii_reserve_space [OF pool_inv_wf [OF inv] r False]
    show ?thesis
      using inv sp(3,4) pool_wf_write_info [OF pool_inv_wf [OF inv]]
      by (simp add: pool_inv_def free_bytes_def)
  qed
qed

lemma mii_reserve_at_least_space:
  assumes inv: "pool_wf s mp q" and "mii_reserve_at_least c s mp n = (buf, s')" and "buf \<noteq> 0"
    and "48 \<le> n"
  shows "buf = buf_of_hdr (wrptr (pools s mp))"
    "s' = stw s (wrptr (pools s mp) + 4) (word_of_int mp)"
    "n \<le> free_bytes (pools s mp)"
    "rdptr (pools s mp) = pool_start (pools s mp) \<Longrightarrow> n + 88 \<le> free_bytes (pools s mp)"
  using assms(2-) pool_wf_wr_slot [OF inv] pool_wf_rd_slot [OF inv] pool_wf_shape [OF inv]
  by (auto simp: mii_reserve_at_least_def Let_def free_bytes_def pool_layout_defs
      split: if_splits)

lemma mii_reserve_at_least_inv:
  assumes inv: "pool_inv s mp q" and r: "mii_reserve_at_least c s mp n = (buf, s')" and "48 \<le> n"
  shows "pool_inv s' mp q" "pools s' = pools s"
proof -
  show "pools s' = pools s"
    using r by (auto simp: mii_reserve_at_least_def Let_def split: if_splits)
  show "pool_inv s' mp q"
  proof (cases "buf = 0")
    case True
    then have "s' = s"
      using r pool_wf_wr_slot [OF pool_inv_wf [OF inv]] pool_wf_shape [OF pool_inv_wf [OF inv]]
      by (auto simp: mii_reserve_at_least_def Let_def buf_of_hdr_def pool_layout_defs
          split: if_splits)
    with inv show ?thesis by simp
  next
    case False
    note sp = mii_reserve_at_least_space [OF pool_inv_wf [OF inv] r False \<open>48 \<le> n\<close>]
    show ?thesis
      using inv sp(2,3) \<open>48 \<le> n\<close> pool_wf_write_info [OF pool_inv_wf [OF inv]]
      by (simp add: pool_inv_def free_bytes_def)
  qed
qed

subsection \<open>Freeing\<close>

definition popped :: "ram \<Rightarrow> addr \<Rightarrow> addr \<Rightarrow> ram" where
  "popped s mp h =
     (let n = \<bar>hdr_next s h\<bar>; i = pools s mp
      in stw (set_pool s mp (i\<lparr>rdptr := n,
            rdptr_at_start := (if n = pool_start i then 1 else 0)\<rparr>)) h 0)"

lemma off_shift:
  assumes "slot_ok i (rdptr i)" "slot_ok i r" "slot_ok i a" "off i r \<le> off i a"
  shows "off (i\<lparr>rdptr := r, rdptr_at_start := z\<rparr>) a = off i a - off i r"
  using assms by (auto simp: pool_layout_defs split: if_splits)

lemma spaced_shift:
  assumes "slot_ok i (rdptr i)" "list_all (slot_ok i) (r # as)" "spaced i (r # as)"
  shows "spaced (i\<lparr>rdptr := r, rdptr_at_start := z\<rparr>) (r # as)"
proof -
  have "off (i\<lparr>rdptr := r, rdptr_at_start := z\<rparr>) a = off i a - off i r" if "a \<in> set (r # as)" for a
    using assms that by (intro off_shift) (auto simp: list_all_iff spaced_def)
  then show ?thesis
    using assms(3) unfolding spaced_def
    by (elim sorted_wrt_mono_rel [rotated]) auto
qed

lemma off_update_pool [simp]:
  "off (i\<lparr>wrptr := w\<rparr>) = off i" "slot_ok (i\<lparr>wrptr := w\<rparr>) = slot_ok i"
  "slot_ok (i\<lparr>rdptr := r, rdptr_at_start := z\<rparr>) = slot_ok i"
  "pool_shape (i\<lparr>wrptr := w\<rparr>) mp = pool_shape i mp"
  "pool_shape (i\<lparr>rdptr := r, rdptr_at_start := z\<rparr>) mp = pool_shape i mp"
  by (auto simp: pool_layout_defs fun_eq_iff)

lemma spaced_update_wrptr [simp]: "spaced (i\<lparr>wrptr := w\<rparr>) as = spaced i as"
  by (simp add: spaced_def)

lemma chain_head:
  "chain s mp p ((h, f) # q) w \<Longrightarrow> \<bar>hdr_next s h\<bar> = hd (map fst q @ [w])"
  by (cases q) auto

lemma popped_wf:
  assumes wf: "pool_wf s mp ((h, f) # q)"
  shows "pool_wf (popped s mp h) mp q"
proof -
  let ?i = "pools s mp"
  let ?n = "\<bar>hdr_next s h\<bar>"
  let ?j = "?i\<lparr>rdptr := ?n, rdptr_at_start := (if ?n = pool_start ?i then 1 else 0)\<rparr>"
  have h: "h = rdptr ?i" and tail: "chain s mp ?n q (wrptr ?i)"
    using pool_wf_chain [OF wf] by auto
  obtain as where as: "map fst q @ [wrptr ?i] = ?n # as"
    using chain_head [OF pool_wf_chain [OF wf]] by (cases q) auto
  have pools: "pools (popped s mp h) mp = ?j"
    by (simp add: popped_def Let_def)
  have away: "ldw (popped s mp h) a = ldw s a \<and> ldw (popped s mp h) (a + 4) = ldw s (a + 4)"
    if "a \<in> fst ` set q" for a
  proof -
    have "a \<noteq> h"
      using that pool_wf_distinct [OF wf] by auto
    then have "48 \<le> \<bar>a - h\<bar>"
      using that by (intro pool_wf_apart [OF wf]) auto
    then show ?thesis by (auto simp: popped_def Let_def)
  qed
  have all: "list_all (slot_ok ?i) (map fst q @ [wrptr ?i])"
    and "spaced ?i (map fst q @ [wrptr ?i])"
    using wf by (simp_all add: pool_wf_def Let_def spaced_def)
  then have slots: "list_all (slot_ok ?i) (?n # as)" and sp: "spaced ?i (?n # as)"
    by (simp_all only: as)
  from all have all': "list_all (slot_ok ?i) (map fst q)" "slot_ok ?i (wrptr ?i)"
    by simp_all
  have "pool_end ?i \<noteq> h"
    using pool_wf_rd_slot [OF wf] h by (auto simp: slot_ok_def)
  then have "ldw (popped s mp h) (pool_end ?i) = word_of_int (pool_start ?i)"
    using wf by (auto simp: popped_def Let_def pool_wf_def)
  moreover have "spaced ?j (?n # as)"
    using spaced_shift [OF pool_wf_rd_slot [OF wf] slots sp] .
  ultimately show ?thesis
    using pool_wf_shape [OF wf] all' tail as chain_cong [of q "popped s mp h" s, OF away]
    by (simp add: pool_wf_def Let_def pools)
qed

lemma pop_is_popped:
  assumes "rdptr (pools s mp) = h"
  shows "mii_free_loop s mp h =
     (if \<bar>hdr_next s h\<bar> = wrptr (pools s mp) \<or> 0 < hdr_next (popped s mp h) \<bar>hdr_next s h\<bar>
      then Some (popped s mp h) else mii_free_loop (popped s mp h) mp \<bar>hdr_next s h\<bar>)"
proof -
  have "(if hdr_next s h < 0 then - hdr_next s h else hdr_next s h) = \<bar>hdr_next s h\<bar>"
    by (simp add: abs_if)
  then show ?thesis
    by (subst mii_free_loop.simps) (simp add: assms Let_def popped_def)
qed

lemma popped_hdr_next:
  assumes wf: "pool_wf s mp ((h, f) # q)" and "a \<in> fst ` set q"
  shows "hdr_next (popped s mp h) a = hdr_next s a"
proof -
  have "a \<noteq> h"
    using assms pool_wf_distinct [OF wf] by auto
  then show ?thesis by (simp add: hdr_next_def popped_def Let_def)
qed

text \<open>
  The loop of \<open>mii_free\<close>, started at the oldest packet, returns: it drops that packet and the
  freed packets behind it, and stops at the first packet still in use or at the write pointer.
\<close>

lemma mii_free_loop_pops:
  "pool_wf s mp ((h, f) # q) \<Longrightarrow>
     \<exists>s'. mii_free_loop s mp h = Some s' \<and> pool_inv s' mp (dropWhile snd q)"
proof (induction q arbitrary: s h f)
  case Nil
  have "rdptr (pools s mp) = h" "\<bar>hdr_next s h\<bar> = wrptr (pools s mp)"
    using pool_wf_chain [OF Nil.prems] by auto
  then show ?case
    using popped_wf [OF Nil.prems] by (simp add: pop_is_popped pool_inv_def)
next
  case (Cons x q)
  obtain a g where x: "x = (a, g)" by (cases x)
  note wf = Cons.prems [unfolded x]
  have h: "rdptr (pools s mp) = h" and a: "\<bar>hdr_next s h\<bar> = a" and g: "g = (hdr_next s a < 0)"
    and nz: "hdr_next s a \<noteq> 0"
    using pool_wf_chain [OF wf] by auto
  have nw: "a \<noteq> wrptr (pools s mp)"
    using pool_wf_distinct [OF wf] by auto
  have next_a: "hdr_next (popped s mp h) a = hdr_next s a"
    by (rule popped_hdr_next [OF wf]) simp
  show ?case
  proof (cases g)
    case True
    then show ?thesis
      using Cons.IH [OF popped_wf [OF wf]] g nw
      by (simp add: pop_is_popped [OF h] a next_a x)
  next
    case False
    then show ?thesis
      using popped_wf [OF wf] g nz
      by (simp add: pop_is_popped [OF h] a next_a x pool_inv_def)
  qed
qed


lemma chain_next_in:
  "chain s mp p q w \<Longrightarrow> a \<in> fst ` set q \<Longrightarrow> \<bar>hdr_next s a\<bar> \<in> set (map fst q @ [w])"
proof (induction s mp p q w rule: chain.induct)
  case (1 s mp p w)
  then show ?case by simp
next
  case (2 s mp p h f q w)
  then show ?case
    using chain_head [of s mp p h f q w] by (cases q) auto
qed

lemma pool_wf_next_slot:
  assumes wf: "pool_wf s mp q" and a: "a \<in> fst ` set q"
  shows "slot_ok (pools s mp) \<bar>hdr_next s a\<bar>"
proof -
  have "list_all (slot_ok (pools s mp)) (map fst q @ [wrptr (pools s mp)])"
    using wf by (simp add: pool_wf_def Let_def)
  then show ?thesis
    using chain_next_in [OF pool_wf_chain [OF wf] a] by (simp add: list_all_iff del: set_append)
qed

lemma chain_toggle:
  assumes "chain s mp p q w"
    and "\<And>a. a \<in> fst ` set q \<Longrightarrow> hdr_info s' a = hdr_info s a \<and>
           hdr_next s' a = (if a = h then - hdr_next s a else hdr_next s a)"
  shows "chain s' mp p (toggle h q) w"
  using assms by (induction s mp p q w rule: chain.induct) (auto simp: toggle_Cons)

lemma pool_wf_toggle:
  assumes wf: "pool_wf s mp q" and h: "h \<in> fst ` set q"
  shows "pool_wf (stw s h (- ldw s h)) mp (toggle h q)"
proof -
  let ?s' = "stw s h (- ldw s h)"
  have slot: "slot_ok (pools s mp) h" and end_h: "pool_end (pools s mp) \<noteq> h"
    using pool_wf_slot [OF wf h] by (auto simp: slot_ok_def)
  have "- (2 ^ 31) < hdr_next s h"
    using pool_wf_next_slot [OF wf h] pool_wf_shape [OF wf] by (auto simp: pool_layout_defs)
  then have "hdr_next ?s' h = - hdr_next s h"
    by (simp add: hdr_next_def sint_uminus)
  moreover have "hdr_next ?s' a = hdr_next s a" if "a \<noteq> h" for a
    using that by (simp add: hdr_next_def)
  moreover have "hdr_info ?s' a = hdr_info s a" if "a \<in> fst ` set q" for a
    using pool_wf_apart [OF wf that h] by (cases "a = h") (auto simp: hdr_info_def)
  ultimately have "chain ?s' mp (rdptr (pools s mp)) (toggle h q) (wrptr (pools s mp))"
    by (intro chain_toggle [OF pool_wf_chain [OF wf]]) auto
  then show ?thesis
    using wf end_h by (simp add: pool_wf_def Let_def)
qed

text \<open>
  Any packet of the pool may be freed, in any order: the oldest is removed together with the
  freed ones behind it, another one is marked.
\<close>

lemma mii_free_refines:
  assumes inv: "pool_inv s mp q" and h: "h \<in> fst ` set q"
  shows "\<exists>s'. mii_free s (buf_of_hdr h) = Some s' \<and> pool_inv s' mp (free_spec h q)"
proof -
  note wf = pool_inv_wf [OF inv]
  obtain r f q' where q: "q = (r, f) # q'"
    using h by (cases q) auto
  have r: "rdptr (pools s mp) = r" and f: "\<not> f"
    using pool_wf_chain [OF wf] inv by (auto simp: q pool_inv_def)
  have "hdr_info s h = mp"
    using h chain_info [OF pool_wf_chain [OF wf]] by auto
  then have free: "mii_free s (buf_of_hdr h) = mii_free_loop s mp h"
    by (simp add: mii_free_def)
  show ?thesis
  proof (cases "h = r")
    case True
    have "r \<notin> set (map fst q')"
      using pool_wf_distinct [OF wf] by (simp add: q)
    then have "free_spec h q = dropWhile snd q'"
      using f by (simp add: True q free_spec_def toggle_Cons toggle_not_in)
    then show ?thesis
      using mii_free_loop_pops [of s mp r f q'] wf free by (simp add: True q)
  next
    case False
    have "mii_free_loop s mp h = Some (stw s h (- ldw s h))"
      by (subst mii_free_loop.simps) (simp add: Let_def r False)
    moreover have "free_spec h q = toggle h q"
      using False f by (simp add: free_spec_def q toggle_Cons)
    moreover have "\<not> snd (hd (toggle h q))"
      using False f by (simp add: q toggle_Cons)
    ultimately show ?thesis
      using pool_wf_toggle [OF wf h] by (simp add: free pool_inv_def)
  qed
qed

text \<open>What a free leaves alone: everything but the \<open>next\<close> words of packets in the pool.\<close>

definition read_pointer_moved :: "mempool_info_t \<Rightarrow> pool_queue \<Rightarrow> mempool_info_t \<Rightarrow> bool" where
  "read_pointer_moved i q j \<longleftrightarrow>
     (\<exists>r z. j = i\<lparr>rdptr := r, rdptr_at_start := z\<rparr> \<and> r \<in> set (map fst q @ [wrptr i]))"

lemma popped_pools:
  "pools (popped s mp h) mp = (pools s mp)\<lparr>rdptr := \<bar>hdr_next s h\<bar>,
     rdptr_at_start := (if \<bar>hdr_next s h\<bar> = pool_start (pools s mp) then 1 else 0)\<rparr>"
  by (simp add: popped_def Let_def)

lemma popped_ldw: "a \<noteq> h \<Longrightarrow> ldw (popped s mp h) a = ldw s a"
  by (simp add: popped_def Let_def)

lemma mii_free_loop_frame:
  "pool_wf s mp ((h, f) # q) \<Longrightarrow> mii_free_loop s mp h = Some s' \<Longrightarrow>
     read_pointer_moved (pools s mp) q (pools s' mp) \<and>
     (\<forall>a. a \<notin> fst ` set ((h, f) # q) \<longrightarrow> ldw s' a = ldw s a)"
proof (induction q arbitrary: s h f)
  case Nil
  have "rdptr (pools s mp) = h" "\<bar>hdr_next s h\<bar> = wrptr (pools s mp)"
    using pool_wf_chain [OF Nil.prems(1)] by auto
  then have "s' = popped s mp h"
    using Nil.prems(2) by (simp add: pop_is_popped)
  then show ?case
    using \<open>\<bar>hdr_next s h\<bar> = wrptr (pools s mp)\<close>
    by (auto simp: read_pointer_moved_def popped_pools popped_ldw)
next
  case (Cons x q)
  obtain a g where x: "x = (a, g)" by (cases x)
  have h: "rdptr (pools s mp) = h" and a: "\<bar>hdr_next s h\<bar> = a"
    using pool_wf_chain [OF Cons.prems(1)] by (auto simp: x)
  show ?case
  proof (cases "s' = popped s mp h")
    case True
    then show ?thesis
      by (auto simp: read_pointer_moved_def popped_pools popped_ldw a x)
  next
    case False
    then have "mii_free_loop (popped s mp h) mp a = Some s'"
      using Cons.prems(2) by (simp add: pop_is_popped [OF h] a split: if_splits)
    then have IH: "read_pointer_moved (pools (popped s mp h) mp) q (pools s' mp)"
      "\<forall>b. b \<notin> fst ` set ((a, g) # q) \<longrightarrow> ldw s' b = ldw (popped s mp h) b"
      using Cons.IH [of "popped s mp h" a g] popped_wf [OF Cons.prems(1)] by (simp_all add: x)
    have "read_pointer_moved (pools s mp) (x # q) (pools s' mp)"
      using IH(1) by (auto simp: read_pointer_moved_def popped_pools)
    then show ?thesis
      using IH(2) by (auto simp: popped_ldw x)
  qed
qed

lemma read_pointer_moved_free_bytes:
  assumes wf: "pool_wf s mp q" and moved: "read_pointer_moved (pools s mp) q j"
  shows "wrptr j = wrptr (pools s mp)" "pool_start j = pool_start (pools s mp)"
    "pool_end j = pool_end (pools s mp)" "free_bytes (pools s mp) \<le> free_bytes j"
proof -
  let ?i = "pools s mp"
  obtain r z where j: "j = ?i\<lparr>rdptr := r, rdptr_at_start := z\<rparr>" and r: "r \<in> set (map fst q @ [wrptr ?i])"
    using moved by (auto simp: read_pointer_moved_def)
  show "wrptr j = wrptr ?i" "pool_start j = pool_start ?i" "pool_end j = pool_end ?i"
    by (simp_all add: j)
  have "slot_ok ?i r" "off ?i r \<le> off ?i (wrptr ?i)"
    using r pool_wf_slot [OF wf, of r] pool_wf_wr_slot [OF wf] pool_wf_before_wr [OF wf, of r]
    by (cases "r \<in> fst ` set q"; simp)+
  moreover have "0 \<le> off ?i r"
    using off_less [OF pool_wf_rd_slot [OF wf], of r] \<open>slot_ok ?i r\<close> by (simp add: slot_ok_def)
  ultimately show "free_bytes ?i \<le> free_bytes j"
    using off_shift [OF pool_wf_rd_slot [OF wf] _ pool_wf_wr_slot [OF wf], of r z]
    by (simp add: free_bytes_def j pool_len_def)
qed

lemma mii_free_frame:
  assumes inv: "pool_inv s mp q" and h: "h \<in> fst ` set q" and s': "mii_free s (buf_of_hdr h) = Some s'"
  shows "wrptr (pools s' mp) = wrptr (pools s mp)" "pool_start (pools s' mp) = pool_start (pools s mp)"
    "pool_end (pools s' mp) = pool_end (pools s mp)"
    "free_bytes (pools s mp) \<le> free_bytes (pools s' mp)"
    "\<And>a. a \<notin> fst ` set q \<Longrightarrow> ldw s' a = ldw s a"
proof -
  note wf = pool_inv_wf [OF inv]
  obtain r f q' where q: "q = (r, f) # q'"
    using h by (cases q) auto
  have r: "rdptr (pools s mp) = r"
    using pool_wf_chain [OF wf] by (auto simp: q)
  have "hdr_info s h = mp"
    using h chain_info [OF pool_wf_chain [OF wf]] by auto
  then have loop: "mii_free_loop s mp h = Some s'"
    using s' by (simp add: mii_free_def)
  have "read_pointer_moved (pools s mp) q (pools s' mp) \<and> (\<forall>a. a \<notin> fst ` set q \<longrightarrow> ldw s' a = ldw s a)"
  proof (cases "h = r")
    case True
    have "read_pointer_moved (pools s mp) q' (pools s' mp) \<Longrightarrow> read_pointer_moved (pools s mp) q (pools s' mp)"
      by (auto simp: read_pointer_moved_def q)
    then show ?thesis
      using mii_free_loop_frame [of s mp r f q' s'] wf loop True by (simp add: q)
  next
    case False
    then have "s' = stw s h (- ldw s h)"
      using loop r by (subst (asm) mii_free_loop.simps) (simp add: Let_def)
    moreover have "read_pointer_moved (pools s mp) q (pools s mp)"
      unfolding read_pointer_moved_def
      by (rule exI [of _ "rdptr (pools s mp)"], rule exI [of _ "rdptr_at_start (pools s mp)"])
        (simp add: q r)
    ultimately show ?thesis
      using h by auto
  qed
  then show "wrptr (pools s' mp) = wrptr (pools s mp)" "pool_start (pools s' mp) = pool_start (pools s mp)"
    "pool_end (pools s' mp) = pool_end (pools s mp)" "free_bytes (pools s mp) \<le> free_bytes (pools s' mp)"
    "\<And>a. a \<notin> fst ` set q \<Longrightarrow> ldw s' a = ldw s a"
    using read_pointer_moved_free_bytes [OF wf] by auto
qed

subsection \<open>Committing\<close>

lemma off_wr_inner:
  assumes wf: "pool_wf s mp q" and "off (pools s mp) (wrptr (pools s mp)) + 48 \<le> pool_len (pools s mp)"
    and "h \<in> fst ` set q"
  shows "48 \<le> \<bar>h - wrptr (pools s mp)\<bar>"
  using slots_apart [OF pool_wf_rd_slot [OF wf] pool_wf_slot [OF wf assms(3)] pool_wf_wr_slot [OF wf]
      pool_wf_before_wr [OF wf assms(3)] assms(2)] .

text \<open>Where a commit puts the write pointer, and that it is a proper slot beyond the old one.\<close>

definition commit_wraps :: "mempool_info_t \<Rightarrow> addr \<Rightarrow> bool" where
  "commit_wraps i e \<longleftrightarrow> pool_end i - e < 88"

definition commit_end :: "mempool_info_t \<Rightarrow> addr \<Rightarrow> addr" where
  "commit_end i e = (if commit_wraps i e then pool_start i else e)"

lemma commit_end_slot:
  assumes "pool_shape i mp" "slot_ok i (rdptr i)" "pool_start i \<le> e" "e < pool_end i" "4 dvd e"
    and "\<not> (commit_wraps i e \<and> rdptr i = pool_start i)"
  shows "slot_ok i (commit_end i e)" "off i e \<le> off i (commit_end i e)"
  using assms by (auto simp: commit_end_def commit_wraps_def pool_layout_defs split: if_splits)

lemma mii_commit_refines:
  assumes inv: "pool_inv s mp q" and w: "w = wrptr (pools s mp)" and i: "hdr_info s w = mp"
    and e: "pool_start (pools s mp) \<le> e" "e < pool_end (pools s mp)" "4 dvd e"
    and room: "off (pools s mp) w + 48 \<le> off (pools s mp) e"
    and c: "mii_commit c s (buf_of_hdr w) e = (r, s')"
  shows "if commit_wraps (pools s mp) e \<and> rdptr (pools s mp) = pool_start (pools s mp)
         then r = 0 \<and> s' = s
         else r = 1 \<and> pool_inv s' mp (commit_spec w q) \<and>
              wrptr (pools s' mp) = commit_end (pools s mp) e"
proof -
  let ?i = "pools s mp"
  note wf = pool_inv_wf [OF inv]
  have uns: "(to_unsigned (pool_end ?i - e) < 88) = commit_wraps ?i e"
    using e pool_wf_shape [OF wf] by (simp add: commit_wraps_def to_unsigned_id pool_layout_defs)
  have at_start: "(rdptr_at_start ?i \<noteq> 0) = (rdptr ?i = pool_start ?i)"
    using wf by (simp add: pool_wf_def Let_def)
  show ?thesis
  proof (cases "commit_wraps ?i e \<and> rdptr ?i = pool_start ?i")
    case True
    then show ?thesis
      using c uns at_start i by (simp add: mii_commit_def Let_def)
  next
    case False
    let ?e = "commit_end ?i e"
    have slot: "slot_ok ?i ?e" and beyond: "off ?i w + 48 \<le> off ?i ?e"
      using commit_end_slot [OF pool_wf_shape [OF wf] pool_wf_rd_slot [OF wf] e False] room by auto
    have e_pos: "0 < ?e" "?e < 2 ^ 31"
      using slot pool_wf_shape [OF wf] by (auto simp: pool_layout_defs)
    have "off ?i ?e < pool_len ?i"
      using slot by (intro conjunct2 [OF off_less [OF pool_wf_rd_slot [OF wf]]]) (auto simp: slot_ok_def)
    then have space: "off ?i w + 48 \<le> pool_len ?i"
      using beyond by simp
    let ?s1 = "mii_packet_set_stage s (buf_of_hdr w) 0"
    let ?s2 = "if port_forwarding c then mii_packet_set_forwarding ?s1 (buf_of_hdr w) 0 else ?s1"
    have "(if to_unsigned (pool_end ?i - e) < MIN_USAGE c then pool_start ?i else e) = ?e"
      by (simp add: uns commit_end_def)
    then have r: "r = 1" and s': "s' = set_pool (stw ?s2 w (word_of_int ?e)) mp (?i\<lparr>wrptr := ?e\<rparr>)"
      using c False uns at_start i by (simp_all add: mii_commit_def Let_def split: if_splits)
    have mem2: "ldw ?s2 a = ldw s a" if "a \<noteq> w + 28" "a \<noteq> w + 40" for a
      using that by (simp add: mii_packet_set_def buf_of_hdr_def sizeof_malloc_hdr_def)
    have pools': "pools s' mp = ?i\<lparr>wrptr := ?e\<rparr>"
      by (simp add: s')
    have next_w: "hdr_next s' w = ?e"
      using e_pos by (simp add: s' hdr_next_def ptr_simps)
    have info_w: "hdr_info s' w = mp"
      using i mem2 [of "w + 4"] by (simp add: s' hdr_info_def)
    have wrap': "ldw s' (pool_end ?i) = ldw s (pool_end ?i)"
      using pool_wf_wr_slot [OF wf] mem2 [of "pool_end ?i"] by (auto simp: s' w slot_ok_def)
    have mem': "ldw s' a = ldw s a \<and> ldw s' (a + 4) = ldw s (a + 4)" if "48 \<le> \<bar>a - w\<bar>" for a
      using that mem2 [of a] mem2 [of "a + 4"] by (auto simp: s')
    have same: "chain s' mp p q v = chain s mp p q v" for p v
      using off_wr_inner [OF wf _] space mem' by (intro chain_cong) (auto simp: w)
    have "chain s' mp (rdptr ?i) (q @ [(w, False)]) ?e"
      using pool_wf_chain [OF wf] e_pos next_w info_w by (simp add: chain_append same w)
    moreover have "spaced ?i (map fst q @ [w, ?e])"
      using wf beyond by (auto simp: pool_wf_def Let_def spaced_def sorted_wrt_append w)
    moreover have "list_all (slot_ok ?i) (map fst q @ [w, ?e])"
      using wf slot by (simp add: pool_wf_def Let_def w)
    ultimately have "pool_wf s' mp (q @ [(w, False)])"
      using wf wrap' by (simp add: pool_wf_def Let_def pools')
    then show ?thesis
      using False r inv pools' by (cases q) (simp_all add: pool_inv_def commit_spec_def)
  qed
qed

subsection \<open>Looking at the pool\<close>

lemma mii_get_next_buf_spec: "pool_inv s mp q \<Longrightarrow> mii_get_next_buf s mp = next_spec q"
  using pool_wf_chain [OF pool_inv_wf] pool_wf_distinct [OF pool_inv_wf]
  by (cases q) (fastforce simp: mii_get_next_buf_def next_spec_def Let_def)+


lemma chain_nth_next:
  "chain s mp p q w \<Longrightarrow> k < length q \<Longrightarrow>
     \<bar>hdr_next s (fst (q ! k))\<bar> = (map fst q @ [w]) ! Suc k"
proof (induction s mp p q w arbitrary: k rule: chain.induct)
  case (1 s mp p w)
  then show ?case by simp
next
  case (2 s mp p h f q w)
  then show ?case
    using chain_head [of s mp p h f q w] by (cases k) (auto simp: hd_conv_nth)
qed

text \<open>
  A reader with its own pointer walks the packets in the order they were committed, as long as
  it has not freed the packet it stands on.
\<close>

lemma mii_my_rdptr_walk:
  assumes inv: "pool_inv s mp q" and k: "k < length q" and f: "\<not> snd (q ! k)"
  shows "mii_get_my_next_buf s mp (fst (q ! k)) = buf_of_hdr (fst (q ! k))"
    "mii_update_my_rdptr s mp (fst (q ! k)) = (map fst q @ [wrptr (pools s mp)]) ! Suc k"
proof -
  note wf = pool_inv_wf [OF inv]
  have in_q: "(fst (q ! k), snd (q ! k)) \<in> set q"
    using k by simp
  then have "fst (q ! k) \<noteq> wrptr (pools s mp)"
    using pool_wf_distinct [OF wf] by force
  then show "mii_get_my_next_buf s mp (fst (q ! k)) = buf_of_hdr (fst (q ! k))"
    by (simp add: mii_get_my_next_buf_def)
  have "0 < hdr_next s (fst (q ! k))"
    using chain_info [OF pool_wf_chain [OF wf] in_q] f by auto
  then show "mii_update_my_rdptr s mp (fst (q ! k)) = (map fst q @ [wrptr (pools s mp)]) ! Suc k"
    using chain_nth_next [OF pool_wf_chain [OF wf] k] by (simp add: mii_update_my_rdptr_def)
qed

lemma mii_my_rdptr_at_end: "mii_get_my_next_buf s mp (wrptr (pools s mp)) = 0"
  by (simp add: mii_get_my_next_buf_def)

subsection \<open>The interface of the allocator\<close>

lemma pending_dropWhile [simp]: "pending (dropWhile snd q) = pending q"
  by (induction q) (auto simp: pending_def)

lemma pending_toggle:
  "distinct (map fst q) \<Longrightarrow> (h, False) \<in> set q \<Longrightarrow> pending (toggle h q) = pending q - {h}"
proof (induction q)
  case Nil
  then show ?case by simp
next
  case (Cons x q)
  obtain a f where x: "x = (a, f)" by (cases x)
  show ?case
  proof (cases "a = h")
    case True
    then have "h \<notin> set (map fst q)" "\<not> f"
      using Cons.prems x by force+
    moreover have "h \<notin> pending q"
      using \<open>h \<notin> set (map fst q)\<close> by (force simp: pending_def)
    ultimately show ?thesis
      using x True by (auto simp: toggle_Cons toggle_not_in pending_def)
  next
    case False
    then show ?thesis
      using Cons x by (auto simp: toggle_Cons pending_def)
  qed
qed

lemma pending_free_spec:
  "distinct (map fst q) \<Longrightarrow> (h, False) \<in> set q \<Longrightarrow> pending (free_spec h q) = pending q - {h}"
  by (simp add: free_spec_def pending_toggle)

lemma pending_Nil_iff: "(q \<noteq> [] \<longrightarrow> \<not> snd (hd q)) \<Longrightarrow> pending q = {} \<longleftrightarrow> q = []"
  by (cases q) (auto simp: pending_def)

fun free_all :: "('s \<Rightarrow> addr \<Rightarrow> 's option) \<Rightarrow> 's \<Rightarrow> addr list \<Rightarrow> 's option" where
  "free_all free s [] = Some s"
| "free_all free s (h # hs) =
     (case free s (buf_of_hdr h) of None \<Rightarrow> None | Some s' \<Rightarrow> free_all free s' hs)"

text \<open>The consumer's loop: take the oldest packet, free it, until the pool is empty.\<close>

fun drain :: "('s \<Rightarrow> addr) \<Rightarrow> ('s \<Rightarrow> addr \<Rightarrow> 's option) \<Rightarrow> nat \<Rightarrow> 's \<Rightarrow> (addr list \<times> 's) option" where
  "drain next_buf free 0 s = None"
| "drain next_buf free (Suc n) s =
     (if next_buf s = 0 then Some ([], s)
      else case free s (next_buf s) of
             None \<Rightarrow> None
           | Some s' \<Rightarrow> map_option (\<lambda>(bs, t). (next_buf s # bs, t)) (drain next_buf free n s'))"

locale packet_pool =
  fixes inv :: "'s \<Rightarrow> pool_queue \<Rightarrow> bool"
    and next_buf :: "'s \<Rightarrow> addr"
    and free :: "'s \<Rightarrow> addr \<Rightarrow> 's option"
  assumes inv_distinct: "inv s q \<Longrightarrow> distinct (map fst q)"
    and inv_nonneg: "inv s q \<Longrightarrow> h \<in> fst ` set q \<Longrightarrow> 0 < h"
    and inv_head: "inv s q \<Longrightarrow> q \<noteq> [] \<Longrightarrow> \<not> snd (hd q)"
    and next_buf_spec: "inv s q \<Longrightarrow> next_buf s = next_spec q"
    and free_refines: "inv s q \<Longrightarrow> h \<in> fst ` set q \<Longrightarrow>
          \<exists>s'. free s (buf_of_hdr h) = Some s' \<and> inv s' (free_spec h q)"
begin

lemma free_all_pending:
  "inv s q \<Longrightarrow> distinct hs \<Longrightarrow> set hs \<subseteq> pending q \<Longrightarrow>
     \<exists>s' q'. free_all free s hs = Some s' \<and> inv s' q' \<and> pending q' = pending q - set hs"
proof (induction hs arbitrary: s q)
  case Nil
  then show ?case by auto
next
  case (Cons h hs)
  have h: "(h, False) \<in> set q"
    using Cons.prems by (auto simp: pending_def)
  obtain s' where s': "free s (buf_of_hdr h) = Some s'" "inv s' (free_spec h q)"
    using free_refines [OF Cons.prems(1), of h] h by force
  have p: "pending (free_spec h q) = pending q - {h}"
    using pending_free_spec [OF inv_distinct [OF Cons.prems(1)] h] .
  obtain t q' where "free_all free s' hs = Some t" "inv t q'"
    "pending q' = pending q - {h} - set hs"
    using Cons.IH [OF s'(2)] Cons.prems p by auto
  then show ?case
    using s'(1) by auto
qed

text \<open>Freed in any order, the packets leave nothing behind.\<close>

lemma free_all_reclaims:
  assumes "inv s q" "distinct hs" "set hs = pending q"
  shows "\<exists>s'. free_all free s hs = Some s' \<and> inv s' []"
proof -
  obtain s' q' where s': "free_all free s hs = Some s'" "inv s' q'" "pending q' = {}"
    using free_all_pending [OF assms(1,2)] assms(3) by auto
  then have "q' = []"
    using pending_Nil_iff [of q'] inv_head [OF s'(2)] by blast
  with s' show ?thesis by auto
qed

lemma next_buf_zero: "inv s q \<Longrightarrow> next_buf s = 0 \<longleftrightarrow> q = []"
  using inv_nonneg [of s q "fst (hd q)"]
  by (cases q) (auto simp: next_buf_spec next_spec_def buf_of_hdr_def sizeof_malloc_hdr_def)

text \<open>The oldest packet first, and packets already freed out of turn are not seen again.\<close>

lemma drain_fifo:
  "inv s q \<Longrightarrow> length q < n \<Longrightarrow>
     \<exists>s'. drain next_buf free n s =
            Some (map (buf_of_hdr \<circ> fst) (filter (\<lambda>x. \<not> snd x) q), s') \<and> inv s' []"
proof (induction n arbitrary: s q)
  case 0
  then show ?case by simp
next
  case (Suc n)
  show ?case
  proof (cases q)
    case Nil
    then show ?thesis
      using Suc.prems next_buf_zero [OF Suc.prems(1)] by auto
  next
    case (Cons x q')
    obtain h f where x: "x = (h, f)" by (cases x)
    have f: "\<not> f" and h: "h \<notin> fst ` set q'"
      using inv_head [OF Suc.prems(1)] inv_distinct [OF Suc.prems(1)] by (auto simp: Cons x)
    have nb: "next_buf s = buf_of_hdr h" "next_buf s \<noteq> 0"
      using next_buf_spec [OF Suc.prems(1)] next_buf_zero [OF Suc.prems(1)]
      by (simp_all add: Cons x next_spec_def)
    have fs: "free_spec h q = dropWhile snd q'"
      using f h by (simp add: Cons x free_spec_def toggle_Cons toggle_not_in)
    obtain s' where s': "free s (buf_of_hdr h) = Some s'" "inv s' (dropWhile snd q')"
      using free_refines [OF Suc.prems(1), of h] by (auto simp: fs) (auto simp: Cons x)
    have "length (dropWhile snd q') < n"
      using Suc.prems(2) length_dropWhile_le [of snd q'] by (simp add: Cons)
    then obtain t where "drain next_buf free n s' =
        Some (map (buf_of_hdr \<circ> fst) (filter (\<lambda>x. \<not> snd x) (dropWhile snd q')), t)" "inv t []"
      using Suc.IH [OF s'(2)] by auto
    moreover have "filter (\<lambda>x. \<not> snd x) (dropWhile snd q') = filter (\<lambda>x. \<not> snd x) q'"
      by (induction q') auto
    ultimately show ?thesis
      using s'(1) nb f by (auto simp: Cons x)
  qed
qed

end

interpretation mempool: packet_pool "\<lambda>s. pool_inv s mp" "\<lambda>s. mii_get_next_buf s mp" mii_free
  for mp
proof unfold_locales
  fix s q h
  assume inv: "pool_inv s mp q"
  show "distinct (map fst q)"
    using pool_wf_distinct [OF pool_inv_wf [OF inv]] by simp
  show "0 < h" if "h \<in> fst ` set q"
    using pool_wf_slot [OF pool_inv_wf [OF inv] that] pool_wf_shape [OF pool_inv_wf [OF inv]]
    by (auto simp: pool_layout_defs)
  show "\<not> snd (hd q)" if "q \<noteq> []"
    using inv that by (simp add: pool_inv_def)
  show "mii_get_next_buf s mp = next_spec q"
    by (rule mii_get_next_buf_spec [OF inv])
  show "\<exists>s'. mii_free s (buf_of_hdr h) = Some s' \<and> pool_inv s' mp (free_spec h q)"
    if "h \<in> fst ` set q"
    by (rule mii_free_refines [OF inv that])
qed

subsection \<open>Properties\<close>

text \<open>A small pool with three published packets, on which the properties are exercised.\<close>

definition example_ram :: ram where
  "example_ram = \<lparr>mem = \<lambda>a. 0, pools = \<lambda>p. \<lparr>rdptr = 0, wrptr = 0, pool_start = 0,
     pool_end = 0, rdptr_at_start = 0\<rparr>\<rparr>"

definition example_packet :: "ram \<Rightarrow> ram" where
  "example_packet s =
     (let (buf, e, s) = mii_reserve default_config s 1024
      in snd (mii_commit default_config s buf (buf + 120)))"

definition example_pool :: ram where
  "example_pool = example_packet (example_packet (example_packet
     (mii_init_mempool example_ram 1024 800)))"

definition example_queue :: pool_queue where
  "example_queue = [(1044, False), (1172, False), (1300, False)]"

lemma example_pool_inv: "pool_inv example_pool 1024 example_queue"
  by code_simp

text \<open>C8: Published packets may be freed in any order, each once. Every \<open>mii_free\<close> returns, the
pool stays well formed, and what is still allocated is what was allocated and not freed: a
packet freed out of turn is only marked and reclaimed when those before it are gone. When all
have been freed the pool is empty.\<close>

theorem mii_free_any_order:
  assumes "pool_inv s mp q" and "distinct hs" and "set hs \<subseteq> pending q"
  shows "\<exists>s' q'. free_all mii_free s hs = Some s' \<and> pool_inv s' mp q' \<and>
    pending q' = pending q - set hs \<and>
    (set hs = pending q \<longrightarrow> mii_get_next_buf s' mp = 0)"
proof -
  obtain s' q' where s': "free_all mii_free s hs = Some s'" "pool_inv s' mp q'"
    and p: "pending q' = pending q - set hs"
    using mempool.free_all_pending [OF assms] by auto
  have "mii_get_next_buf s' mp = 0" if "set hs = pending q"
    using p that pending_Nil_iff [of q'] s'(2) mempool.next_buf_zero [OF s'(2)]
    by (auto simp: pool_inv_def)
  then show ?thesis
    using s' p by auto
qed

theorem mii_free_any_order_witness:
  "\<exists>s'. free_all mii_free example_pool [1300, 1044, 1172] = Some s' \<and> mii_get_next_buf s' 1024 = 0"
proof -
  have p: "pending example_queue = {1044, 1172, 1300}"
    by (auto simp: pending_def example_queue_def)
  then show ?thesis
    using mii_free_any_order [OF example_pool_inv, of "[1300, 1044, 1172]"]
    by (auto simp: insert_commute)
qed

text \<open>C12: One \<open>mii_free\<close> of a published packet implements the abstract operation: the packet's mark
is set and the marked packets at the front of the queue disappear. No word changes except the
first header word of published packets, so no data and no other packet's fields are touched,
and the space for new packets does not shrink.\<close>

theorem mii_free_refines_spec:
  assumes "pool_inv s mp q" and "h \<in> fst ` set q"
  shows "\<exists>s'. mii_free s (buf_of_hdr h) = Some s' \<and> pool_inv s' mp (free_spec h q) \<and>
    (\<forall>a. a \<notin> fst ` set q \<longrightarrow> ldw s' a = ldw s a) \<and> wrptr (pools s' mp) = wrptr (pools s mp) \<and>
    free_bytes (pools s mp) \<le> free_bytes (pools s' mp)"
  using mii_free_refines [OF assms] mii_free_frame [OF assms] by blast

theorem mii_free_refines_spec_witness:
  "\<exists>s'. mii_free example_pool 1180 = Some s' \<and>
     pool_inv s' 1024 [(1044, False), (1172, True), (1300, False)]"
proof -
  have "(1172::addr) \<in> fst ` set example_queue" by (simp add: example_queue_def)
  from mii_free_refines_spec [OF example_pool_inv this] show ?thesis
    by (auto simp: example_queue_def free_spec_def toggle_Cons buf_of_hdr_def sizeof_malloc_hdr_def)
qed

text \<open>C19: A consumer that takes the next packet and frees it until \<open>mii_get_next_buf\<close> returns 0
gets every published packet that was not freed already, each once and in the order in which
they were committed, and leaves the pool empty.\<close>

theorem mempool_fifo:
  assumes "pool_inv s mp q" and "length q < n"
  shows "\<exists>s'. drain (\<lambda>s. mii_get_next_buf s mp) mii_free n s =
      Some (map (buf_of_hdr \<circ> fst) (filter (\<lambda>x. \<not> snd x) q), s') \<and> pool_inv s' mp []"
  by (rule mempool.drain_fifo [OF assms])

theorem mempool_fifo_witness:
  "\<exists>s'. drain (\<lambda>s. mii_get_next_buf s 1024) mii_free 4 example_pool = Some ([1052, 1180, 1308], s')"
  using mempool_fifo [OF example_pool_inv, of 4]
  by (auto simp: example_queue_def buf_of_hdr_def sizeof_malloc_hdr_def)

text \<open>C11: Reserving and committing. After a successful \<open>mii_reserve\<close>, committing an end pointer
that lies beyond the packet's header appends the packet to the queue and moves the write pointer
behind it, to the start of the pool when too little is left at the end. It fails, leaving the
pool as it was, exactly when it would have to wrap while the read pointer is at the start.\<close>

theorem mii_reserve_commit:
  assumes inv: "pool_inv s mp q" and r: "mii_reserve c s mp = (buf, e, s1)" and nz: "buf \<noteq> 0"
    and e: "pool_start (pools s mp) \<le> p" "p < pool_end (pools s mp)" "4 dvd p"
    and room: "off (pools s mp) (hdr_of_buf buf) + 48 \<le> off (pools s mp) p"
    and c: "mii_commit c s1 buf p = (ok, s2)"
  shows "if commit_wraps (pools s mp) p \<and> rdptr (pools s mp) = pool_start (pools s mp)
    then ok = 0 \<and> pool_inv s2 mp q
    else ok = 1 \<and> pool_inv s2 mp (commit_spec (hdr_of_buf buf) q) \<and>
         wrptr (pools s2 mp) = commit_end (pools s mp) p"
proof -
  note wf = pool_inv_wf [OF inv]
  note sp = mii_reserve_space [OF wf r nz] and ri = mii_reserve_inv [OF inv r]
  have "hdr_info s1 (wrptr (pools s mp)) = mp"
    using sp pool_wf_shape [OF wf] by (simp add: hdr_info_def pool_layout_defs uint_of_ptr)
  then show ?thesis
    using mii_commit_refines [OF ri(1), of "wrptr (pools s mp)" p c ok s2] e room c ri
    by (auto simp: sp(1) split: if_splits)
qed

theorem mii_reserve_commit_witness:
  "let (buf, e, s1) = mii_reserve default_config example_pool 1024;
       (ok, s2) = mii_commit default_config s1 buf 1600
   in ok = 1 \<and> pool_inv s2 1024 (commit_spec 1428 example_queue)"
proof -
  obtain buf e s1 where r: "mii_reserve default_config example_pool 1024 = (buf, e, s1)"
    by (metis prod_cases3)
  have buf: "buf = 1436"
  proof -
    have "fst (mii_reserve default_config example_pool 1024) = 1436" by code_simp
    then show ?thesis by (simp add: r)
  qed
  obtain ok s2 where c: "mii_commit default_config s1 buf 1600 = (ok, s2)"
    by (metis prod.exhaust)
  have p: "pool_start (pools example_pool 1024) = 1044" "pool_end (pools example_pool 1024) = 1820"
    "off (pools example_pool 1024) 1428 = 384" "off (pools example_pool 1024) 1600 = 556"
    by code_simp+
  show ?thesis
    using mii_reserve_commit [OF example_pool_inv r _ _ _ _ _ c] r c p
    by (simp add: buf commit_wraps_def hdr_of_buf_def sizeof_malloc_hdr_def)
qed


fun my_walk :: "nat \<Rightarrow> ram \<Rightarrow> addr \<Rightarrow> addr \<Rightarrow> addr list" where
  "my_walk 0 s mp p = []"
| "my_walk (Suc n) s mp p =
     (let buf = mii_get_my_next_buf s mp p
      in if buf = 0 then [] else buf # my_walk n s mp (mii_update_my_rdptr s mp p))"

lemma my_walk_from:
  assumes inv: "pool_inv s mp q" and all: "\<forall>x \<in> set q. \<not> snd x"
  shows "k \<le> length q \<Longrightarrow> length q - k < n \<Longrightarrow>
    my_walk n s mp ((map fst q @ [wrptr (pools s mp)]) ! k) = map (buf_of_hdr \<circ> fst) (drop k q)"
proof (induction n arbitrary: k)
  case 0
  then show ?case by simp
next
  case (Suc n)
  show ?case
  proof (cases "k = length q")
    case True
    then show ?thesis by (simp add: nth_append mii_my_rdptr_at_end)
  next
    case False
    then have k: "k < length q" using Suc.prems by simp
    have f: "\<not> snd (q ! k)" using all k by simp
    have "0 < fst (q ! k)"
      using mempool.inv_nonneg [OF inv] k by simp
    then have "buf_of_hdr (fst (q ! k)) \<noteq> 0"
      by (simp add: buf_of_hdr_def sizeof_malloc_hdr_def)
    moreover have "my_walk n s mp ((map fst q @ [wrptr (pools s mp)]) ! Suc k)
        = map (buf_of_hdr \<circ> fst) (drop (Suc k) q)"
      using Suc.prems k by (intro Suc.IH) simp_all
    ultimately show ?thesis
      using mii_my_rdptr_walk [OF inv k f] k
      by (simp add: nth_append Let_def Cons_nth_drop_Suc [symmetric])
  qed
qed

text \<open>C20: A thread that keeps its own read pointer visits the published packets one after the other
in queue order, and is told that there is no further packet when it reaches the write pointer,
as long as the packets it walks over have not been freed under it.\<close>

theorem my_rdptr_visits_queue:
  assumes "pool_inv s mp q" and "\<forall>x \<in> set q. \<not> snd x" and "length q < n"
  shows "my_walk n s mp (mii_init_my_rdptr s mp) = map (buf_of_hdr \<circ> fst) q"
proof -
  have "mii_init_my_rdptr s mp = (map fst q @ [wrptr (pools s mp)]) ! 0"
    using chain_start [OF pool_wf_chain [OF pool_inv_wf [OF assms(1)]]]
    by (cases q) (simp_all add: mii_init_my_rdptr_def)
  then show ?thesis
    using my_walk_from [OF assms(1,2), of 0 n] assms(3) by simp
qed

theorem my_rdptr_visits_queue_witness:
  "my_walk 4 example_pool 1024 (mii_init_my_rdptr example_pool 1024) = [1052, 1180, 1308]"
proof -
  have "\<forall>x \<in> set example_queue. \<not> snd x" "length example_queue < 4"
    by (simp_all add: example_queue_def)
  from my_rdptr_visits_queue [OF example_pool_inv this] show ?thesis
    by (simp add: example_queue_def buf_of_hdr_def sizeof_malloc_hdr_def)
qed

end
