(* ===== verification/Packet_Data.thy ===== *)
theory Packet_Data
  imports Mempool
begin

text \<open>
  The loops that move packet data through the circular buffer. Writers and readers walk a data
  pointer and, when it reaches the wrap pointer, load the start of the buffer from there; the
  filter instead computes the address of a word (\<open>mii_packet_get_data\<close>). The lemmas show
  that all of them visit the same addresses, so a word is read back where it was written, and
  that the words of a packet lie in the space the allocator gave it.
\<close>

subsection \<open>The loops\<close>

text \<open>\<open>if (dptr == wrap_ptr) asm("ldw %0,%0[0]")\<close>.\<close>

definition wrap_dptr :: "ram \<Rightarrow> addr \<Rightarrow> addr \<Rightarrow> addr" where
  "wrap_dptr s wrap_ptr dptr = (if dptr = wrap_ptr then uint (ldw s dptr) else dptr)"

text \<open>Writing (\<open>get_packet_from_client\<close>): store, advance, wrap.\<close>

fun store_words :: "ram \<Rightarrow> addr \<Rightarrow> addr \<Rightarrow> word32 list \<Rightarrow> ram \<times> addr" where
  "store_words s wrap_ptr dptr [] = (s, dptr)"
| "store_words s wrap_ptr dptr (w # ws) =
     (let s = stw s dptr w
      in store_words s wrap_ptr (wrap_dptr s wrap_ptr (dptr + 4)) ws)"

text \<open>Reading for a client (\<open>mac_rx_send_frame1\<close>): wrap, load, advance.\<close>

fun load_words :: "ram \<Rightarrow> addr \<Rightarrow> addr \<Rightarrow> nat \<Rightarrow> word32 list" where
  "load_words s wrap_ptr dptr 0 = []"
| "load_words s wrap_ptr dptr (Suc n) =
     (let dptr = wrap_dptr s wrap_ptr dptr
      in ldw s dptr # load_words s wrap_ptr (dptr + 4) n)"

text \<open>Reading for the wire (\<open>mii_transmit_packet\<close>): load, advance, wrap; the pointer is kept.\<close>

fun transmit_words :: "ram \<Rightarrow> addr \<Rightarrow> addr \<Rightarrow> nat \<Rightarrow> word32 list \<times> addr" where
  "transmit_words s wrap_ptr dptr 0 = ([], dptr)"
| "transmit_words s wrap_ptr dptr (Suc n) =
     (let (ws, d) = transmit_words s wrap_ptr (wrap_dptr s wrap_ptr (dptr + 4)) n
      in (ldw s dptr # ws, d))"

subsection \<open>Addresses of the data words\<close>

definition data_addr :: "mempool_info_t \<Rightarrow> addr \<Rightarrow> nat \<Rightarrow> addr" where
  "data_addr i buf n =
     (let p = buf + 4 * (int n + BUF_DATA_OFFSET)
      in if p \<ge> pool_end i then p - pool_len i else p)"

text \<open>A packet at header \<open>h\<close> with room for \<open>n\<close> data words, in a pool whose wrap word is set.\<close>

definition packet_room :: "ram \<Rightarrow> addr \<Rightarrow> addr \<Rightarrow> nat \<Rightarrow> bool" where
  "packet_room s mp h n \<longleftrightarrow>
     (let i = pools s mp
      in pool_shape i mp \<and> slot_ok i h \<and> 48 + 4 * int n \<le> pool_len i \<and>
         ldw s (pool_end i) = word_of_int (pool_start i))"

lemmas packet_layout_defs =
  packet_room_def data_addr_def pool_layout_defs buf_of_hdr_def BUF_DATA_OFFSET_def

lemma packet_room_mono: "packet_room s mp h n \<Longrightarrow> m \<le> n \<Longrightarrow> packet_room s mp h m"
  by (auto simp: packet_room_def Let_def)

lemma data_addr_0:
  "packet_room s mp h n \<Longrightarrow> data_addr (pools s mp) (buf_of_hdr h) 0 = mii_packet_get_data_ptr (buf_of_hdr h)"
  by (auto simp: packet_layout_defs Let_def mii_packet_get_data_ptr_def)

text \<open>The first ten data words of a packet do not wrap.\<close>

lemma data_addr_first:
  "slot_ok (pools s mp) h \<Longrightarrow> k < 10 \<Longrightarrow>
     data_addr (pools s mp) (buf_of_hdr h) k = mii_packet_get_data_ptr (buf_of_hdr h) + 4 * int k"
  by (auto simp: data_addr_def Let_def slot_ok_def buf_of_hdr_def sizeof_malloc_hdr_def
      BUF_DATA_OFFSET_def mii_packet_get_data_ptr_def)

lemma data_addr_range:
  assumes "packet_room s mp h n" "k \<le> n"
  shows "pool_start (pools s mp) \<le> data_addr (pools s mp) (buf_of_hdr h) k"
    "data_addr (pools s mp) (buf_of_hdr h) k < pool_end (pools s mp)"
    "4 dvd data_addr (pools s mp) (buf_of_hdr h) k"
proof -
  show "pool_start (pools s mp) \<le> data_addr (pools s mp) (buf_of_hdr h) k"
    "data_addr (pools s mp) (buf_of_hdr h) k < pool_end (pools s mp)"
    using assms by (auto simp: packet_layout_defs Let_def)
  have "4 dvd pool_start (pools s mp)" "4 dvd pool_end (pools s mp)" "4 dvd h"
    using assms(1) by (auto simp: packet_layout_defs Let_def)
  then have "4 dvd h + 8 + 4 * (int k + 10)"
    "4 dvd h + 8 + 4 * (int k + 10) - (pool_end (pools s mp) - pool_start (pools s mp))"
    by presburger+
  then show "4 dvd data_addr (pools s mp) (buf_of_hdr h) k"
    by (simp add: data_addr_def Let_def buf_of_hdr_def sizeof_malloc_hdr_def BUF_DATA_OFFSET_def
        pool_len_def)
qed

lemma data_addr_Suc:
  assumes room: "packet_room s mp h n" and k: "Suc k \<le> n"
    and wrap: "ldw s' (pool_end (pools s mp)) = word_of_int (pool_start (pools s mp))"
  shows "wrap_dptr s' (pool_end (pools s mp)) (data_addr (pools s mp) (buf_of_hdr h) k + 4)
    = data_addr (pools s mp) (buf_of_hdr h) (Suc k)"
proof (cases "data_addr (pools s mp) (buf_of_hdr h) k + 4 = pool_end (pools s mp)")
  case True
  have "0 \<le> pool_start (pools s mp)" "pool_start (pools s mp) < 2 ^ 31"
    using room by (auto simp: packet_room_def Let_def pool_layout_defs)
  then have "wrap_dptr s' (pool_end (pools s mp)) (data_addr (pools s mp) (buf_of_hdr h) k + 4)
      = pool_start (pools s mp)"
    by (simp only: wrap_dptr_def True wrap if_True uint_of_ptr refl)
  also have "\<dots> = data_addr (pools s mp) (buf_of_hdr h) (Suc k)"
    using True room k by (auto simp: packet_layout_defs Let_def split: if_splits)
  finally show ?thesis .
next
  case False
  then have "wrap_dptr s' (pool_end (pools s mp)) (data_addr (pools s mp) (buf_of_hdr h) k + 4)
      = data_addr (pools s mp) (buf_of_hdr h) k + 4"
    by (simp add: wrap_dptr_def)
  also have "\<dots> = data_addr (pools s mp) (buf_of_hdr h) (Suc k)"
  proof -
    have "4 dvd pool_end (pools s mp)" "4 dvd h"
      using room by (auto simp: packet_layout_defs Let_def)
    then have "pool_end (pools s mp) \<le> h + 4 * int k + 52 \<longleftrightarrow> pool_end (pools s mp) \<le> h + 4 * int k + 48
        \<or> pool_end (pools s mp) = h + 4 * int k + 52"
      by presburger
    then show ?thesis
      using False by (auto simp: data_addr_def Let_def buf_of_hdr_def sizeof_malloc_hdr_def
          BUF_DATA_OFFSET_def split: if_splits)
  qed
  finally show ?thesis .
qed

lemma data_addr_wrap_id:
  "packet_room s mp h n \<Longrightarrow> k \<le> n \<Longrightarrow>
     wrap_dptr s' (pool_end (pools s mp)) (data_addr (pools s mp) (buf_of_hdr h) k)
       = data_addr (pools s mp) (buf_of_hdr h) k"
  using data_addr_range(2) [of s mp h n k] by (simp add: wrap_dptr_def)

lemma data_addr_inj:
  assumes "packet_room s mp h n" "j < n" "k < n"
    "data_addr (pools s mp) (buf_of_hdr h) j = data_addr (pools s mp) (buf_of_hdr h) k"
  shows "j = k"
  using assms by (auto simp: packet_layout_defs Let_def split: if_splits)

text \<open>No data word is a word of the packet's own headers.\<close>

lemma data_addr_header:
  assumes "packet_room s mp h n" "k < n"
  shows "data_addr (pools s mp) (buf_of_hdr h) k < h \<or>
    h + 48 \<le> data_addr (pools s mp) (buf_of_hdr h) k"
  using assms by (auto simp: packet_layout_defs Let_def split: if_splits)

lemma mii_packet_get_data_addr:
  assumes "hdr_info s h = mp"
  shows "mii_packet_get_data s (buf_of_hdr h) (int n) = ldw s (data_addr (pools s mp) (buf_of_hdr h) n)"
  using assms by (simp add: mii_packet_get_data_def data_addr_def Let_def pool_len_def)

subsection \<open>The loops visit these addresses\<close>

lemma store_words_spec:
  assumes "packet_room s mp h n" "k + length ws \<le> n"
    "store_words s (pool_end (pools s mp)) (data_addr (pools s mp) (buf_of_hdr h) k) ws = (s', d)"
  shows "d = data_addr (pools s mp) (buf_of_hdr h) (k + length ws) \<and> pools s' = pools s \<and>
    (\<forall>j < length ws. ldw s' (data_addr (pools s mp) (buf_of_hdr h) (k + j)) = ws ! j) \<and>
    (\<forall>a. (\<forall>j < length ws. a \<noteq> data_addr (pools s mp) (buf_of_hdr h) (k + j)) \<longrightarrow> ldw s' a = ldw s a)"
  using assms
proof (induction ws arbitrary: s k)
  case Nil
  then show ?case by auto
next
  case (Cons w ws)
  let ?i = "pools s mp" and ?b = "buf_of_hdr h"
  let ?a = "data_addr ?i ?b k"
  let ?s1 = "stw s ?a w"
  have k: "Suc k \<le> n" "k \<le> n"
    using Cons.prems(2) by simp_all
  have wrap: "ldw ?s1 (pool_end ?i) = word_of_int (pool_start ?i)"
    using Cons.prems(1) data_addr_range(2) [OF Cons.prems(1) k(2)]
    by (simp add: packet_room_def Let_def)
  then have room: "packet_room ?s1 mp h n"
    using Cons.prems(1) by (simp add: packet_room_def Let_def)
  have "store_words ?s1 (pool_end (pools ?s1 mp)) (data_addr (pools ?s1 mp) ?b (Suc k)) ws = (s', d)"
    using Cons.prems(3) data_addr_Suc [OF Cons.prems(1) k(1) wrap] by (simp add: Let_def)
  note IH = Cons.IH [OF room _ this, simplified]
  have diff: "?a \<noteq> data_addr ?i ?b (Suc (k + j))" if "j < length ws" for j
    using data_addr_inj [OF Cons.prems(1), of k "Suc (k + j)"] that Cons.prems(2) by auto
  have "ldw s' (data_addr ?i ?b (k + j)) = (w # ws) ! j" if "j < length (w # ws)" for j
  proof (cases j)
    case 0
    then show ?thesis
      using IH Cons.prems(2) diff by simp
  next
    case (Suc m)
    then show ?thesis
      using IH Cons.prems(2) that by simp
  qed
  moreover have "ldw s' a = ldw s a" if "\<forall>j < length (w # ws). a \<noteq> data_addr ?i ?b (k + j)" for a
  proof -
    have "a \<noteq> ?a"
      using that [rule_format, of 0] by simp
    moreover have "a \<noteq> data_addr ?i ?b (Suc (k + j))" if "j < length ws" for j
      using \<open>\<forall>j < length (w # ws). a \<noteq> data_addr ?i ?b (k + j)\<close> [rule_format, of "Suc j"] that by simp
    ultimately show ?thesis
      using IH Cons.prems(2) by simp
  qed
  ultimately show ?case
    using IH Cons.prems(2) by simp
qed

lemma load_words_spec:
  assumes "packet_room s mp h n" "k + m \<le> n"
  shows "load_words s (pool_end (pools s mp)) (data_addr (pools s mp) (buf_of_hdr h) k) m
    = map (\<lambda>j. ldw s (data_addr (pools s mp) (buf_of_hdr h) j)) [k..<k + m]"
  using assms(2)
proof (induction m arbitrary: k)
  case 0
  then show ?case by simp
next
  case (Suc m)
  have wrap: "ldw s (pool_end (pools s mp)) = word_of_int (pool_start (pools s mp))"
    using assms(1) by (simp add: packet_room_def Let_def)
  have "load_words s (pool_end (pools s mp)) (data_addr (pools s mp) (buf_of_hdr h) k + 4) m
      = load_words s (pool_end (pools s mp)) (data_addr (pools s mp) (buf_of_hdr h) (Suc k)) m"
    using data_addr_Suc [OF assms(1) _ wrap, of k] data_addr_wrap_id [OF assms(1), of "Suc k"]
      Suc.prems by (cases m) (simp_all add: Let_def)
  then show ?case
    using Suc data_addr_wrap_id [OF assms(1), of k s]
    by (simp add: Let_def upt_conv_Cons del: upt_Suc)
qed

lemma transmit_words_spec:
  assumes "packet_room s mp h n" "k + m \<le> n"
  shows "transmit_words s (pool_end (pools s mp)) (data_addr (pools s mp) (buf_of_hdr h) k) m
    = (map (\<lambda>j. ldw s (data_addr (pools s mp) (buf_of_hdr h) j)) [k..<k + m],
       data_addr (pools s mp) (buf_of_hdr h) (k + m))"
  using assms(2)
proof (induction m arbitrary: k)
  case 0
  then show ?case by simp
next
  case (Suc m)
  have wrap: "ldw s (pool_end (pools s mp)) = word_of_int (pool_start (pools s mp))"
    using assms(1) by (simp add: packet_room_def Let_def)
  show ?case
    using Suc.IH [of "Suc k"] Suc.prems data_addr_Suc [OF assms(1) _ wrap, of k]
    by (simp add: upt_conv_Cons del: upt_Suc)
qed

text \<open>The words of a packet, in order, whichever way they are read.\<close>

definition packet_words :: "ram \<Rightarrow> addr \<Rightarrow> nat \<Rightarrow> word32 list" where
  "packet_words s buf n = map (\<lambda>j. mii_packet_get_data s buf (int j)) [0..<n]"

lemma packet_words_addr:
  "hdr_info s h = mp \<Longrightarrow>
     packet_words s (buf_of_hdr h) n = map (\<lambda>j. ldw s (data_addr (pools s mp) (buf_of_hdr h) j)) [0..<n]"
  by (simp add: packet_words_def mii_packet_get_data_addr)

lemma load_words_packet:
  assumes "packet_room s mp h n" "hdr_info s h = mp"
  shows "load_words s (mii_packet_get_wrap_ptr s (buf_of_hdr h))
    (mii_packet_get_data_ptr (buf_of_hdr h)) n = packet_words s (buf_of_hdr h) n"
  using load_words_spec [OF assms(1), of 0 n] assms(2)
  by (simp add: packet_words_addr data_addr_0 [OF assms(1)] mii_packet_get_wrap_ptr_def)

lemma transmit_words_packet:
  assumes "packet_room s mp h n" "hdr_info s h = mp" "m \<le> n"
  shows "transmit_words s (mii_packet_get_wrap_ptr s (buf_of_hdr h))
      (mii_packet_get_data_ptr (buf_of_hdr h)) m
    = (packet_words s (buf_of_hdr h) m, data_addr (pools s mp) (buf_of_hdr h) m)"
  using transmit_words_spec [OF assms(1), of 0 m] assms(2,3)
  by (simp add: packet_words_addr data_addr_0 [OF assms(1)] mii_packet_get_wrap_ptr_def)

text \<open>What a writer stored is what the readers find.\<close>

lemma store_words_packet:
  assumes room: "packet_room s mp h n" and info: "hdr_info s h = mp" and len: "length ws \<le> n"
    and st: "store_words s (mii_get_wrap_ptr s mp) (mii_packet_get_data_ptr (buf_of_hdr h)) ws = (s', d)"
  shows "packet_words s' (buf_of_hdr h) (length ws) = ws"
    "d = data_addr (pools s mp) (buf_of_hdr h) (length ws)"
    "pools s' = pools s" "hdr_info s' h = mp" "packet_room s' mp h n"
proof -
  let ?i = "pools s mp" and ?b = "buf_of_hdr h"
  have spec: "d = data_addr ?i ?b (length ws)" "pools s' = pools s"
    "\<forall>j < length ws. ldw s' (data_addr ?i ?b j) = ws ! j"
    "\<And>a. (\<forall>j < length ws. a \<noteq> data_addr ?i ?b j) \<Longrightarrow> ldw s' a = ldw s a"
    using store_words_spec [OF room, of 0 ws s' d] len st
    by (simp_all add: data_addr_0 [OF room] mii_get_wrap_ptr_def)
  have hdr: "ldw s' (h + 4) = ldw s (h + 4)"
  proof (intro spec(4) allI impI)
    fix j assume "j < length ws"
    then show "h + 4 \<noteq> data_addr ?i ?b j"
      using data_addr_header [OF room, of j] len by auto
  qed
  have wrap: "ldw s' (pool_end ?i) = ldw s (pool_end ?i)"
  proof (intro spec(4) allI impI)
    fix j assume "j < length ws"
    then show "pool_end ?i \<noteq> data_addr ?i ?b j"
      using data_addr_range(2) [OF room, of j] len by auto
  qed
  show "d = data_addr ?i ?b (length ws)" "pools s' = pools s"
    using spec by simp_all
  show info': "hdr_info s' h = mp"
    using hdr info by (simp add: hdr_info_def)
  show "packet_words s' ?b (length ws) = ws"
    using spec by (intro nth_equalityI) (simp_all add: packet_words_addr [OF info'])
  show "packet_room s' mp h n"
    using room wrap by (simp add: packet_room_def Let_def spec)
qed

text \<open>Writing a field of a published packet keeps the pool as it is.\<close>

lemma field_pool_inv:
  assumes inv: "pool_inv s mp q" and h: "h \<in> fst ` set q"
  shows "pool_inv (mii_packet_set f s (buf_of_hdr h) x) mp q"
proof -
  note wf = pool_inv_wf [OF inv]
  have "pool_wf (mii_packet_set f s (buf_of_hdr h) x) mp q"
  proof (rule pool_wf_frame [OF wf])
    show "pools (mii_packet_set f s (buf_of_hdr h) x) mp = pools s mp" by simp
  next
    fix g assume g: "g \<in> fst ` set q"
    then show "ldw (mii_packet_set f s (buf_of_hdr h) x) g = ldw s g \<and>
      ldw (mii_packet_set f s (buf_of_hdr h) x) (g + 4) = ldw s (g + 4)"
      using pool_wf_apart [OF wf g h] BUF_OFFSET_range [of f]
      by (cases "g = h") (auto simp: mii_packet_set_def buf_of_hdr_def sizeof_malloc_hdr_def
          BUF_DATA_OFFSET_def)
  next
    show "ldw (mii_packet_set f s (buf_of_hdr h) x) (pool_end (pools s mp)) = ldw s (pool_end (pools s mp))"
      using pool_wf_slot [OF wf h] BUF_OFFSET_range [of f]
      by (auto simp: mii_packet_set_def buf_of_hdr_def sizeof_malloc_hdr_def BUF_DATA_OFFSET_def
          slot_ok_def)
  qed
  then show ?thesis
    using inv by (simp add: pool_inv_def)
qed

subsection \<open>Properties\<close>

definition example_reserved :: ram where
  "example_reserved = (let (buf, e, s) = mii_reserve default_config example_pool 1024 in s)"

text \<open>C18: What a producer stores in a packet is what every reader gets. Words stored from the data
pointer on, wrapping at the end of the pool, are read back in the same order by the loop that
wraps before a load (the receive server), by the loop that wraps after a load (the transmit
thread) and by \<open>mii_packet_get_data\<close>; nothing outside the stored words changes.\<close>

theorem packet_data_round_trip:
  assumes room: "packet_room s mp h n" and info: "hdr_info s h = mp" and len: "length ws \<le> n"
    and st: "store_words s (mii_get_wrap_ptr s mp) (mii_packet_get_data_ptr (buf_of_hdr h)) ws = (s', d)"
  shows "load_words s' (mii_packet_get_wrap_ptr s' (buf_of_hdr h))
      (mii_packet_get_data_ptr (buf_of_hdr h)) (length ws) = ws \<and>
    fst (transmit_words s' (mii_packet_get_wrap_ptr s' (buf_of_hdr h))
      (mii_packet_get_data_ptr (buf_of_hdr h)) (length ws)) = ws \<and>
    map (\<lambda>j. mii_packet_get_data s' (buf_of_hdr h) (int j)) [0..<length ws] = ws \<and>
    (\<forall>a. (\<forall>j < length ws. a \<noteq> data_addr (pools s mp) (buf_of_hdr h) j) \<longrightarrow> ldw s' a = ldw s a)"
proof -
  note st' = store_words_packet [OF room info len st]
  have room': "packet_room s' mp h (length ws)"
    using packet_room_mono [OF st'(5) len] .
  have "store_words s (pool_end (pools s mp)) (data_addr (pools s mp) (buf_of_hdr h) 0) ws = (s', d)"
    using st by (simp add: data_addr_0 [OF room] mii_get_wrap_ptr_def)
  from store_words_spec [OF room _ this]
  have "\<forall>a. (\<forall>j < length ws. a \<noteq> data_addr (pools s mp) (buf_of_hdr h) j) \<longrightarrow> ldw s' a = ldw s a"
    using len by simp
  then show ?thesis
    using st'(1) load_words_packet [OF room' st'(4)] transmit_words_packet [OF room' st'(4)]
    by (simp add: packet_words_def)
qed

text \<open>The packet of the example wraps after its 86th word.\<close>

theorem packet_data_round_trip_witness:
  "let ws = map word_of_nat [0..<100];
       s = fst (store_words example_reserved (mii_get_wrap_ptr example_reserved 1024)
             (mii_packet_get_data_ptr 1436) ws)
   in load_words s (mii_packet_get_wrap_ptr s 1436) (mii_packet_get_data_ptr 1436) 100 = ws"
proof -
  have room: "packet_room example_reserved 1024 1428 100" "hdr_info example_reserved 1428 = 1024"
    by code_simp+
  have buf: "buf_of_hdr 1428 = 1436" by (simp add: buf_of_hdr_def sizeof_malloc_hdr_def)
  have len: "length (map word_of_nat [0..<100] :: word32 list) = 100" by simp
  obtain s d where st: "store_words example_reserved (mii_get_wrap_ptr example_reserved 1024)
      (mii_packet_get_data_ptr 1436) (map word_of_nat [0..<100]) = (s, d)"
    by (metis prod.exhaust)
  show ?thesis
    using packet_data_round_trip [OF room eq_imp_le [OF len], unfolded buf, OF st]
    by (simp only: Let_def st fst_conv len)
qed

end
