(* ===== verification/Crc.thy ===== *)
theory Crc
  imports Prelude
begin

text \<open>
  The CRC instructions of the XS1 that \<open>mii_master.xc\<close>, \<open>mii_filter.xc\<close>,
  \<open>mii_lld.S\<close> and \<open>mii_client_user.xc\<close> use as the builtins \<open>crc32\<close> and
  \<open>crc8shr\<close>: the state is shifted right one bit at a time, the next data bit enters at
  the top and the polynomial is added when a one falls out at the bottom.
\<close>

definition poly :: word32 where
  "poly = 0xEDB88320"

definition crc_bit :: "word32 \<Rightarrow> bool \<Rightarrow> word32" where
  "crc_bit r b =
     (let r' = (if b then set_bit 31 (drop_bit 1 r) else drop_bit 1 r)
      in if bit r 0 then r' XOR poly else r')"

definition crc_bits :: "bool list \<Rightarrow> word32 \<Rightarrow> word32" where
  "crc_bits bs r = fold (\<lambda>b c. crc_bit c b) bs r"

definition word_bits :: "nat \<Rightarrow> word32 \<Rightarrow> bool list" where
  "word_bits n w = map (bit w) [0..<n]"

definition crc32 :: "word32 \<Rightarrow> word32 \<Rightarrow> word32" where
  "crc32 r w = crc_bits (word_bits 32 w) r"

text \<open>The builtin \<open>crc8shr\<close> also returns the data shifted down by the byte it consumed.\<close>

definition crc8shr :: "word32 \<Rightarrow> word32 \<Rightarrow> word32 \<times> word32" where
  "crc8shr r w = (crc_bits (word_bits 8 w) r, drop_bit 8 w)"


definition crc_init :: word32 where
  "crc_init = 0x9226F562"

subsection \<open>Bits consumed in several pieces\<close>

lemma crc_bits_Nil [simp]: "crc_bits [] r = r"
  by (simp add: crc_bits_def)

lemma crc_bits_Cons [simp]: "crc_bits (b # bs) r = crc_bits bs (crc_bit r b)"
  by (simp add: crc_bits_def)

lemma crc_bits_append [simp]: "crc_bits (bs @ cs) r = crc_bits cs (crc_bits bs r)"
  by (simp add: crc_bits_def)

lemma length_word_bits [simp]: "length (word_bits n w) = n"
  by (simp add: word_bits_def)

lemma word_bits_Suc: "word_bits (Suc n) w = word_bits n w @ [bit w n]"
  by (simp add: word_bits_def)

lemma word_bits_split: "word_bits (m + n) w = word_bits m w @ word_bits n (drop_bit m w)"
proof (induction n)
  case 0
  then show ?case by (simp add: word_bits_def)
next
  case (Suc n)
  then show ?case by (simp add: word_bits_Suc bit_drop_bit_eq add.commute)
qed

subsection \<open>The register is linear over the two-element field\<close>

lemma bit_crc_bit:
  "n < 32 \<Longrightarrow> bit (crc_bit r b) n =
     ((if n = 31 then b else bit r (Suc n)) \<noteq> (bit r 0 \<and> bit poly n))"
  by (auto simp: crc_bit_def Let_def bit_simps dest: bit_imp_le_length)

lemma crc_bit_xor: "crc_bit (r XOR s) (b = (\<not> c)) = crc_bit r b XOR crc_bit s c"
proof (rule bit_word_eqI)
  fix n :: nat
  assume "n < LENGTH(32)"
  then have "n < 32" by simp
  then show "bit (crc_bit (r XOR s) (b = (\<not> c))) n = bit (crc_bit r b XOR crc_bit s c) n"
    by (cases "n = 31") (auto simp: bit_crc_bit bit_simps)
qed

lemma crc_bits_xor:
  "length bs = length cs \<Longrightarrow>
     crc_bits (map2 (\<lambda>b c. b = (\<not> c)) bs cs) (r XOR s) = crc_bits bs r XOR crc_bits cs s"
proof (induction bs cs arbitrary: r s rule: list_induct2)
  case Nil
  then show ?case by simp
next
  case (Cons b bs c cs)
  then show ?case by (simp add: crc_bit_xor)
qed

lemma crc_bits_zero_state:
  "n \<le> 32 \<Longrightarrow> crc_bits (word_bits n w) 0 = push_bit (32 - n) (take_bit n w)"
proof (induction n)
  case 0
  then show ?case by (simp add: word_bits_def)
next
  case (Suc n)
  have "crc_bits (word_bits (Suc n) w) 0
      = crc_bit (push_bit (32 - n) (take_bit n w)) (bit w n)"
    using Suc by (simp add: word_bits_Suc)
  also have "\<dots> = push_bit (32 - Suc n) (take_bit (Suc n) w)"
  proof (rule bit_word_eqI)
    fix k :: nat
    assume "k < LENGTH(32)"
    then have k: "k < 32" by simp
    have "\<not> bit (push_bit (32 - n) (take_bit n w)) 0"
      using Suc.prems by (auto simp: bit_simps)
    with k Suc.prems show "bit (crc_bit (push_bit (32 - n) (take_bit n w)) (bit w n)) k
        = bit (push_bit (32 - Suc n) (take_bit (Suc n) w)) k"
      by (cases "k = 31") (auto simp: bit_crc_bit bit_simps Suc_diff_le)
  qed
  finally show ?case .
qed

lemma crc32_zero_state: "crc32 0 w = w"
  using take_bit_length_eq [of w] by (simp add: crc32_def crc_bits_zero_state)

lemma word_bits_xor: "map2 (\<lambda>b c. b = (\<not> c)) (word_bits n v) (word_bits n w) = word_bits n (v XOR w)"
  by (rule nth_equalityI) (simp_all add: word_bits_def bit_xor_iff)

text \<open>
  A word that is shifted in over a whole period is added to the state the register would reach
  without it. Everything the two ends of the wire agree on follows from this equation.
\<close>

lemma crc32_split: "crc32 r w = crc32 r 0 XOR w"
proof -
  have "crc32 r w = crc_bits (map2 (\<lambda>b c. b = (\<not> c)) (word_bits 32 0) (word_bits 32 w)) (r XOR 0)"
    by (simp add: crc32_def word_bits_xor)
  also have "\<dots> = crc32 r 0 XOR crc32 0 w"
    by (subst crc_bits_xor) (simp_all add: crc32_def)
  finally show ?thesis by (simp add: crc32_zero_state)
qed

lemma crc_init_zero: "crc32 crc_init 0 = NOT 0"
  by code_simp

lemma crc32_crc_init: "crc32 crc_init w = crc32 0 (NOT w)"
  by (subst crc32_split) (simp add: crc_init_zero crc32_zero_state)

lemma crc32_final: "crc32 s (crc32 s (NOT 0)) = NOT 0"
proof -
  have "crc32 s (crc32 s (NOT 0)) = crc32 s 0 XOR (crc32 s 0 XOR NOT 0)"
    by (metis crc32_split)
  then show ?thesis by (simp add: xor.assoc [symmetric])
qed

text \<open>
  The transmitter starts from zero and inverts the first word, the receiver starts from
  \<open>crc_init\<close>; the checksum the transmitter sends leaves the receiver's register at all ones,
  whatever the bits in between are.
\<close>

lemma crc_residue:
  "crc_bits (word_bits 32 w @ ds @
      word_bits 32 (crc32 (crc_bits ds (crc32 0 (NOT w))) (NOT 0))) crc_init = NOT 0"
  using crc32_crc_init [of w] crc32_final [of "crc_bits ds (crc32 0 (NOT w))"]
  by (simp add: crc32_def)

subsection \<open>Words and single bytes\<close>

lemma crc8shr_fst: "fst (crc8shr r w) = crc_bits (word_bits 8 w) r"
  by (simp add: crc8shr_def)

lemma crc8shr_snd [simp]: "snd (crc8shr r w) = drop_bit 8 w"
  by (simp add: crc8shr_def)

end
