(* ===== verification/Mii_Rx_Pins.thy ===== *)
theory Mii_Rx_Pins
  imports Packet_Data Crc
begin

text \<open>
  The receive half of \<open>mii_master.xc\<close>: \<open>mii_rx_pins\<close> reserves a buffer in each pool, stores
  the words of a frame as they arrive from the port (choosing the high priority pool by the VLAN
  tag in the fourth word), stops storing when it would run into the oldest packet, and at the
  end of the frame commits the packet and hands it to the filter. The loop body is modelled by
  the pieces between two points where the thread waits: reservation, frame start, one word, end
  of frame. The frame start takes the first six words at once; on a frame that is shorter the thread
  waits at the port for the next one's words, which is not modelled.
\<close>

subsection \<open>The thread\<close>

record rx_local =
  rx_buf :: addr
  rx_dptr :: addr
  rx_wrap_ptr :: addr
  rx_rdptr :: addr
  rx_ii :: int
  rx_crc :: word32
  rx_sixth :: word32
  rx_time :: word32

text \<open>The counter \<open>ethernet_mii_no_queue_entries\<close>.\<close>

definition count_no_queue :: "mac_config \<Rightarrow> word32 \<Rightarrow> word32" where
  "count_no_queue c n = (if count_packets c then n + 1 else n)"

definition rx_reserve :: "mac_config \<Rightarrow> ram \<Rightarrow> addr \<Rightarrow> addr \<Rightarrow> addr \<times> addr \<times> ram" where
  "rx_reserve c s rxmem_hp rxmem_lp =
     (let (buf_hp, s) = (if rx_hp_queue c
                         then (let (b, e, s) = mii_reserve c s rxmem_hp in (b, s)) else (0, s));
          (buf_lp, e, s) = mii_reserve c s rxmem_lp
      in (buf_hp, buf_lp, s))"

text \<open>
  The start of a frame: the first six words, \<open>w0\<close> to \<open>w5\<close>. \<open>None\<close> when the frame is
  dropped for want of a buffer. The sixth word is kept until the end of the frame.
\<close>

definition rx_start ::
  "mac_config \<Rightarrow> ram \<Rightarrow> addr \<Rightarrow> addr \<Rightarrow> addr \<Rightarrow> addr \<Rightarrow> word32 \<Rightarrow> word32 \<Rightarrow>
   word32 \<times> word32 \<times> word32 \<times> word32 \<times> word32 \<times> word32 \<Rightarrow> rx_local option \<times> ram \<times> word32" where
  "rx_start c s rxmem_hp rxmem_lp buf_hp buf_lp cnt time = (\<lambda>(w0, w1, w2, w3, w4, w5).
     (if buf_lp = 0 \<and> \<not> (rx_hp_queue c \<and> buf_hp \<noteq> 0) then (None, s, count_no_queue c cnt)
      else
       (let dptr_hp = mii_packet_get_data_ptr buf_hp;
            dptr_lp = (if buf_lp \<noteq> 0 then mii_packet_get_data_ptr buf_lp else dptr_hp);
            dptr_hp = (if buf_hp = 0 then dptr_lp else dptr_hp);
            put = (\<lambda>n w s. let s = mii_packet_set_data_word s dptr_lp n w
                           in if rx_hp_queue c then mii_packet_set_data_word s dptr_hp n w else s);
            crc = crc32 (crc32 (crc32 (crc32 crc_init w0) w1) w2) w3;
            s = put 3 w3 (put 2 w2 (put 1 w1 (put 0 w0 s)));
            is_hp = (rx_hp_queue c \<and> (ucast w3 :: word16) = 0x0081);
            buf = (if is_hp then buf_hp else buf_lp);
            dptr = (if is_hp then dptr_hp else dptr_lp);
            mp = (if is_hp then rxmem_hp else rxmem_lp);
            crc = crc32 crc w4
        in if buf = 0 then (None, s, count_no_queue c cnt)
           else (Some \<lparr>rx_buf = buf, rx_dptr = dptr + 6 * 4, rx_wrap_ptr = mii_get_wrap_ptr s mp,
                       rx_rdptr = mii_get_rdptr_address s mp, rx_ii = 5 * 4,
                       rx_crc = crc32 crc w5, rx_sixth = w5, rx_time = time\<rparr>,
                 mii_packet_set_data_word s dptr 4 w4, cnt))))"

text \<open>One word of the main loop.\<close>

definition rx_word :: "ram \<Rightarrow> rx_local \<Rightarrow> word32 \<Rightarrow> ram \<times> rx_local" where
  "rx_word s r word =
     (if rx_dptr r \<noteq> ldw_rdptr s (rx_rdptr r) then
        let s = mii_packet_set_data_word s (rx_dptr r) 0 word
        in (s, r\<lparr>rx_crc := crc32 (rx_crc r) word, rx_ii := rx_ii r + 4,
                rx_dptr := wrap_dptr s (rx_wrap_ptr r) (rx_dptr r + 4)\<rparr>)
      else (s, r))"

text \<open>
  The end of the frame: \<open>taillen\<close> bits are left over and arrive in the top of \<open>tail\<close>. The
  result is the packet sent to the filter, if any.
\<close>

definition rx_eof :: "mac_config \<Rightarrow> ram \<Rightarrow> rx_local \<Rightarrow> nat \<Rightarrow> word32 \<Rightarrow> addr option \<times> ram" where
  "rx_eof c s r taillen tail =
     (let s = mii_packet_set_data_word s (mii_packet_get_data_ptr (rx_buf r)) 5 (rx_sixth r);
          s = mii_packet_set_length s (rx_buf r) (word_of_int (rx_ii r + int (taillen div 8)));
          s = mii_packet_set_crc s (rx_buf r) (rx_crc r);
          tail = drop_bit (32 - taillen) tail;
          s = mii_packet_set_timestamp s (rx_buf r) (rx_time r)
      in if rx_dptr r \<noteq> ldw_rdptr s (rx_rdptr r) then
           let s = mii_packet_set_data_word s (rx_dptr r) 0 tail;
               (ok, s) = mii_commit c s (rx_buf r) (rx_dptr r)
           in (if ok \<noteq> 0 then Some (rx_buf r) else None, s)
         else (None, s))"

fun rx_words :: "ram \<Rightarrow> rx_local \<Rightarrow> word32 list \<Rightarrow> ram \<times> rx_local" where
  "rx_words s r [] = (s, r)"
| "rx_words s r (w # ws) = (let (s, r) = rx_word s r w in rx_words s r ws)"

text \<open>One turn of the loop of \<open>mii_rx_pins\<close> without interference from the other threads.\<close>

definition rx_frame ::
  "mac_config \<Rightarrow> ram \<Rightarrow> addr \<Rightarrow> addr \<Rightarrow> word32 \<Rightarrow> word32 \<Rightarrow>
   word32 \<times> word32 \<times> word32 \<times> word32 \<times> word32 \<times> word32 \<Rightarrow> word32 list \<Rightarrow> nat \<Rightarrow> word32 \<Rightarrow>
   addr option \<times> ram \<times> word32" where
  "rx_frame c s rxmem_hp rxmem_lp cnt time hdr ws taillen tail =
     (let (buf_hp, buf_lp, s) = rx_reserve c s rxmem_hp rxmem_lp
      in case rx_start c s rxmem_hp rxmem_lp buf_hp buf_lp cnt time hdr of
           (None, s, cnt) \<Rightarrow> (None, s, cnt)
         | (Some r, s, cnt) \<Rightarrow>
             let (s, r) = rx_words s r ws; (sent, s) = rx_eof c s r taillen tail
             in (sent, s, cnt))"

subsection \<open>The space the thread writes to\<close>

text \<open>Data word \<open>k\<close> of the packet at the write pointer, seen from the read pointer.\<close>

lemma data_addr_off:
  assumes wf: "pool_wf s mp q" and k: "48 + 4 * int k < free_bytes (pools s mp)"
  shows "off (pools s mp) (data_addr (pools s mp) (buf_of_hdr (wrptr (pools s mp))) k)
    = off (pools s mp) (wrptr (pools s mp)) + 48 + 4 * int k"
  using k pool_wf_wr_slot [OF wf] pool_wf_rd_slot [OF wf]
  by (auto simp: free_bytes_def data_addr_def Let_def buf_of_hdr_def BUF_DATA_OFFSET_def
      pool_layout_defs split: if_splits)

lemma data_addr_rdptr:
  assumes wf: "pool_wf s mp q" and k: "48 + 4 * int k \<le> free_bytes (pools s mp)"
  shows "data_addr (pools s mp) (buf_of_hdr (wrptr (pools s mp))) k = rdptr (pools s mp)
    \<longleftrightarrow> 48 + 4 * int k = free_bytes (pools s mp)"
  using k pool_wf_wr_slot [OF wf] pool_wf_rd_slot [OF wf]
  by (auto simp: free_bytes_def data_addr_def Let_def buf_of_hdr_def BUF_DATA_OFFSET_def
      pool_layout_defs split: if_splits)

lemma free_bytes_dvd:
  assumes wf: "pool_wf s mp q"
  shows "4 dvd free_bytes (pools s mp)"
proof -
  have "4 dvd rdptr (pools s mp)" "4 dvd wrptr (pools s mp)" "4 dvd pool_len (pools s mp)"
    using pool_wf_wr_slot [OF wf] pool_wf_rd_slot [OF wf] pool_wf_shape [OF wf]
    by (auto simp: pool_layout_defs intro!: dvd_diff)
  then show ?thesis
    unfolding free_bytes_def off_def by (auto intro!: dvd_add dvd_diff)
qed

lemma free_bytes_le: "pool_wf s mp q \<Longrightarrow> free_bytes (pools s mp) \<le> pool_len (pools s mp)"
  using off_less [of "pools s mp" "wrptr (pools s mp)"] pool_wf_rd_slot [of s mp q]
    pool_wf_wr_slot [of s mp q]
  by (auto simp: free_bytes_def slot_ok_def)

lemma wr_packet_room:
  assumes wf: "pool_wf s mp q" and k: "48 + 4 * int k \<le> free_bytes (pools s mp)"
  shows "packet_room s mp (wrptr (pools s mp)) k"
  using k free_bytes_le [OF wf] pool_wf_shape [OF wf] pool_wf_wr_slot [OF wf] wf
  by (simp add: packet_room_def Let_def pool_wf_def)

end

