(* ===== verification/Rx_System.thy ===== *)
theory Rx_System
  imports Mii_Rx_Pins
begin

text \<open>
  The receive thread together with the threads that free its packets. A state is the shared
  memory, where \<open>mii_rx_pins\<close> stands in its loop, and the packets published and not yet
  reclaimed (a history variable). Between any two points where the receive thread waits, the
  other threads may free published packets in any order and write the fields of published
  packets (the filter's result, the stage, the transmit counter). The theory is about a build
  without the high priority receive queue, where the thread fills one pool.
\<close>

datatype rx_phase =
    RxIdle
  | RxReserved addr
  | RxBusy rx_local "word32 list"

record rx_sys =
  sys_ram :: ram
  sys_phase :: rx_phase
  sys_queue :: pool_queue

text \<open>The words kept by the thread: all but those that arrived while the buffer was full.\<close>

definition rx_kept :: "ram \<Rightarrow> rx_local \<Rightarrow> word32 \<Rightarrow> word32 list \<Rightarrow> word32 list" where
  "rx_kept s r w ws = (if rx_dptr r \<noteq> ldw_rdptr s (rx_rdptr r) then ws @ [w] else ws)"

inductive rx_thread_step :: "mac_config \<Rightarrow> addr \<Rightarrow> rx_sys \<Rightarrow> rx_sys \<Rightarrow> bool" for c mp where
  reserve: "rx_reserve c s 0 mp = (0, buf, s') \<Longrightarrow>
     rx_thread_step c mp \<lparr>sys_ram = s, sys_phase = RxIdle, sys_queue = q\<rparr>
                  \<lparr>sys_ram = s', sys_phase = RxReserved buf, sys_queue = q\<rparr>"
| start_frame: "rx_start c s 0 mp 0 buf cnt time (w0, w1, w2, w3, w4, w5) = (Some r, s', cnt') \<Longrightarrow>
     rx_thread_step c mp \<lparr>sys_ram = s, sys_phase = RxReserved buf, sys_queue = q\<rparr>
       \<lparr>sys_ram = s', sys_phase = RxBusy r [w0, w1, w2, w3, w4, w5], sys_queue = q\<rparr>"
| drop_frame: "rx_start c s 0 mp 0 buf cnt time hdr = (None, s', cnt') \<Longrightarrow>
     rx_thread_step c mp \<lparr>sys_ram = s, sys_phase = RxReserved buf, sys_queue = q\<rparr>
                  \<lparr>sys_ram = s', sys_phase = RxIdle, sys_queue = q\<rparr>"
| word: "rx_word s r w = (s', r') \<Longrightarrow>
     rx_thread_step c mp \<lparr>sys_ram = s, sys_phase = RxBusy r ws, sys_queue = q\<rparr>
       \<lparr>sys_ram = s', sys_phase = RxBusy r' (rx_kept s r w ws), sys_queue = q\<rparr>"
| commit: "rx_eof c s r taillen tail = (Some buf, s') \<Longrightarrow>
     rx_thread_step c mp \<lparr>sys_ram = s, sys_phase = RxBusy r ws, sys_queue = q\<rparr>
       \<lparr>sys_ram = s', sys_phase = RxIdle, sys_queue = commit_spec (hdr_of_buf buf) q\<rparr>"
| discard: "rx_eof c s r taillen tail = (None, s') \<Longrightarrow>
     rx_thread_step c mp \<lparr>sys_ram = s, sys_phase = RxBusy r ws, sys_queue = q\<rparr>
       \<lparr>sys_ram = s', sys_phase = RxIdle, sys_queue = q\<rparr>"

inductive rx_other_step :: "addr \<Rightarrow> rx_sys \<Rightarrow> rx_sys \<Rightarrow> bool" for mp where
  free: "h \<in> pending q \<Longrightarrow> mii_free s (buf_of_hdr h) = Some s' \<Longrightarrow>
     rx_other_step mp \<lparr>sys_ram = s, sys_phase = p, sys_queue = q\<rparr>
                  \<lparr>sys_ram = s', sys_phase = p, sys_queue = free_spec h q\<rparr>"
| field: "h \<in> pending q \<Longrightarrow>
     rx_other_step mp \<lparr>sys_ram = s, sys_phase = p, sys_queue = q\<rparr>
       \<lparr>sys_ram = mii_packet_set f s (buf_of_hdr h) x, sys_phase = p, sys_queue = q\<rparr>"

definition rx_step :: "mac_config \<Rightarrow> addr \<Rightarrow> rx_sys \<Rightarrow> rx_sys \<Rightarrow> bool" where
  "rx_step c mp \<sigma> \<sigma>' \<longleftrightarrow> rx_thread_step c mp \<sigma> \<sigma>' \<or> rx_other_step mp \<sigma> \<sigma>'"

inductive rx_reachable :: "mac_config \<Rightarrow> addr \<Rightarrow> rx_sys \<Rightarrow> rx_sys \<Rightarrow> bool" for c mp a where
  start: "rx_reachable c mp a a"
| step: "rx_reachable c mp a b \<Longrightarrow> rx_step c mp b d \<Longrightarrow> rx_reachable c mp a d"

subsection \<open>The invariant\<close>

definition crc_words :: "word32 list \<Rightarrow> word32 \<Rightarrow> word32" where
  "crc_words ws r = fold (\<lambda>w r. crc32 r w) ws r"

definition rx_reserved :: "ram \<Rightarrow> addr \<Rightarrow> addr \<Rightarrow> bool" where
  "rx_reserved s mp buf \<longleftrightarrow>
     buf = buf_of_hdr (wrptr (pools s mp)) \<and> hdr_info s (wrptr (pools s mp)) = mp \<and>
     88 \<le> free_bytes (pools s mp)"

definition rx_busy :: "ram \<Rightarrow> addr \<Rightarrow> rx_local \<Rightarrow> word32 list \<Rightarrow> bool" where
  "rx_busy s mp r ws \<longleftrightarrow>
     rx_reserved s mp (rx_buf r) \<and> rx_wrap_ptr r = pool_end (pools s mp) \<and> rx_rdptr r = mp \<and>
     6 \<le> length ws \<and> 48 + 4 * int (length ws) \<le> free_bytes (pools s mp) \<and>
     rx_dptr r = data_addr (pools s mp) (rx_buf r) (length ws) \<and>
     rx_ii r = 4 * int (length ws) - 4 \<and> rx_sixth r = ws ! 5 \<and>
     rx_crc r = crc_words ws crc_init \<and>
     (\<forall>j < length ws. j \<noteq> 5 \<longrightarrow> ldw s (data_addr (pools s mp) (rx_buf r) j) = ws ! j)"

fun rx_phase_inv :: "ram \<Rightarrow> addr \<Rightarrow> rx_phase \<Rightarrow> bool" where
  "rx_phase_inv s mp RxIdle = True"
| "rx_phase_inv s mp (RxReserved buf) = (buf = 0 \<or> rx_reserved s mp buf)"
| "rx_phase_inv s mp (RxBusy r ws) = rx_busy s mp r ws"

definition rx_sys_inv :: "addr \<Rightarrow> rx_sys \<Rightarrow> bool" where
  "rx_sys_inv mp \<sigma> \<longleftrightarrow>
     pool_inv (sys_ram \<sigma>) mp (sys_queue \<sigma>) \<and> rx_phase_inv (sys_ram \<sigma>) mp (sys_phase \<sigma>)"

subsection \<open>Interference\<close>

text \<open>What the other threads may do to the memory and the pool while the receiver holds a buffer.\<close>

definition tolerated :: "ram \<Rightarrow> addr \<Rightarrow> pool_queue \<Rightarrow> ram \<Rightarrow> bool" where
  "tolerated s mp q s' \<longleftrightarrow>
     wrptr (pools s' mp) = wrptr (pools s mp) \<and> pool_start (pools s' mp) = pool_start (pools s mp) \<and>
     pool_end (pools s' mp) = pool_end (pools s mp) \<and>
     free_bytes (pools s mp) \<le> free_bytes (pools s' mp) \<and>
     (\<forall>a. (\<forall>h \<in> fst ` set q. a < h \<or> h + 48 \<le> a) \<longrightarrow> ldw s' a = ldw s a)"

lemma reserved_untouched:
  assumes wf: "pool_wf s mp q" and k: "48 + 4 * int k < free_bytes (pools s mp)"
    and h: "h \<in> fst ` set q"
  shows "data_addr (pools s mp) (buf_of_hdr (wrptr (pools s mp))) k < h \<or>
    h + 48 \<le> data_addr (pools s mp) (buf_of_hdr (wrptr (pools s mp))) k"
proof -
  let ?a = "data_addr (pools s mp) (buf_of_hdr (wrptr (pools s mp))) k"
  have room: "packet_room s mp (wrptr (pools s mp)) k"
    using wr_packet_room [OF wf] k by simp
  show ?thesis
    using data_addr_range [OF room, of k] data_addr_off [OF wf k] pool_wf_before_wr [OF wf h]
    by (intro beyond_slot [OF pool_wf_rd_slot [OF wf] pool_wf_slot [OF wf h]]) auto
qed

lemma tolerated_data:
  assumes wf: "pool_wf s mp q" and tol: "tolerated s mp q s'"
    and k: "48 + 4 * int k < free_bytes (pools s mp)"
  shows "ldw s' (data_addr (pools s mp) (buf_of_hdr (wrptr (pools s mp))) k)
    = ldw s (data_addr (pools s mp) (buf_of_hdr (wrptr (pools s mp))) k)"
  using tol reserved_untouched [OF wf k] by (auto simp: tolerated_def)

lemma tolerated_data_addr: "tolerated s mp q s' \<Longrightarrow> data_addr (pools s' mp) = data_addr (pools s mp)"
  by (auto simp: tolerated_def data_addr_def pool_len_def fun_eq_iff Let_def)

lemma tolerated_reserved:
  assumes wf: "pool_wf s mp q" and tol: "tolerated s mp q s'" and r: "rx_reserved s mp buf"
  shows "rx_reserved s' mp buf"
proof -
  let ?w = "wrptr (pools s mp)"
  have "off (pools s mp) ?w + 48 \<le> pool_len (pools s mp)"
    using r by (simp add: rx_reserved_def free_bytes_def)
  then have apart: "48 \<le> \<bar>h - ?w\<bar>" if "h \<in> fst ` set q" for h
    using off_wr_inner [OF wf _ that] by simp
  have "?w + 4 < h \<or> h + 48 \<le> ?w + 4" if "h \<in> fst ` set q" for h
    using apart [OF that] by auto
  then have "ldw s' (?w + 4) = ldw s (?w + 4)"
    using tol by (auto simp: tolerated_def)
  then show ?thesis
    using r tol by (auto simp: rx_reserved_def tolerated_def hdr_info_def)
qed

lemma tolerated_busy:
  assumes wf: "pool_wf s mp q" and tol: "tolerated s mp q s'" and b: "rx_busy s mp r ws"
  shows "rx_busy s' mp r ws"
proof -
  have buf: "rx_buf r = buf_of_hdr (wrptr (pools s mp))"
    using b by (simp add: rx_busy_def rx_reserved_def)
  have "ldw s' (data_addr (pools s mp) (rx_buf r) j) = ldw s (data_addr (pools s mp) (rx_buf r) j)"
    if "j < length ws" for j
    using tolerated_data [OF wf tol, of j] b that by (simp add: buf rx_busy_def)
  then show ?thesis
    using b tolerated_reserved [OF wf tol, of "rx_buf r"] tol tolerated_data_addr [OF tol]
    by (auto simp: rx_busy_def tolerated_def)
qed

lemma tolerated_phase:
  "pool_wf s mp q \<Longrightarrow> tolerated s mp q s' \<Longrightarrow> rx_phase_inv s mp p \<Longrightarrow> rx_phase_inv s' mp p"
  by (cases p) (auto intro: tolerated_reserved tolerated_busy)

lemma free_tolerated:
  assumes "pool_inv s mp q" "h \<in> fst ` set q" "mii_free s (buf_of_hdr h) = Some s'"
  shows "tolerated s mp q s'"
  using mii_free_frame [OF assms] unfolding tolerated_def by fastforce

lemma field_tolerated:
  assumes h: "h \<in> fst ` set q"
  shows "tolerated s mp q (mii_packet_set f s (buf_of_hdr h) x)"
proof -
  have "ldw (mii_packet_set f s (buf_of_hdr h) x) a = ldw s a"
    if "\<forall>h \<in> fst ` set q. a < h \<or> h + 48 \<le> a" for a
    using that [rule_format, OF h] BUF_OFFSET_range [of f]
    by (auto simp: mii_packet_set_def buf_of_hdr_def sizeof_malloc_hdr_def BUF_DATA_OFFSET_def)
  then show ?thesis
    by (simp add: tolerated_def)
qed

subsection \<open>The receive thread keeps the invariant\<close>

lemma data_store_pool_inv:
  assumes inv: "pool_inv s mp q" and k: "48 + 4 * int k < free_bytes (pools s mp)"
  shows "pool_inv (stw s (data_addr (pools s mp) (buf_of_hdr (wrptr (pools s mp))) k) w) mp q"
proof -
  note wf = pool_inv_wf [OF inv]
  have room: "packet_room s mp (wrptr (pools s mp)) k"
    using wr_packet_room [OF wf] k by simp
  show ?thesis
    using inv data_addr_range [OF room, of k] data_addr_off [OF wf k]
    by (auto simp: pool_inv_def intro!: pool_wf_store_free_space)
qed

lemma header_store_pool_inv:
  assumes inv: "pool_inv s mp q" and r: "rx_reserved s mp buf"
  shows "pool_inv (mii_packet_set f s buf x) mp q"
proof -
  note wf = pool_inv_wf [OF inv]
  let ?i = "pools s mp" and ?x = "wrptr (pools s mp) + 8 + 4 * BUF_OFFSET f"
  have w: "slot_ok ?i (wrptr ?i)" by (rule pool_wf_wr_slot [OF wf])
  then have x: "pool_start ?i \<le> ?x" "?x < pool_end ?i" "wrptr ?i \<le> ?x"
    using BUF_OFFSET_range [of f] by (auto simp: slot_ok_def BUF_DATA_OFFSET_def)
  have "off ?i (wrptr ?i) \<le> off ?i ?x"
    using r x BUF_OFFSET_range [of f] by (auto simp: rx_reserved_def free_bytes_def off_def
        BUF_DATA_OFFSET_def split: if_splits)
  then show ?thesis
    using inv r pool_wf_store_free_space [OF wf x(1,2)]
    by (simp add: pool_inv_def mii_packet_set_def rx_reserved_def buf_of_hdr_def
        sizeof_malloc_hdr_def)
qed

lemma reserve_rx_reserved:
  assumes inv: "pool_inv s mp q" and r: "mii_reserve c s mp = (buf, e, s')" and "buf \<noteq> 0"
  shows "rx_reserved s' mp buf"
proof -
  note wf = pool_inv_wf [OF inv]
  have "uint (word_of_int mp :: word32) = mp"
    using pool_wf_shape [OF wf] by (simp add: pool_shape_def sizeof_mempool_info_def uint_of_ptr)
  then show ?thesis
    using mii_reserve_space [OF wf r \<open>buf \<noteq> 0\<close>] by (simp add: rx_reserved_def hdr_info_def)
qed

lemma rx_start_lp:
  assumes "\<not> rx_hp_queue c" "buf \<noteq> 0"
  shows "rx_start c s hp mp b buf cnt time (w0, w1, w2, w3, w4, w5) =
    (Some \<lparr>rx_buf = buf, rx_dptr = mii_packet_get_data_ptr buf + 24,
           rx_wrap_ptr = pool_end (pools s mp), rx_rdptr = mp, rx_ii = 20,
           rx_crc = crc_words [w0, w1, w2, w3, w4, w5] crc_init, rx_sixth = w5, rx_time = time\<rparr>,
     (let d = mii_packet_get_data_ptr buf
      in stw (stw (stw (stw (stw s d w0) (d + 4) w1) (d + 8) w2) (d + 12) w3) (d + 16) w4), cnt)"
  using assms
  by (simp add: rx_start_def Let_def mii_packet_set_data_word_def mii_get_wrap_ptr_def
      mii_get_rdptr_address_def crc_words_def)

lemma start_busy:
  assumes inv: "pool_inv s mp q" and hp: "\<not> rx_hp_queue c" and res: "rx_reserved s mp buf"
    and nz: "buf \<noteq> 0"
    and st: "rx_start c s 0 mp 0 buf cnt time (w0, w1, w2, w3, w4, w5) = (Some r, s', cnt')"
  shows "pool_inv s' mp q" "rx_busy s' mp r [w0, w1, w2, w3, w4, w5]"
proof -
  note wf = pool_inv_wf [OF inv]
  let ?w = "wrptr (pools s mp)"
  let ?d = "mii_packet_get_data_ptr buf"
  have buf: "buf = buf_of_hdr ?w" and free: "88 \<le> free_bytes (pools s mp)"
    and info: "hdr_info s ?w = mp"
    using res by (auto simp: rx_reserved_def)
  have addr: "data_addr (pools s mp) buf k = ?d + 4 * int k" if "k < 10" for k
    unfolding buf using that by (rule data_addr_first [OF pool_wf_wr_slot [OF wf]])
  have store: "pool_inv (stw t (?d + 4 * int k) w) mp q"
    if "pool_inv t mp q" "pools t = pools s" "k < 10" for t k w
    using data_store_pool_inv [OF that(1), of k w] that free addr [OF that(3)] by (simp add: buf)
  have s': "s' = stw (stw (stw (stw (stw s ?d w0) (?d + 4) w1) (?d + 8) w2) (?d + 12) w3) (?d + 16) w4"
    and r: "r = \<lparr>rx_buf = buf, rx_dptr = ?d + 24, rx_wrap_ptr = pool_end (pools s mp),
      rx_rdptr = mp, rx_ii = 20, rx_crc = crc_words [w0, w1, w2, w3, w4, w5] crc_init,
      rx_sixth = w5, rx_time = time\<rparr>"
    using st rx_start_lp [OF hp nz] by (simp_all add: Let_def)
  show "pool_inv s' mp q"
    using store [OF store [OF store [OF store [OF store [OF inv, of 0 w0], of 1 w1], of 2 w2],
          of 3 w3], of 4 w4]
    by (simp add: s')
  have pools: "pools s' = pools s" by (simp add: s')
  have "ldw s' (?w + 4) = ldw s (?w + 4)"
    by (simp add: s' mii_packet_get_data_ptr_def BUF_DATA_OFFSET_def buf buf_of_hdr_def
        sizeof_malloc_hdr_def)
  then have "rx_reserved s' mp buf"
    using res by (simp add: rx_reserved_def hdr_info_def pools)
  moreover have "ldw s' (data_addr (pools s' mp) buf j) = [w0, w1, w2, w3, w4, w5] ! j"
    if "j < 6" "j \<noteq> 5" for j
  proof -
    have "j = 0 \<or> j = 1 \<or> j = 2 \<or> j = 3 \<or> j = 4" using that by linarith
    then show ?thesis using addr [of j] by (auto simp: s')
  qed
  ultimately show "rx_busy s' mp r [w0, w1, w2, w3, w4, w5]"
    using free addr [of 6] by (simp add: rx_busy_def r pools eval_nat_numeral)
qed

lemma word_busy:
  assumes inv: "pool_inv s mp q" and b: "rx_busy s mp r ws" and st: "rx_word s r w = (s', r')"
  shows "pool_inv s' mp q" "rx_busy s' mp r' (rx_kept s r w ws)"
proof -
  note wf = pool_inv_wf [OF inv]
  let ?i = "pools s mp" and ?w = "wrptr (pools s mp)" and ?n = "length ws"
  have buf: "rx_buf r = buf_of_hdr ?w" and le: "48 + 4 * int ?n \<le> free_bytes ?i"
    and d: "rx_dptr r = data_addr ?i (buf_of_hdr ?w) ?n" and rd: "rx_rdptr r = mp"
    and wrap: "rx_wrap_ptr r = pool_end ?i"
    using b by (auto simp: rx_busy_def rx_reserved_def)
  have "pool_inv s' mp q \<and> rx_busy s' mp r' (rx_kept s r w ws)"
  proof (cases "rx_dptr r = ldw_rdptr s (rx_rdptr r)")
    case True
    then show ?thesis using st inv b by (simp add: rx_word_def rx_kept_def)
  next
    case False
    then have ne: "48 + 4 * int ?n \<noteq> free_bytes ?i"
      using data_addr_rdptr [OF wf le] d rd by (simp add: ldw_rdptr_def)
    have "4 dvd free_bytes ?i" by (rule free_bytes_dvd [OF wf])
    then have le': "48 + 4 * int (Suc ?n) \<le> free_bytes ?i" using le ne by presburger
    have room: "packet_room s mp ?w (Suc ?n)" by (rule wr_packet_room [OF wf le'])
    have s': "s' = stw s (data_addr ?i (buf_of_hdr ?w) ?n) w"
      using st False by (simp add: rx_word_def Let_def d mii_packet_set_data_word_def)
    have inv': "pool_inv s' mp q"
      unfolding s' using le ne by (intro data_store_pool_inv [OF inv]) simp
    have wrap': "ldw s' (pool_end ?i) = word_of_int (pool_start ?i)"
      using pool_inv_wf [OF inv'] by (simp add: pool_wf_def Let_def s')
    have r': "r' = r\<lparr>rx_crc := crc32 (rx_crc r) w, rx_ii := rx_ii r + 4,
        rx_dptr := data_addr ?i (buf_of_hdr ?w) (Suc ?n)\<rparr>"
      using st False data_addr_Suc [OF room _ wrap']
      by (simp add: rx_word_def Let_def d wrap s' mii_packet_set_data_word_def)
    have hdr: "ldw s' (?w + 4) = ldw s (?w + 4)"
      using data_addr_header [OF room, of ?n] by (auto simp: s')
    have keep: "ldw s' (data_addr ?i (buf_of_hdr ?w) j) =
        (if j = ?n then w else ldw s (data_addr ?i (buf_of_hdr ?w) j))" if "j < Suc ?n" for j
      using data_addr_inj [OF room that, of ?n] by (auto simp: s')
    have "rx_busy s' mp r' (ws @ [w])"
      using b le' hdr keep
      by (auto simp: rx_busy_def rx_reserved_def hdr_info_def r' s' buf crc_words_def nth_append
          less_Suc_eq)
    then show ?thesis using inv' False by (simp add: rx_kept_def)
  qed
  then show "pool_inv s' mp q" "rx_busy s' mp r' (rx_kept s r w ws)" by auto
qed

text \<open>
  The end of a frame. When the packet is handed on it holds the kept words, with the left over
  bits in the last word, its length in bytes, the checksum of the words and the arrival time.
\<close>

definition rx_result ::
  "ram \<Rightarrow> addr \<Rightarrow> rx_local \<Rightarrow> word32 list \<Rightarrow> nat \<Rightarrow> word32 \<Rightarrow> bool" where
  "rx_result s buf r ws taillen tail \<longleftrightarrow>
     packet_words s buf (Suc (length ws)) = ws @ [drop_bit (32 - taillen) tail] \<and>
     mii_packet_get_length s buf
       = word_of_int (4 * (int (length ws) - 1) + int (taillen div 8)) \<and>
     mii_packet_get_crc s buf = crc_words ws crc_init \<and>
     mii_packet_get_timestamp s buf = rx_time r \<and> mii_packet_get_stage s buf = 0"

definition eof_header :: "ram \<Rightarrow> rx_local \<Rightarrow> nat \<Rightarrow> ram" where
  "eof_header s r taillen =
     (let s = mii_packet_set_data_word s (mii_packet_get_data_ptr (rx_buf r)) 5 (rx_sixth r);
          s = mii_packet_set_length s (rx_buf r) (word_of_int (rx_ii r + int (taillen div 8)));
          s = mii_packet_set_crc s (rx_buf r) (rx_crc r)
      in mii_packet_set_timestamp s (rx_buf r) (rx_time r))"

lemma rx_eof_split:
  "rx_eof c s r taillen tail =
     (let s = eof_header s r taillen
      in if rx_dptr r \<noteq> ldw_rdptr s (rx_rdptr r) then
           let s = stw s (rx_dptr r) (drop_bit (32 - taillen) tail);
               (ok, s) = mii_commit c s (rx_buf r) (rx_dptr r)
           in (if ok \<noteq> 0 then Some (rx_buf r) else None, s)
         else (None, s))"
  by (simp add: rx_eof_def eof_header_def Let_def mii_packet_set_data_word_def)

lemma header_addr_apart:
  assumes "packet_room s mp h n" "k < n"
  shows "data_addr (pools s mp) (buf_of_hdr h) k \<noteq> buf_of_hdr h + 4 * BUF_OFFSET f"
    "data_addr (pools s mp) (buf_of_hdr h) k \<noteq> h" "data_addr (pools s mp) (buf_of_hdr h) k \<noteq> h + 4"
  using data_addr_header [OF assms] BUF_OFFSET_range [of f]
  by (auto simp: buf_of_hdr_def sizeof_malloc_hdr_def BUF_DATA_OFFSET_def)

lemma eof_header_spec:
  assumes inv: "pool_inv s mp q" and b: "rx_busy s mp r ws"
  shows "pool_inv (eof_header s r taillen) mp q" "pools (eof_header s r taillen) = pools s"
    "rx_reserved (eof_header s r taillen) mp (rx_buf r)"
    "\<And>j. j < length ws \<Longrightarrow>
       ldw (eof_header s r taillen) (data_addr (pools s mp) (rx_buf r) j) = ws ! j"
    "mii_packet_get_length (eof_header s r taillen) (rx_buf r)
       = word_of_int (4 * (int (length ws) - 1) + int (taillen div 8))"
    "mii_packet_get_crc (eof_header s r taillen) (rx_buf r) = crc_words ws crc_init"
    "mii_packet_get_timestamp (eof_header s r taillen) (rx_buf r) = rx_time r"
proof -
  note wf = pool_inv_wf [OF inv]
  let ?i = "pools s mp" and ?w = "wrptr (pools s mp)" and ?n = "length ws"
  let ?t = "stw s (mii_packet_get_data_ptr (rx_buf r) + 20) (rx_sixth r)"
  have buf: "rx_buf r = buf_of_hdr ?w" and le: "48 + 4 * int ?n \<le> free_bytes ?i"
    and n: "6 \<le> ?n" and res: "rx_reserved s mp (rx_buf r)"
    using b by (auto simp: rx_busy_def rx_reserved_def)
  have ii: "rx_ii r = 4 * (int ?n - 1)" using b by (simp add: rx_busy_def)
  have room: "packet_room s mp ?w ?n" by (rule wr_packet_room [OF wf le])
  have five: "mii_packet_get_data_ptr (rx_buf r) + 20 = data_addr ?i (buf_of_hdr ?w) 5"
    using data_addr_first [OF pool_wf_wr_slot [OF wf], of 5] by (simp add: buf)
  have t: "pool_inv ?t mp q"
    unfolding five using le n by (intro data_store_pool_inv [OF inv]) simp
  have info: "hdr_info (stw s (data_addr ?i (buf_of_hdr ?w) 5) x) ?w = hdr_info s ?w" for x
    using header_addr_apart(3) [OF room, of 5] n by (auto simp: hdr_info_def)
  have rt: "rx_reserved ?t mp (rx_buf r)"
    unfolding five using res info by (simp add: rx_reserved_def)
  have keep: "rx_reserved (mii_packet_set f u (rx_buf r) x) mp (rx_buf r)"
    if "rx_reserved u mp (rx_buf r)" for u f x
    using that BUF_OFFSET_range [of f]
    by (auto simp: rx_reserved_def hdr_info_def mii_packet_set_def buf_of_hdr_def sizeof_malloc_hdr_def)
  have e: "eof_header s r taillen = mii_packet_set_timestamp (mii_packet_set_crc
      (mii_packet_set_length ?t (rx_buf r) (word_of_int (rx_ii r + int (taillen div 8))))
      (rx_buf r) (rx_crc r)) (rx_buf r) (rx_time r)"
    by (simp add: eof_header_def Let_def mii_packet_set_data_word_def)
  show "pool_inv (eof_header s r taillen) mp q"
    unfolding e by (intro header_store_pool_inv keep rt t)
  show "rx_reserved (eof_header s r taillen) mp (rx_buf r)"
    unfolding e by (intro keep rt)
  show "pools (eof_header s r taillen) = pools s" by (simp add: e)
  show "ldw (eof_header s r taillen) (data_addr ?i (rx_buf r) j) = ws ! j" if j: "j < ?n" for j
  proof -
    have "ldw (eof_header s r taillen) (data_addr ?i (rx_buf r) j) = ldw ?t (data_addr ?i (rx_buf r) j)"
      unfolding e buf by (simp only: ldw_packet_set [OF header_addr_apart(1) [OF room j]])
    also have "\<dots> = ws ! j"
    proof (cases "j = 5")
      case True
      then show ?thesis using b five by (simp add: buf rx_busy_def)
    next
      case False
      have "data_addr ?i (buf_of_hdr ?w) 5 \<noteq> data_addr ?i (buf_of_hdr ?w) j"
        using data_addr_inj [OF room _ j, of 5] n False by auto
      then show ?thesis unfolding five using b j False by (simp add: buf rx_busy_def)
    qed
    finally show ?thesis .
  qed
  show "mii_packet_get_length (eof_header s r taillen) (rx_buf r)
      = word_of_int (4 * (int ?n - 1) + int (taillen div 8))"
    "mii_packet_get_crc (eof_header s r taillen) (rx_buf r) = crc_words ws crc_init"
    "mii_packet_get_timestamp (eof_header s r taillen) (rx_buf r) = rx_time r"
    using b ii by (simp_all add: e rx_busy_def)
qed

lemma mii_commit_frame:
  assumes "mii_commit c s (buf_of_hdr h) e = (r, s')" "a < h \<or> h + 48 \<le> a \<or> a = h + 4"
  shows "ldw s' a = ldw s a"
  using assms BUF_OFFSET_range [of F_stage] BUF_OFFSET_range [of F_forwarding]
  by (auto simp: mii_commit_def Let_def mii_packet_set_def buf_of_hdr_def sizeof_malloc_hdr_def
      hdr_of_buf_def BUF_DATA_OFFSET_def split: if_splits)

lemma mii_commit_fields:
  assumes "mii_commit c s (buf_of_hdr h) e = (r, s')" "r \<noteq> 0"
  shows "mii_packet_get f s' (buf_of_hdr h) =
    (if f = F_stage \<or> f = F_forwarding \<and> port_forwarding c then 0
     else mii_packet_get f s (buf_of_hdr h))"
proof -
  have "mii_packet_get f (stw t h x) (buf_of_hdr h) = mii_packet_get f t (buf_of_hdr h)" for t x
    using BUF_OFFSET_range [of f] by (auto simp: mii_packet_get_def buf_of_hdr_def sizeof_malloc_hdr_def)
  moreover have "mii_packet_get f (set_pool t p i) b = mii_packet_get f t b" for t p i b
    by (simp add: mii_packet_get_def)
  ultimately show ?thesis
    using assms by (auto simp: mii_commit_def Let_def split: if_splits)
qed

lemma eof_refines:
  assumes inv: "pool_inv s mp q" and b: "rx_busy s mp r ws"
    and eof: "rx_eof c s r taillen tail = (res, s')"
  shows "case res of None \<Rightarrow> pool_inv s' mp q
    | Some buf \<Rightarrow> buf = rx_buf r \<and>
        pool_inv s' mp (commit_spec (hdr_of_buf buf) q) \<and> rx_result s' buf r ws taillen tail"
proof -
  let ?t = "eof_header s r taillen" and ?w = "wrptr (pools s mp)" and ?i = "pools s mp"
  let ?n = "length ws" and ?e = "data_addr (pools s mp) (rx_buf r) (length ws)"
  let ?u = "stw (eof_header s r taillen) ?e (drop_bit (32 - taillen) tail)"
  note t = eof_header_spec [OF inv b, where taillen = taillen] and wf = pool_inv_wf [OF inv]
  have buf: "rx_buf r = buf_of_hdr ?w" and le: "48 + 4 * int ?n \<le> free_bytes ?i"
    and d: "rx_dptr r = ?e" and rd: "rx_rdptr r = mp"
    using b by (auto simp: rx_busy_def rx_reserved_def)
  show ?thesis
  proof (cases "?e = rdptr ?i")
    case True
    then show ?thesis using eof t by (auto simp: rx_eof_split d rd ldw_rdptr_def Let_def)
  next
    case False
    then have lt: "48 + 4 * int ?n < free_bytes ?i"
      using data_addr_rdptr [OF wf] le buf by fastforce
    have room: "packet_room s mp ?w (Suc ?n)"
    proof (rule wr_packet_room [OF wf])
      have "4 dvd free_bytes ?i" by (rule free_bytes_dvd [OF wf])
      then show "48 + 4 * int (Suc ?n) \<le> free_bytes ?i" using lt by presburger
    qed
    have u: "pool_inv ?u mp q"
      using data_store_pool_inv [OF t(1)] lt by (simp add: t(2) buf)
    obtain ok where c: "mii_commit c ?u (buf_of_hdr ?w) ?e = (ok, s')"
      and res: "res = (if ok \<noteq> 0 then Some (rx_buf r) else None)"
      using eof False
      by (auto simp: rx_eof_split d rd ldw_rdptr_def Let_def t(2) buf split: prod.splits)
    note e = data_addr_range [OF room, of ?n, folded buf] data_addr_header [OF room, of ?n, folded buf]
    have info: "hdr_info ?u ?w = mp"
      using t(3) e by (auto simp: rx_reserved_def hdr_info_def t(2))
    have "off ?i ?w + 48 \<le> off ?i ?e"
      using data_addr_off [OF wf lt] by (simp add: buf)
    then have commit: "if commit_wraps ?i ?e \<and> rdptr ?i = pool_start ?i then ok = 0 \<and> s' = ?u
        else ok = 1 \<and> pool_inv s' mp (commit_spec ?w q) \<and> wrptr (pools s' mp) = commit_end ?i ?e"
      using mii_commit_refines [OF u _ _ _ _ _ _ c] info e by (simp add: t(2))
    show ?thesis
    proof (cases "ok = 0")
      case True
      then show ?thesis using commit u res by (auto split: if_splits)
    next
      case False
      have same: "data_addr (pools s' mp) = data_addr ?i"
        using c False t(2) info
        by (auto simp: mii_commit_def Let_def data_addr_def pool_len_def fun_eq_iff split: if_splits)
      have info': "hdr_info s' ?w = mp"
        using mii_commit_frame [OF c, of "?w + 4"] info by (simp add: hdr_info_def)
      have "ldw s' (data_addr ?i (rx_buf r) j) = (ws @ [drop_bit (32 - taillen) tail]) ! j"
        if "j < Suc ?n" for j
      proof -
        have "ldw s' (data_addr ?i (rx_buf r) j) = ldw ?u (data_addr ?i (rx_buf r) j)"
          using mii_commit_frame [OF c] data_addr_header [OF room that] by (auto simp: buf)
        then show ?thesis
          using that t(4) [of j] data_addr_inj [OF room that, of ?n]
          by (cases "j = ?n") (auto simp: nth_append buf)
      qed
      then have "packet_words s' (buf_of_hdr ?w) (Suc ?n) = ws @ [drop_bit (32 - taillen) tail]"
        by (intro nth_equalityI)
          (auto simp: packet_words_addr [OF info'] same buf simp del: upt_Suc)
      moreover have "mii_packet_get f ?u (buf_of_hdr ?w) = mii_packet_get f ?t (buf_of_hdr ?w)" for f
        using header_addr_apart(1) [OF room, of ?n f, folded buf]
        by (auto simp: mii_packet_get_def buf)
      ultimately show ?thesis
        using False commit res t(5-7) mii_commit_fields [OF c False]
        by (auto simp: rx_result_def buf split: if_splits)
    qed
  qed
qed

lemma pending_in: "h \<in> pending q \<Longrightarrow> h \<in> fst ` set q"
  by (force simp: pending_def)

lemma rx_thread_step_inv:
  assumes "rx_thread_step c mp \<sigma> \<sigma>'" "rx_sys_inv mp \<sigma>" and hp: "\<not> rx_hp_queue c"
  shows "rx_sys_inv mp \<sigma>'"
  using assms(1,2)
proof cases
  case (reserve s buf s' q)
  then obtain e where r: "mii_reserve c s mp = (buf, e, s')"
    using hp by (auto simp: rx_reserve_def split: prod.splits)
  then show ?thesis
    using reserve assms(2) mii_reserve_inv [OF _ r] reserve_rx_reserved [OF _ r]
    by (auto simp: rx_sys_inv_def)
next
  case (start_frame s buf cnt time w0 w1 w2 w3 w4 w5 r s' cnt' q)
  have nz: "buf \<noteq> 0" using start_frame(3) hp by (auto simp: rx_start_def)
  then show ?thesis
    using start_frame assms(2) start_busy [OF _ hp _ nz start_frame(3)]
    by (auto simp: rx_sys_inv_def)
next
  case (drop_frame s buf cnt time hdr s' cnt' q)
  then have "s' = s"
    using hp by (auto simp: rx_start_def Let_def split: prod.splits if_splits)
  then show ?thesis
    using drop_frame assms(2) by (auto simp: rx_sys_inv_def)
next
  case (word s r w s' r' ws q)
  then show ?thesis
    using assms(2) word_busy [OF _ _ word(3)] by (auto simp: rx_sys_inv_def)
next
  case (commit s r taillen tail buf s' ws q)
  then show ?thesis
    using assms(2) eof_refines [OF _ _ commit(3), of mp q ws] by (auto simp: rx_sys_inv_def)
next
  case (discard s r taillen tail s' ws q)
  then show ?thesis
    using assms(2) eof_refines [OF _ _ discard(3), of mp q ws] by (auto simp: rx_sys_inv_def)
qed

lemma rx_other_step_inv:
  assumes "rx_other_step mp \<sigma> \<sigma>'" "rx_sys_inv mp \<sigma>"
  shows "rx_sys_inv mp \<sigma>'"
  using assms(1)
proof cases
  case (free h q s s' p)
  have inv: "pool_inv s mp q" and ph: "rx_phase_inv s mp p"
    using free assms(2) by (auto simp: rx_sys_inv_def)
  note h = pending_in [OF free(3)]
  have "pool_inv s' mp (free_spec h q)"
    using mii_free_refines [OF inv h] free(4) by auto
  then show ?thesis
    using tolerated_phase [OF pool_inv_wf [OF inv] free_tolerated [OF inv h free(4)] ph] free
    by (simp add: rx_sys_inv_def)
next
  case (field h q s p f x)
  have inv: "pool_inv s mp q" and ph: "rx_phase_inv s mp p"
    using field assms(2) by (auto simp: rx_sys_inv_def)
  note h = pending_in [OF field(3)]
  show ?thesis
    using tolerated_phase [OF pool_inv_wf [OF inv] field_tolerated [OF h] ph]
      field_pool_inv [OF inv h] field by (simp add: rx_sys_inv_def)
qed

lemma rx_step_inv:
  "rx_step c mp \<sigma> \<sigma>' \<Longrightarrow> rx_sys_inv mp \<sigma> \<Longrightarrow> \<not> rx_hp_queue c \<Longrightarrow> rx_sys_inv mp \<sigma>'"
  by (auto simp: rx_step_def intro: rx_thread_step_inv rx_other_step_inv)

lemma rx_reachable_inv:
  "rx_reachable c mp \<sigma> \<sigma>' \<Longrightarrow> rx_sys_inv mp \<sigma> \<Longrightarrow> \<not> rx_hp_queue c \<Longrightarrow> rx_sys_inv mp \<sigma>'"
  by (induction rule: rx_reachable.induct) (auto intro: rx_step_inv)

subsection \<open>What the receive thread writes\<close>

text \<open>The receive thread stores in the free part of the pool only.\<close>

definition writes_free :: "ram \<Rightarrow> addr \<Rightarrow> ram \<Rightarrow> bool" where
  "writes_free s mp s' \<longleftrightarrow>
     (\<forall>a. ldw s' a \<noteq> ldw s a \<longrightarrow>
        pool_start (pools s mp) \<le> a \<and> a < pool_end (pools s mp) \<and>
        off (pools s mp) (wrptr (pools s mp)) \<le> off (pools s mp) a)"

lemma writes_free_refl: "writes_free s mp s"
  by (simp add: writes_free_def)

lemma writes_free_trans:
  "writes_free s mp t \<Longrightarrow> writes_free t mp u \<Longrightarrow> pools t mp = pools s mp \<Longrightarrow> writes_free s mp u"
  unfolding writes_free_def by metis

lemma writes_free_header:
  assumes wf: "pool_wf s mp q" and room: "88 \<le> free_bytes (pools s mp)"
    and "\<And>a. a < wrptr (pools s mp) \<or> wrptr (pools s mp) + 48 \<le> a \<Longrightarrow> ldw s' a = ldw s a"
  shows "writes_free s mp s'"
  unfolding writes_free_def
proof (intro allI impI)
  let ?i = "pools s mp"
  fix a assume "ldw s' a \<noteq> ldw s a"
  then have "wrptr ?i \<le> a" "a < wrptr ?i + 48"
    using assms(3) by (meson linorder_not_less)+
  then show "pool_start ?i \<le> a \<and> a < pool_end ?i \<and> off ?i (wrptr ?i) \<le> off ?i a"
    using room pool_wf_wr_slot [OF wf] by (auto simp: slot_ok_def free_bytes_def off_def split: if_splits)
qed

lemma writes_free_packet_set:
  assumes "pool_wf s mp q" "rx_reserved s mp buf"
  shows "writes_free s mp (mii_packet_set f s buf x)"
  using assms BUF_OFFSET_range [of f]
  by (intro writes_free_header)
    (auto simp: rx_reserved_def mii_packet_set_def buf_of_hdr_def sizeof_malloc_hdr_def
      BUF_DATA_OFFSET_def)

lemma writes_free_data:
  assumes wf: "pool_wf s mp q" and k: "48 + 4 * int k < free_bytes (pools s mp)"
  shows "writes_free s mp (stw s (data_addr (pools s mp) (buf_of_hdr (wrptr (pools s mp))) k) w)"
proof -
  have room: "packet_room s mp (wrptr (pools s mp)) k"
    using wr_packet_room [OF wf] k by simp
  show ?thesis
    using data_addr_range [OF room, of k] data_addr_off [OF wf k] by (auto simp: writes_free_def)
qed

lemma writes_free_stw_data:
  assumes "pool_wf s mp q" "writes_free s mp t" "pools t = pools s" "48 + 4 * int k < free_bytes (pools s mp)"
  shows "writes_free s mp (stw t (data_addr (pools s mp) (buf_of_hdr (wrptr (pools s mp))) k) w)"
  using assms writes_free_data [OF assms(1,4), of w]
  by (auto simp: writes_free_def split: if_splits)

lemma writes_free_set:
  assumes "pool_wf s mp q" "writes_free s mp t" "rx_reserved s mp buf"
  shows "writes_free s mp (mii_packet_set f t buf x)"
proof -
  have "ldw (mii_packet_set f t buf x) a = ldw t a
      \<or> a = buf + 4 * BUF_OFFSET f" for a
    using ldw_packet_set by metis
  moreover have "writes_free s mp (stw s (buf + 4 * BUF_OFFSET f) (ldw s (buf + 4 * BUF_OFFSET f) + 1))"
    using writes_free_packet_set [OF assms(1,3), of f] by (simp add: mii_packet_set_def)
  ultimately show ?thesis
    using assms(2) unfolding writes_free_def by (smt (verit, best) ldw_stw add_cancel_left_right zero_neq_one)
qed

lemma eof_writes_free:
  assumes inv: "pool_inv s mp q" and b: "rx_busy s mp r ws"
    and eof: "rx_eof c s r taillen tail = (res, s')"
  shows "writes_free s mp s'"
proof -
  let ?t = "eof_header s r taillen" and ?w = "wrptr (pools s mp)" and ?i = "pools s mp"
  let ?n = "length ws" and ?e = "data_addr (pools s mp) (rx_buf r) (length ws)"
  note t = eof_header_spec [OF inv b, where taillen = taillen] and wf = pool_inv_wf [OF inv]
  have buf: "rx_buf r = buf_of_hdr ?w" and le: "48 + 4 * int ?n \<le> free_bytes ?i" and n: "6 \<le> ?n"
    and d: "rx_dptr r = ?e" and rd: "rx_rdptr r = mp" and res: "rx_reserved s mp (rx_buf r)"
    using b by (auto simp: rx_busy_def rx_reserved_def)
  have five: "mii_packet_get_data_ptr (rx_buf r) + 20 = data_addr ?i (rx_buf r) 5"
    using data_addr_first [OF pool_wf_wr_slot [OF wf], of 5] by (simp add: buf)
  have first: "writes_free s mp (stw s (mii_packet_get_data_ptr (rx_buf r) + 20) x)" for x
    using writes_free_stw_data [OF wf writes_free_refl refl, of 5 x] le n by (simp add: five [unfolded buf] buf)
  have wt: "writes_free s mp ?t"
    unfolding eof_header_def Let_def mii_packet_set_data_word_def
    using first by (intro writes_free_set [OF wf _ res]) simp
  show ?thesis
  proof (cases "?e = rdptr ?i")
    case True
    then show ?thesis using eof t wt by (auto simp: rx_eof_split d rd ldw_rdptr_def Let_def)
  next
    case False
    let ?u = "stw ?t ?e (drop_bit (32 - taillen) tail)"
    have lt: "48 + 4 * int ?n < free_bytes ?i"
      using data_addr_rdptr [OF wf] le buf False by fastforce
    have wu: "writes_free s mp ?u"
      unfolding buf using lt by (intro writes_free_stw_data [OF wf wt t(2)])
    obtain ok where c: "mii_commit c ?u (buf_of_hdr ?w) ?e = (ok, s')"
      using eof False
      by (auto simp: rx_eof_split d rd ldw_rdptr_def Let_def t(2) buf split: prod.splits)
    have "writes_free ?u mp s'"
      using res t(1) mii_commit_frame [OF c] data_store_pool_inv [OF t(1)] lt
      by (intro writes_free_header [of _ _ q]) (auto simp: t(2) rx_reserved_def buf intro: pool_inv_wf)
    then show ?thesis using wu writes_free_trans t(2) by simp
  qed
qed

lemma rx_thread_step_writes_free:
  assumes "rx_thread_step c mp \<sigma> \<sigma>'" and inv: "rx_sys_inv mp \<sigma>" and hp: "\<not> rx_hp_queue c"
  shows "writes_free (sys_ram \<sigma>) mp (sys_ram \<sigma>')"
  using assms(1)
proof cases
  case (reserve s buf s' q)
  then obtain e where r: "mii_reserve c s mp = (buf, e, s')" and i: "pool_inv s mp q"
    using hp inv by (auto simp: rx_reserve_def rx_sys_inv_def split: prod.splits)
  show ?thesis
  proof (cases "buf = 0")
    case True
    then have "s' = s"
      using r pool_wf_wr_slot [OF pool_inv_wf [OF i]] pool_wf_shape [OF pool_inv_wf [OF i]]
      by (auto simp: mii_reserve_def Let_def buf_of_hdr_def pool_layout_defs split: if_splits)
    then show ?thesis using reserve by (simp add: writes_free_refl)
  next
    case False
    note sp = mii_reserve_space [OF pool_inv_wf [OF i] r False]
    show ?thesis
      unfolding reserve(1,2) using sp by (auto intro!: writes_free_header [OF pool_inv_wf [OF i] sp(4)])
  qed
next
  case (start_frame s buf cnt time w0 w1 w2 w3 w4 w5 r s' cnt' q)
  have nz: "buf \<noteq> 0" using start_frame(3) hp by (auto simp: rx_start_def)
  let ?w = "wrptr (pools s mp)" and ?d = "mii_packet_get_data_ptr buf"
  have res: "rx_reserved s mp buf" and i: "pool_inv s mp q"
    using inv start_frame nz by (auto simp: rx_sys_inv_def)
  note wf = pool_inv_wf [OF i]
  have buf: "buf = buf_of_hdr ?w" and free: "88 \<le> free_bytes (pools s mp)"
    using res by (auto simp: rx_reserved_def)
  have store: "writes_free s mp (stw t (?d + 4 * int k) w)"
    if "writes_free s mp t" "pools t = pools s" "k < 10" for t k w
    using writes_free_stw_data [OF wf that(1,2), of k w] that free
      data_addr_first [OF pool_wf_wr_slot [OF wf] that(3)] by (simp add: buf)
  show ?thesis
    using start_frame store [OF store [OF store [OF store [OF store [OF writes_free_refl, of 0 w0],
      of 1 w1], of 2 w2], of 3 w3], of 4 w4] by (auto simp: rx_start_lp [OF hp nz] Let_def)
next
  case (drop_frame s buf cnt time hdr s' cnt' q)
  then have "s' = s"
    using hp by (auto simp: rx_start_def Let_def split: prod.splits if_splits)
  then show ?thesis using drop_frame by (simp add: writes_free_refl)
next
  case (word s r w s' r' ws q)
  have i: "pool_inv s mp q" and b: "rx_busy s mp r ws"
    using word inv by (auto simp: rx_sys_inv_def)
  note wf = pool_inv_wf [OF i]
  show ?thesis
  proof (cases "rx_dptr r = ldw_rdptr s (rx_rdptr r)")
    case True
    then show ?thesis using word by (auto simp: rx_word_def writes_free_refl)
  next
    case False
    then have "48 + 4 * int (length ws) < free_bytes (pools s mp)"
      using b data_addr_rdptr [OF wf, of "length ws"]
      by (force simp: rx_busy_def rx_reserved_def ldw_rdptr_def)
    then show ?thesis
      using False word b writes_free_stw_data [OF wf writes_free_refl refl]
      by (auto simp: rx_word_def Let_def mii_packet_set_data_word_def rx_busy_def rx_reserved_def)
  qed
next
  case (commit s r taillen tail buf s' ws q)
  then show ?thesis using inv eof_writes_free [OF _ _ commit(3)] by (auto simp: rx_sys_inv_def)
next
  case (discard s r taillen tail s' ws q)
  then show ?thesis using inv eof_writes_free [OF _ _ discard(3)] by (auto simp: rx_sys_inv_def)
qed

subsection \<open>What happens to a published packet\<close>

text \<open>
  A commit links the packet to the new write pointer. Every kept word lies before it; the word with
  the left over bits lies exactly there, unless the write pointer went to the head of the pool.
\<close>

lemma commit_places:
  assumes inv: "pool_inv s mp q" and b: "rx_busy s mp r ws"
    and eof: "rx_eof c s r taillen tail = (Some buf, s')"
    and i: "i = pools s mp" and w: "w = wrptr (pools s' mp)"
  shows "ldw s' (wrptr i) = word_of_int w"
    "w = data_addr i buf (length ws) \<or> w = pool_start i"
    "\<And>k. k < length ws \<Longrightarrow> off i (wrptr i) + 48 \<le> off i (data_addr i buf k) \<and> off i (data_addr i buf k) < off i w"
proof -
  let ?t = "eof_header s r taillen" and ?n = "length ws" and ?e = "data_addr i (rx_buf r) (length ws)"
  let ?u = "stw ?t ?e (drop_bit (32 - taillen) tail)"
  note t = eof_header_spec [OF inv b, where taillen = taillen] and wf = pool_inv_wf [OF inv]
  have rb: "rx_buf r = buf_of_hdr (wrptr i)" and le: "48 + 4 * int ?n \<le> free_bytes i"
    and d: "rx_dptr r = ?e" and rd: "rx_rdptr r = mp"
    using b by (auto simp: rx_busy_def rx_reserved_def i)
  have ne: "?e \<noteq> rdptr i" using eof by (auto simp: rx_eof_split d rd ldw_rdptr_def Let_def t(2) i)
  then have lt: "48 + 4 * int ?n < free_bytes i"
    using data_addr_rdptr [OF wf] le rb unfolding i by fastforce
  obtain ok where c: "mii_commit c ?u (buf_of_hdr (wrptr i)) ?e = (ok, s')" "ok \<noteq> 0" and buf: "buf = rx_buf r"
    using eof ne by (auto simp: rx_eof_split d rd ldw_rdptr_def Let_def t(2) rb i split: prod.splits if_splits)
  have room: "packet_room s mp (wrptr i) (Suc ?n)"
    unfolding i
  proof (rule wr_packet_room [OF wf])
    have "4 dvd free_bytes i" unfolding i by (rule free_bytes_dvd [OF wf])
    then show "48 + 4 * int (Suc ?n) \<le> free_bytes (pools s mp)" using lt unfolding i by presburger
  qed
  note e = data_addr_range [OF room, of ?n, folded i] data_addr_header [OF room, of ?n, folded i]
  have info: "hdr_info ?u (wrptr i) = mp"
    using t(3) e by (auto simp: rx_reserved_def hdr_info_def t(2) i rb)
  have off_e: "off i (data_addr i (rx_buf r) k) = off i (wrptr i) + 48 + 4 * int k" if "k \<le> ?n" for k
    using data_addr_off [OF wf, of k] that lt by (simp add: rb i)
  have "pool_inv ?u mp q" using data_store_pool_inv [OF t(1)] lt by (simp add: t(2) rb i)
  from mii_commit_refines [OF this _ _ _ _ _ _ c(1)]
  have W: "w = commit_end i ?e" "\<not> (commit_wraps i ?e \<and> rdptr i = pool_start i)"
    using info e off_e [of ?n] c(2) by (auto simp: t(2) i w rb split: if_splits)
  show "w = data_addr i buf (length ws) \<or> w = pool_start i"
    by (simp add: W(1) commit_end_def buf)
  have "off i ?e \<le> off i w"
    using commit_end_slot(2) [of i mp ?e] pool_wf_shape [OF wf] pool_wf_rd_slot [OF wf] e W by (simp add: i rb)
  then show "off i (wrptr i) + 48 \<le> off i (data_addr i buf k) \<and> off i (data_addr i buf k) < off i w"
    if "k < length ws" for k
    using that off_e [of k] off_e [of ?n] by (simp add: buf)
  show "ldw s' (wrptr i) = word_of_int w"
    using c info by (auto simp: mii_commit_def Let_def w split: if_splits)
qed

lemma rdptr_header: "pool_wf s mp q \<Longrightarrow> q \<noteq> [] \<Longrightarrow> rdptr (pools s mp) \<in> fst ` set q"
  using chain_start [OF pool_wf_chain] by (cases q) auto

text \<open>A word between the headers of a packet and the next header is no word of any header.\<close>

lemma data_off_headers:
  assumes wf: "pool_wf s mp q" and i: "i = pools s mp" and hs: "hs = map fst q @ [wrptr i]"
    and j: "j < length q" and a: "pool_start i \<le> a" "a < pool_end i"
    and between: "off i (hs ! j) + 48 \<le> off i a" "off i a < off i (hs ! Suc j)" and g: "g \<in> fst ` set q"
  shows "a < g \<or> g + 48 \<le> a"
proof -
  have sorted: "sorted_wrt (\<lambda>a b. off i a + 48 \<le> off i b) hs"
    using wf by (simp add: pool_wf_def Let_def spaced_def hs i)
  obtain k where k: "k < length q" "g = hs ! k"
    using g by (auto simp: hs in_set_conv_nth nth_append)
  have sg: "slot_ok i g" and sr: "slot_ok i (rdptr i)"
    using pool_wf_slot [OF wf g] pool_wf_rd_slot [OF wf] by (simp_all add: i)
  show ?thesis
  proof (cases "k \<le> j")
    case True
    then have "off i g \<le> off i (hs ! j)"
      using sorted_wrt_nth_less [OF sorted, of k j] k j by (cases "k = j") (auto simp: hs)
    then show ?thesis using beyond_slot [OF sr sg a] between(1) by simp
  next
    case False
    then have "off i (hs ! Suc j) \<le> off i g"
      using sorted_wrt_nth_less [OF sorted, of "Suc j" k] k j by (cases "k = Suc j") (auto simp: hs)
    then have lt: "off i a < off i g" using between(2) by simp
    have "rdptr i = g \<or> 48 \<le> \<bar>rdptr i - g\<bar>"
      using pool_wf_apart [OF wf rdptr_header [OF wf] g] j by (force simp: i)
    then show ?thesis using lt sg by (auto simp: off_def slot_ok_def split: if_splits)
  qed
qed

lemma rx_step_keeps_data:
  assumes inv: "rx_sys_inv mp \<sigma>" and hp: "\<not> rx_hp_queue c" and st: "rx_step c mp \<sigma> \<sigma>'"
    and i: "i = pools (sys_ram \<sigma>) mp" and hs: "hs = map fst (sys_queue \<sigma>) @ [wrptr i]"
    and j: "j < length (sys_queue \<sigma>)" and a: "pool_start i \<le> a" "a < pool_end i"
    and between: "off i (hs ! j) + 48 \<le> off i a" "off i a < off i (hs ! Suc j)"
  shows "ldw (sys_ram \<sigma>') a = ldw (sys_ram \<sigma>) a"
proof -
  have pinv: "pool_inv (sys_ram \<sigma>) mp (sys_queue \<sigma>)" using inv by (simp add: rx_sys_inv_def)
  note wf = pool_inv_wf [OF pinv] and apart = data_off_headers [OF pool_inv_wf [OF pinv] i hs j a between]
  have "off i (hs ! Suc j) \<le> off i (wrptr i)"
  proof (cases "Suc j = length (sys_queue \<sigma>)")
    case False
    then have "hs ! Suc j \<in> fst ` set (sys_queue \<sigma>)" using j by (simp add: hs nth_append)
    then show ?thesis using pool_wf_before_wr [OF wf, of "hs ! Suc j"] by (simp add: i)
  qed (simp add: hs nth_append)
  then have thread: "ldw (sys_ram \<sigma>') a = ldw (sys_ram \<sigma>) a" if "rx_thread_step c mp \<sigma> \<sigma>'"
    using rx_thread_step_writes_free [OF that inv hp] between(2) by (force simp: writes_free_def i)
  have other: "ldw (sys_ram \<sigma>') a = ldw (sys_ram \<sigma>) a" if "rx_other_step mp \<sigma> \<sigma>'"
    using that
  proof cases
    case (free h q t t' p)
    then show ?thesis
      using mii_free_frame(5) [OF pinv, of h t' a] pending_in [OF free(3)] apart by fastforce
  next
    case (field h q t p f x)
    then show ?thesis
      using apart [of h] pending_in [OF field(3)] BUF_OFFSET_range [of f]
        ldw_packet_set [of a "buf_of_hdr h" f] by (force simp: buf_of_hdr_def sizeof_malloc_hdr_def BUF_DATA_OFFSET_def)
  qed
  show ?thesis using st thread other by (auto simp: rx_step_def)
qed

subsection \<open>A whole frame\<close>

lemma rx_words_busy:
  "rx_reachable c mp \<sigma> \<lparr>sys_ram = s, sys_phase = RxBusy r ws0, sys_queue = q\<rparr> \<Longrightarrow>
     pool_inv s mp q \<Longrightarrow> rx_busy s mp r ws0 \<Longrightarrow> rx_words s r ws = (s', r') \<Longrightarrow>
     48 + 4 * int (length ws0 + length ws) \<le> free_bytes (pools s mp) \<Longrightarrow>
     pool_inv s' mp q \<and> rx_busy s' mp r' (ws0 @ ws) \<and> pools s' = pools s \<and> rx_time r' = rx_time r \<and>
     rx_reachable c mp \<sigma> \<lparr>sys_ram = s', sys_phase = RxBusy r' (ws0 @ ws), sys_queue = q\<rparr>"
proof (induction ws arbitrary: s r ws0)
  case Nil
  then show ?case by simp
next
  case (Cons w ws)
  note wf = pool_inv_wf [OF Cons.prems(2)]
  obtain s1 r1 where w: "rx_word s r w = (s1, r1)" by (metis prod.exhaust)
  have ne: "rx_dptr r \<noteq> ldw_rdptr s (rx_rdptr r)"
    using Cons.prems(3,5) data_addr_rdptr [OF wf, of "length ws0"]
    by (auto simp: rx_busy_def rx_reserved_def ldw_rdptr_def)
  then have p: "pools s1 = pools s" "rx_time r1 = rx_time r" and k: "rx_kept s r w ws0 = ws0 @ [w]"
    using w by (auto simp: rx_word_def Let_def rx_kept_def mii_packet_set_data_word_def)
  have "rx_step c mp \<lparr>sys_ram = s, sys_phase = RxBusy r ws0, sys_queue = q\<rparr>
      \<lparr>sys_ram = s1, sys_phase = RxBusy r1 (ws0 @ [w]), sys_queue = q\<rparr>"
    using rx_thread_step.word [OF w, of c mp ws0 q] k by (simp add: rx_step_def)
  from rx_reachable.step [OF Cons.prems(1) this]
  have "pool_inv s' mp q \<and> rx_busy s' mp r' ((ws0 @ [w]) @ ws) \<and> pools s' = pools s1 \<and>
      rx_time r' = rx_time r1 \<and> rx_reachable c mp \<sigma>
        \<lparr>sys_ram = s', sys_phase = RxBusy r' ((ws0 @ [w]) @ ws), sys_queue = q\<rparr>"
    using word_busy [OF Cons.prems(2,3) w] Cons.prems(4,5) w p k by (intro Cons.IH) auto
  then show ?case using p by simp
qed

lemma eof_accepts:
  assumes inv: "pool_inv s mp q" and b: "rx_busy s mp r ws"
    and room: "48 + 4 * int (length ws) + 88 \<le> free_bytes (pools s mp)"
    and eof: "rx_eof c s r taillen tail = (res, s')"
  shows "res = Some (rx_buf r)"
proof -
  let ?t = "eof_header s r taillen" and ?w = "wrptr (pools s mp)" and ?i = "pools s mp"
  let ?n = "length ws" and ?e = "data_addr (pools s mp) (rx_buf r) (length ws)"
  note t = eof_header_spec [OF inv b, where taillen = taillen] and wf = pool_inv_wf [OF inv]
  have buf: "rx_buf r = buf_of_hdr ?w" and d: "rx_dptr r = ?e" and rd: "rx_rdptr r = mp"
    using b by (auto simp: rx_busy_def rx_reserved_def)
  have room': "packet_room s mp ?w ?n" using wr_packet_room [OF wf, of ?n] room by simp
  have ne: "?e \<noteq> rdptr ?i"
    using data_addr_rdptr [OF wf, of ?n] room buf by simp
  let ?u = "stw ?t ?e (drop_bit (32 - taillen) tail)"
  obtain ok where c: "mii_commit c ?u (buf_of_hdr ?w) ?e = (ok, s')"
    and res: "res = (if ok \<noteq> 0 then Some (rx_buf r) else None)"
    using eof ne by (auto simp: rx_eof_split d rd ldw_rdptr_def Let_def t(2) buf split: prod.splits)
  note e = data_addr_range [OF room', of ?n, folded buf]
  have o: "off ?i ?e = off ?i ?w + 48 + 4 * int ?n"
    using data_addr_off [OF wf, of ?n] room by (simp add: buf)
  have "ldw ?u (?w + 4) = ldw ?t (?w + 4)"
    using header_addr_apart(3) [OF wr_packet_room [OF wf], of "Suc ?n" ?n] room by (simp add: buf)
  then have info: "hdr_info ?u ?w = mp"
    using t(3) by (simp add: rx_reserved_def hdr_info_def t(2))
  have "\<not> (commit_wraps ?i ?e \<and> rdptr ?i = pool_start ?i)"
    using o room e by (auto simp: commit_wraps_def off_def free_bytes_def pool_len_def split: if_splits)
  moreover have "pool_inv ?u mp q"
    using data_store_pool_inv [OF t(1), of ?n] room by (simp add: t(2) buf)
  ultimately have "ok = 1"
    using mii_commit_refines [OF _ _ info _ _ _ _ c, of q] e o by (auto simp: t(2) split: if_splits)
  then show ?thesis using res by simp
qed

lemma rx_reserve_lp:
  assumes inv: "pool_inv s mp q" and hp: "\<not> rx_hp_queue c" and room: "88 \<le> free_bytes (pools s mp)"
  shows "\<exists>s'. rx_reserve c s 0 mp = (0, buf_of_hdr (wrptr (pools s mp)), s') \<and> pool_inv s' mp q \<and>
    pools s' = pools s \<and> rx_reserved s' mp (buf_of_hdr (wrptr (pools s mp)))"
proof -
  note wf = pool_inv_wf [OF inv]
  obtain buf e s' where r: "mii_reserve c s mp = (buf, e, s')" by (metis prod_cases3)
  have nz: "buf \<noteq> 0"
    using r room pool_wf_wr_slot [OF wf] pool_wf_rd_slot [OF wf] pool_wf_shape [OF wf]
    by (auto simp: mii_reserve_def Let_def free_bytes_def pool_layout_defs to_unsigned_id
        buf_of_hdr_def split: if_splits)
  then show ?thesis
    using r hp mii_reserve_space(1) [OF wf r nz] mii_reserve_inv [OF inv r]
      reserve_rx_reserved [OF inv r nz] by (simp add: rx_reserve_def)
qed

lemma rx_frame_runs:
  assumes inv: "pool_inv s mp q" and hp: "\<not> rx_hp_queue c"
    and room: "48 + 4 * (6 + int (length ws)) + 88 \<le> free_bytes (pools s mp)"
  shows "\<exists>r t. pool_inv t mp q \<and> rx_busy t mp r ([w0, w1, w2, w3, w4, w5] @ ws) \<and>
    pools t = pools s \<and> rx_time r = time \<and>
    rx_reachable c mp \<lparr>sys_ram = s, sys_phase = RxIdle, sys_queue = q\<rparr>
      \<lparr>sys_ram = t, sys_phase = RxBusy r ([w0, w1, w2, w3, w4, w5] @ ws), sys_queue = q\<rparr> \<and>
    (\<forall>taillen tail. rx_frame c s 0 mp cnt time (w0, w1, w2, w3, w4, w5) ws taillen tail
       = (let (res, t') = rx_eof c t r taillen tail in (res, t', cnt)))"
proof -
  note wf = pool_inv_wf [OF inv]
  let ?buf = "buf_of_hdr (wrptr (pools s mp))" and ?hdr = "[w0, w1, w2, w3, w4, w5]"
  let ?i = "\<lparr>sys_ram = s, sys_phase = RxIdle, sys_queue = q\<rparr>"
  have nz: "?buf \<noteq> 0"
    using pool_wf_wr_slot [OF wf] pool_wf_shape [OF wf] by (auto simp: buf_of_hdr_def pool_layout_defs)
  obtain s1 where s1: "rx_reserve c s 0 mp = (0, ?buf, s1)" "pool_inv s1 mp q" "pools s1 = pools s"
    "rx_reserved s1 mp ?buf"
    using rx_reserve_lp [OF inv hp] room by auto
  obtain r2 s2 where st: "rx_start c s1 0 mp 0 ?buf cnt time (w0, w1, w2, w3, w4, w5) = (Some r2, s2, cnt)"
    using rx_start_lp [OF hp nz] by blast
  have p2: "pools s2 = pools s" and r2: "rx_time r2 = time"
    using st s1(3) by (auto simp: rx_start_lp [OF hp nz] Let_def)
  note b2 = start_busy [OF s1(2) hp s1(4) nz st]
  have "rx_step c mp ?i \<lparr>sys_ram = s1, sys_phase = RxReserved ?buf, sys_queue = q\<rparr>"
    "rx_step c mp \<lparr>sys_ram = s1, sys_phase = RxReserved ?buf, sys_queue = q\<rparr>
       \<lparr>sys_ram = s2, sys_phase = RxBusy r2 ?hdr, sys_queue = q\<rparr>"
    using rx_thread_step.reserve [OF s1(1)] rx_thread_step.start_frame [OF st]
    by (simp_all add: rx_step_def)
  then have reach: "rx_reachable c mp ?i \<lparr>sys_ram = s2, sys_phase = RxBusy r2 ?hdr, sys_queue = q\<rparr>"
    by (blast intro: rx_reachable.intros)
  obtain r3 s3 where ws: "rx_words s2 r2 ws = (s3, r3)" by (metis prod.exhaust)
  have b3: "pool_inv s3 mp q \<and> rx_busy s3 mp r3 (?hdr @ ws) \<and> pools s3 = pools s2 \<and>
      rx_time r3 = rx_time r2 \<and> rx_reachable c mp ?i
        \<lparr>sys_ram = s3, sys_phase = RxBusy r3 (?hdr @ ws), sys_queue = q\<rparr>"
    using room p2 by (intro rx_words_busy [OF reach b2 ws]) simp
  have "rx_frame c s 0 mp cnt time (w0, w1, w2, w3, w4, w5) ws taillen tail
      = (let (res, t') = rx_eof c s3 r3 taillen tail in (res, t', cnt))" for taillen tail
    by (simp only: rx_frame_def Let_def s1(1) st ws split_conv prod.case option.case)
  then show ?thesis using b3 p2 r2 by metis
qed

text \<open>C17: A frame that fits is received completely. In a build without the high priority queue, when
the free space of the pool exceeds the packet (header, words, tail) by the space a further packet
needs, a turn of the receive loop hands exactly one packet to the filter. It is appended to the
queue of the pool and holds the first six words, the later words and the left over bits, with
the length in bytes, the checksum of all words before the tail and the arrival time; the counter
of dropped frames does not move.\<close>

theorem rx_frame_received:
  assumes inv: "pool_inv s mp q" and hp: "\<not> rx_hp_queue c"
    and room: "48 + 4 * (6 + int (length ws)) + 88 \<le> free_bytes (pools s mp)"
  shows "\<exists>buf s'. rx_frame c s 0 mp cnt time (w0, w1, w2, w3, w4, w5) ws taillen tail
      = (Some buf, s', cnt) \<and>
    pool_inv s' mp (q @ [(hdr_of_buf buf, False)]) \<and>
    packet_words s' buf (length ws + 7)
      = [w0, w1, w2, w3, w4, w5] @ ws @ [drop_bit (32 - taillen) tail] \<and>
    mii_packet_get_length s' buf = word_of_int (4 * (int (length ws) + 5) + int (taillen div 8)) \<and>
    mii_packet_get_crc s' buf = fold (\<lambda>w r. crc32 r w) ([w0, w1, w2, w3, w4, w5] @ ws) crc_init \<and>
    mii_packet_get_timestamp s' buf = time \<and> mii_packet_get_stage s' buf = 0"
proof -
  let ?hdr = "[w0, w1, w2, w3, w4, w5]"
  obtain r t where b: "pool_inv t mp q" "rx_busy t mp r (?hdr @ ws)"
    and p: "pools t = pools s" "rx_time r = time"
    and f: "rx_frame c s 0 mp cnt time (w0, w1, w2, w3, w4, w5) ws taillen tail
       = (let (res, t') = rx_eof c t r taillen tail in (res, t', cnt))"
    using rx_frame_runs [OF assms] by metis
  obtain res t' where eof: "rx_eof c t r taillen tail = (res, t')" by (metis prod.exhaust)
  have res: "res = Some (rx_buf r)"
    using eof_accepts [OF b _ eof] room p by simp
  note e = eof_refines [OF b eof, unfolded res option.case]
  have "rx_frame c s 0 mp cnt time (w0, w1, w2, w3, w4, w5) ws taillen tail
      = (Some (rx_buf r), t', cnt)"
    by (simp add: f eof res)
  moreover have "length ws + 7 = Suc (length (?hdr @ ws))"
    "4 * (int (length ws) + 5) = 4 * (int (length (?hdr @ ws)) - 1)"
    by simp_all
  ultimately show ?thesis
    using e p unfolding rx_result_def crc_words_def commit_spec_def append.assoc
    by (intro exI [of _ "rx_buf r"] exI [of _ t']) (simp only: simp_thms)
qed

text \<open>The example is the empty pool with a frame of eight words and half a word left over.\<close>

definition example_empty :: ram where
  "example_empty = mii_init_mempool example_ram 1024 800"

lemma example_empty_inv: "pool_inv example_empty 1024 []"
  by code_simp

theorem rx_frame_received_witness:
  "\<exists>buf s. rx_frame default_config example_empty 0 1024 7 100 (1, 2, 3, 4, 5, 6) [7, 8] 16 0xABCD0000
      = (Some buf, s, 7) \<and>
    packet_words s buf 9 = [1, 2, 3, 4, 5, 6, 7, 8, 0xABCD] \<and> mii_packet_get_length s buf = 30"
proof -
  have "\<not> rx_hp_queue default_config"
    "48 + 4 * (6 + int (length [7, 8 :: word32])) + 88 \<le> free_bytes (pools example_empty 1024)"
    by code_simp+
  from rx_frame_received [OF example_empty_inv this, of 7 100 1 2 3 4 5 6 16 "0xABCD0000"]
  moreover have "length [7, 8 :: word32] + 7 = 9"
    "[1, 2, 3, 4, 5, 6] @ [7, 8] @ [drop_bit (32 - 16) (0xABCD0000 :: word32)]
       = [1, 2, 3, 4, 5, 6, 7, 8, 0xABCD]"
    "word_of_int (4 * (int (length [7, 8 :: word32]) + 5) + int (16 div 8)) = (30 :: word32)"
    by simp_all
  ultimately show ?thesis by metis
qed

text \<open>C1: Interleaving. Start the receive thread on a fresh pool and let it run while other threads
free published packets in any order and write the fields of published packets, at any point
between two waits of the receive thread. In every state that can be reached the pool is well
formed, its queue is what was committed and not yet reclaimed, and the thread's local variables
agree with the memory: the reserved buffer is at the write pointer, the data pointer is behind
the words kept so far, and those words are in the buffer.\<close>

theorem rx_system_safe:
  assumes "0 < mp" "4 dvd mp" "4 dvd bytes" "112 \<le> bytes" "mp + bytes \<le> 2 ^ 31"
    and "\<not> rx_hp_queue c"
    and "rx_reachable c mp \<lparr>sys_ram = mii_init_mempool s mp bytes, sys_phase = RxIdle,
           sys_queue = []\<rparr> \<sigma>"
  shows "pool_inv (sys_ram \<sigma>) mp (sys_queue \<sigma>) \<and> rx_phase_inv (sys_ram \<sigma>) mp (sys_phase \<sigma>)"
proof -
  have "rx_sys_inv mp \<sigma>"
    by (rule rx_reachable_inv [OF assms(7) _ assms(6)])
      (simp add: rx_sys_inv_def mii_init_mempool_inv [OF assms(1-5)])
  then show ?thesis by (simp add: rx_sys_inv_def)
qed

theorem rx_system_safe_witness:
  "\<exists>buf s. rx_reserve default_config example_empty 0 1024 = (0, buf, s) \<and> pool_inv s 1024 [] \<and>
     (buf = 0 \<or> rx_reserved s 1024 buf)"
proof -
  obtain b buf s where r: "rx_reserve default_config example_empty 0 1024 = (b, buf, s)"
    by (metis prod_cases3)
  have "b = 0" using r by (auto simp: rx_reserve_def default_config_def split: prod.splits)
  let ?i = "\<lparr>sys_ram = mii_init_mempool example_ram 1024 800, sys_phase = RxIdle, sys_queue = []\<rparr>"
  let ?\<sigma> = "\<lparr>sys_ram = s, sys_phase = RxReserved buf, sys_queue = []\<rparr>"
  have "rx_thread_step default_config 1024 ?i ?\<sigma>"
    using r \<open>b = 0\<close> by (intro rx_thread_step.reserve) (simp add: example_empty_def)
  then have "rx_reachable default_config 1024 ?i ?\<sigma>"
    by (intro rx_reachable.step [OF rx_reachable.start]) (simp add: rx_step_def)
  from rx_system_safe [OF _ _ _ _ _ _ this] show ?thesis
    using r \<open>b = 0\<close> by (simp add: default_config_def)
qed

text \<open>C3: Published packets and the receive thread. In every reachable state, a step of the receive
thread changes words only from the write pointer of its own pool round to the read pointer, so no
header of a published packet; and no step of any of the threads changes a word between the headers of
a published packet and the next header (or the write pointer). When a frame is committed, all its
kept words lie in that range, so they stay as they are until the packet is freed. The word with the left
over bits does not: it lies at the new write pointer (unless the pool was wrapped), which is the first
word of the next packet's header, and the next commit stores its link there.\<close>

theorem rx_thread_writes_free_space:
  assumes "0 < mp" "4 dvd mp" "4 dvd bytes" "112 \<le> bytes" "mp + bytes \<le> 2 ^ 31"
    and hp: "\<not> rx_hp_queue c"
    and reach: "rx_reachable c mp \<lparr>sys_ram = mii_init_mempool s mp bytes, sys_phase = RxIdle,
           sys_queue = []\<rparr> \<sigma>"
    and i: "i = pools (sys_ram \<sigma>) mp" and hs: "hs = map fst (sys_queue \<sigma>) @ [wrptr i]"
  shows "(\<forall>\<sigma>' a. rx_thread_step c mp \<sigma> \<sigma>' \<and> ldw (sys_ram \<sigma>') a \<noteq> ldw (sys_ram \<sigma>) a \<longrightarrow>
      pool_start i \<le> a \<and> a < pool_end i \<and> off i (wrptr i) \<le> off i a) \<and>
    (\<forall>\<sigma>' j a. rx_step c mp \<sigma> \<sigma>' \<and> j < length (sys_queue \<sigma>) \<and> pool_start i \<le> a \<and> a < pool_end i \<and>
      off i (hs ! j) + 48 \<le> off i a \<and> off i a < off i (hs ! Suc j) \<longrightarrow>
      ldw (sys_ram \<sigma>') a = ldw (sys_ram \<sigma>) a) \<and>
    (\<forall>r ws taillen tail buf s'. sys_phase \<sigma> = RxBusy r ws \<and>
      rx_eof c (sys_ram \<sigma>) r taillen tail = (Some buf, s') \<longrightarrow>
      (let w = wrptr (pools s' mp) in
        (\<forall>k < length ws. off i (hdr_of_buf buf) + 48 \<le> off i (data_addr i buf k) \<and>
           off i (data_addr i buf k) < off i w) \<and>
        (w = data_addr i buf (length ws) \<or> w = pool_start i) \<and>
        hdr_of_buf buf = wrptr i \<and> ldw s' (wrptr i) = word_of_int w))"
proof -
  have inv: "rx_sys_inv mp \<sigma>"
    by (rule rx_reachable_inv [OF reach _ hp])
      (simp add: rx_sys_inv_def mii_init_mempool_inv [OF assms(1-5)])
  have "pool_start i \<le> a \<and> a < pool_end i \<and> off i (wrptr i) \<le> off i a"
    if "rx_thread_step c mp \<sigma> \<sigma>'" "ldw (sys_ram \<sigma>') a \<noteq> ldw (sys_ram \<sigma>) a" for \<sigma>' a
    using rx_thread_step_writes_free [OF that(1) inv hp] that(2) by (simp add: writes_free_def i)
  moreover have "(\<forall>k < length ws. off i (hdr_of_buf buf) + 48 \<le> off i (data_addr i buf k) \<and>
           off i (data_addr i buf k) < off i (wrptr (pools s' mp))) \<and>
        (wrptr (pools s' mp) = data_addr i buf (length ws) \<or> wrptr (pools s' mp) = pool_start i) \<and>
        hdr_of_buf buf = wrptr i \<and> ldw s' (wrptr i) = word_of_int (wrptr (pools s' mp))"
    if ph: "sys_phase \<sigma> = RxBusy r ws" and eof: "rx_eof c (sys_ram \<sigma>) r taillen tail = (Some buf, s')"
    for r ws taillen tail buf s'
  proof -
    have b: "pool_inv (sys_ram \<sigma>) mp (sys_queue \<sigma>)" "rx_busy (sys_ram \<sigma>) mp r ws"
      using inv ph by (simp_all add: rx_sys_inv_def)
    have h: "hdr_of_buf buf = wrptr i"
      using eof_refines [OF b eof] b(2) by (simp add: rx_busy_def rx_reserved_def i)
    show ?thesis using commit_places [OF b eof i refl] by (simp add: h)
  qed
  ultimately show ?thesis using rx_step_keeps_data [OF inv hp _ i hs] unfolding Let_def by blast
qed

text \<open>A frame of seven words and one byte is committed in the empty pool, whose first header is at 1044.\<close>

theorem rx_thread_writes_free_space_witness:
  "\<exists>t r s'. rx_eof default_config t r 8 0xAB000000 = (Some (rx_buf r), s') \<and>
     ldw s' 1044 = word_of_int (wrptr (pools s' 1024)) \<and>
     (\<forall>k < 7. off (pools t 1024) (data_addr (pools t 1024) (rx_buf r) k) < off (pools t 1024) (wrptr (pools s' 1024)))"
proof -
  have hp: "\<not> rx_hp_queue default_config"
    and room: "48 + 4 * (6 + int (length [7 :: word32])) + 88 \<le> free_bytes (pools example_empty 1024)"
    by code_simp+
  obtain r t where b: "pool_inv t 1024 []" "rx_busy t 1024 r ([1, 2, 3, 4, 5, 6] @ [7])"
    and p: "pools t = pools example_empty"
    and reach: "rx_reachable default_config 1024
      \<lparr>sys_ram = example_empty, sys_phase = RxIdle, sys_queue = []\<rparr>
      \<lparr>sys_ram = t, sys_phase = RxBusy r ([1, 2, 3, 4, 5, 6] @ [7]), sys_queue = []\<rparr>"
    using rx_frame_runs [OF example_empty_inv hp room] by metis
  obtain res s' where eof: "rx_eof default_config t r 8 0xAB000000 = (res, s')"
    by (metis prod.exhaust)
  have res: "res = Some (rx_buf r)"
    using eof_accepts [OF b _ eof] room p by simp
  have w: "wrptr (pools t 1024) = 1044" unfolding p by code_simp
  let ?\<sigma> = "\<lparr>sys_ram = t, sys_phase = RxBusy r ([1, 2, 3, 4, 5, 6] @ [7]), sys_queue = []\<rparr>"
  have "sys_phase ?\<sigma> = RxBusy r ([1, 2, 3, 4, 5, 6] @ [7])" "sys_ram ?\<sigma> = t" by simp_all
  then have "ldw s' 1044 = word_of_int (wrptr (pools s' 1024)) \<and>
     (\<forall>k < length ([1, 2, 3, 4, 5, 6] @ [7 :: word32]).
       off (pools t 1024) (data_addr (pools t 1024) (rx_buf r) k) < off (pools t 1024) (wrptr (pools s' 1024)))"
    using rx_thread_writes_free_space [OF _ _ _ _ _ hp reach [unfolded example_empty_def] refl refl]
      eof [unfolded res] w unfolding Let_def by fastforce
  moreover have "length ([1, 2, 3, 4, 5, 6] @ [7 :: word32]) = 7" by simp
  ultimately show ?thesis using eof res by metis
qed

text \<open>C2: What is handed on. When, in any state that can be reached, the end of a frame makes the
receive thread hand a packet to the filter, that packet is the buffer it reserved, it is at the
end of the pool's queue, and it holds exactly the words of the frame that were kept, the left
over bits, the length, the checksum of the words and the time, whatever the other threads did
meanwhile.\<close>

theorem rx_system_delivers:
  assumes "0 < mp" "4 dvd mp" "4 dvd bytes" "112 \<le> bytes" "mp + bytes \<le> 2 ^ 31"
    and "\<not> rx_hp_queue c"
    and "rx_reachable c mp \<lparr>sys_ram = mii_init_mempool s mp bytes, sys_phase = RxIdle,
           sys_queue = []\<rparr> \<lparr>sys_ram = t, sys_phase = RxBusy r ws, sys_queue = q\<rparr>"
    and "rx_eof c t r taillen tail = (Some buf, t')"
  shows "buf = rx_buf r \<and> pool_inv t' mp (q @ [(hdr_of_buf buf, False)]) \<and>
    packet_words t' buf (Suc (length ws)) = ws @ [drop_bit (32 - taillen) tail] \<and>
    mii_packet_get_length t' buf = word_of_int (4 * (int (length ws) - 1) + int (taillen div 8)) \<and>
    mii_packet_get_crc t' buf = fold (\<lambda>w r. crc32 r w) ws crc_init \<and>
    mii_packet_get_timestamp t' buf = rx_time r"
proof -
  have "rx_sys_inv mp \<lparr>sys_ram = t, sys_phase = RxBusy r ws, sys_queue = q\<rparr>"
    by (rule rx_reachable_inv [OF assms(7) _ assms(6)])
      (simp add: rx_sys_inv_def mii_init_mempool_inv [OF assms(1-5)])
  then show ?thesis
    using eof_refines [OF _ _ assms(8), of mp q ws]
    by (auto simp: rx_sys_inv_def commit_spec_def rx_result_def crc_words_def)
qed

theorem rx_system_delivers_witness:
  "\<exists>t r t'. rx_eof default_config t r 8 0xAB000000 = (Some (rx_buf r), t') \<and>
     packet_words t' (rx_buf r) 8 = [1, 2, 3, 4, 5, 6, 7, 0xAB]"
proof -
  have hp: "\<not> rx_hp_queue default_config"
    and room: "48 + 4 * (6 + int (length [7 :: word32])) + 88 \<le> free_bytes (pools example_empty 1024)"
    by code_simp+
  obtain r t where b: "pool_inv t 1024 []" "rx_busy t 1024 r ([1, 2, 3, 4, 5, 6] @ [7])"
    and p: "pools t = pools example_empty"
    and reach: "rx_reachable default_config 1024
      \<lparr>sys_ram = example_empty, sys_phase = RxIdle, sys_queue = []\<rparr>
      \<lparr>sys_ram = t, sys_phase = RxBusy r ([1, 2, 3, 4, 5, 6] @ [7]), sys_queue = []\<rparr>"
    using rx_frame_runs [OF example_empty_inv hp room] by metis
  obtain res t' where eof: "rx_eof default_config t r 8 0xAB000000 = (res, t')"
    by (metis prod.exhaust)
  have res: "res = Some (rx_buf r)"
    using eof_accepts [OF b _ eof] room p by simp
  have "packet_words t' (rx_buf r) (Suc (length ([1, 2, 3, 4, 5, 6] @ [7 :: word32])))
      = ([1, 2, 3, 4, 5, 6] @ [7]) @ [drop_bit (32 - 8) 0xAB000000]"
    using rx_system_delivers [OF _ _ _ _ _ hp reach [unfolded example_empty_def] eof [unfolded res]]
    by simp
  moreover have "8 = Suc (length ([1, 2, 3, 4, 5, 6] @ [7 :: word32]))"
    "[1, 2, 3, 4, 5, 6, 7, 0xAB] = ([1, 2, 3, 4, 5, 6] @ [7]) @ [drop_bit (32 - 8) (0xAB000000 :: word32)]"
    by simp_all
  ultimately have "packet_words t' (rx_buf r) 8 = [1, 2, 3, 4, 5, 6, 7, 0xAB]" by metis
  then show ?thesis using eof res by blast
qed

end
