(* ===== verification/Ring.thy ===== *)
theory Ring
  imports Prelude
begin

text \<open>
  Circular index queues: an array, a read index and a write index, empty when they are equal.
  The timestamp queues of \<open>mii_queue.c\<close> and the client queues of \<open>ethernet_rx_server.xc\<close>
  are both of this kind. The interface \<open>bounded_fifo\<close> states what a user of such a queue
  relies on; its lemma says that any sequence of operations that stays within the capacity is
  indistinguishable from an unbounded list.
\<close>

text \<open>\<open>i++; i *= (i != n)\<close>.\<close>

definition ring_next :: "nat \<Rightarrow> nat \<Rightarrow> nat" where
  "ring_next n i = (let i = i + 1 in i * (if i \<noteq> n then 1 else 0))"

definition ring_count :: "nat \<Rightarrow> nat \<Rightarrow> nat \<Rightarrow> nat" where
  "ring_count n rd wr = (if rd \<le> wr then wr - rd else wr + n - rd)"

definition ring_list :: "'a list \<Rightarrow> nat \<Rightarrow> nat \<Rightarrow> 'a list" where
  "ring_list xs rd wr =
     map (\<lambda>k. xs ! ((rd + k) mod length xs)) [0..<ring_count (length xs) rd wr]"

lemma ring_next_less [simp]: "i < n \<Longrightarrow> ring_next n i < n"
  by (auto simp: ring_next_def Let_def)

lemma ring_next_mod: "i < n \<Longrightarrow> ring_next n i = (i + 1) mod n"
  by (auto simp: ring_next_def Let_def)

lemma length_ring_list [simp]: "length (ring_list xs rd wr) = ring_count (length xs) rd wr"
  by (simp add: ring_list_def)

lemma ring_list_empty [simp]: "ring_list xs i i = []"
  by (simp add: ring_list_def ring_count_def)

lemma ring_list_Nil_iff:
  "rd < length xs \<Longrightarrow> wr < length xs \<Longrightarrow> ring_list xs rd wr = [] \<longleftrightarrow> rd = wr"
  by (auto simp: ring_list_def ring_count_def)

lemma ring_count_next_wr:
  "rd < n \<Longrightarrow> wr < n \<Longrightarrow> ring_next n wr \<noteq> rd \<Longrightarrow> ring_count n rd (ring_next n wr) = Suc (ring_count n rd wr)"
  by (auto simp: ring_count_def ring_next_def Let_def split: if_splits)

lemma ring_count_next_rd:
  "rd < n \<Longrightarrow> wr < n \<Longrightarrow> rd \<noteq> wr \<Longrightarrow> ring_count n rd wr = Suc (ring_count n (ring_next n rd) wr)"
  by (auto simp: ring_count_def ring_next_def Let_def split: if_splits)

lemma ring_full_iff:
  "rd < n \<Longrightarrow> wr < n \<Longrightarrow> ring_next n wr = rd \<longleftrightarrow> ring_count n rd wr = n - 1"
  by (auto simp: ring_count_def ring_next_def Let_def split: if_splits)

lemma ring_mod_wr: "rd < n \<Longrightarrow> wr < n \<Longrightarrow> (rd + ring_count n rd wr) mod n = wr"
  by (auto simp: ring_count_def)

lemma ring_mod_before_wr:
  assumes "rd < n" "wr < n" "k < ring_count n rd wr"
  shows "(rd + k) mod n \<noteq> wr"
proof -
  have small: "rd + k < n + n"
    using assms by (auto simp: ring_count_def split: if_splits)
  show ?thesis
  proof (cases "rd + k < n")
    case True
    then show ?thesis
      using assms by (auto simp: ring_count_def split: if_splits)
  next
    case False
    then have "(rd + k) mod n = rd + k - n"
      using small by (simp add: le_mod_geq)
    then show ?thesis
      using assms False by (auto simp: ring_count_def split: if_splits)
  qed
qed

lemma ring_list_put:
  assumes "rd < length xs" "wr < length xs" "ring_next (length xs) wr \<noteq> rd"
  shows "ring_list (xs[wr := x]) rd (ring_next (length xs) wr) = ring_list xs rd wr @ [x]"
proof -
  have "xs[wr := x] ! ((rd + k) mod length xs) = xs ! ((rd + k) mod length xs)"
    if "k < ring_count (length xs) rd wr" for k
    using ring_mod_before_wr [OF assms(1,2) that] by simp
  then show ?thesis
    using assms by (simp add: ring_list_def ring_count_next_wr ring_mod_wr)
qed

lemma ring_list_get:
  assumes "rd < length xs" "wr < length xs" "rd \<noteq> wr"
  shows "ring_list xs rd wr = xs ! rd # ring_list xs (ring_next (length xs) rd) wr"
  using assms
  by (simp add: ring_list_def ring_count_next_rd [OF assms] upt_rec [of 0] map_Suc_upt [symmetric]
      ring_next_mod mod_add_left_eq del: upt_Suc)

subsection \<open>The interface of a bounded first-in first-out queue\<close>

datatype 'a fifo_op = Put 'a | Get

text \<open>The outputs of a run, and those of the unbounded list queue, which gives \<open>none\<close> when
nothing is waiting; the option's \<open>None\<close>: over capacity.\<close>

fun fifo_run :: "('s \<Rightarrow> 'a \<Rightarrow> 's) \<Rightarrow> ('s \<Rightarrow> 'a \<times> 's) \<Rightarrow> 's \<Rightarrow> 'a fifo_op list \<Rightarrow> 'a list"
  where
  "fifo_run put get s [] = []"
| "fifo_run put get s (Put x # ops) = fifo_run put get (put s x) ops"
| "fifo_run put get s (Get # ops) =
     (let (r, s') = get s in r # fifo_run put get s' ops)"

fun list_run :: "nat \<Rightarrow> 'a \<Rightarrow> 'a list \<Rightarrow> 'a fifo_op list \<Rightarrow> 'a list option" where
  "list_run cap none xs [] = Some []"
| "list_run cap none xs (Put x # ops) =
     (if length xs < cap then list_run cap none (xs @ [x]) ops else None)"
| "list_run cap none xs (Get # ops) =
     (case xs of [] \<Rightarrow> map_option (Cons none) (list_run cap none [] ops)
      | y # ys \<Rightarrow> map_option (Cons y) (list_run cap none ys ops))"

locale bounded_fifo =
  fixes inv :: "'s \<Rightarrow> bool"
    and contents :: "'s \<Rightarrow> 'a list"
    and cap :: nat
    and none :: 'a
    and put :: "'s \<Rightarrow> 'a \<Rightarrow> 's"
    and get :: "'s \<Rightarrow> 'a \<times> 's"
  assumes inv_put: "inv s \<Longrightarrow> inv (put s x)"
    and contents_put: "inv s \<Longrightarrow> length (contents s) < cap \<Longrightarrow> contents (put s x) = contents s @ [x]"
    and get_empty: "inv s \<Longrightarrow> contents s = [] \<Longrightarrow> get s = (none, s)"
    and get_head: "inv s \<Longrightarrow> contents s = y # ys \<Longrightarrow>
          \<exists>s'. get s = (y, s') \<and> inv s' \<and> contents s' = ys"
begin

lemma run_refines:
  "inv s \<Longrightarrow> list_run cap none (contents s) ops = Some outs \<Longrightarrow> fifo_run put get s ops = outs"
proof (induction ops arbitrary: s outs)
  case Nil
  then show ?case by simp
next
  case (Cons oper ops)
  show ?case
  proof (cases oper)
    case (Put x)
    then have "length (contents s) < cap" "list_run cap none (contents s @ [x]) ops = Some outs"
      using Cons.prems(2) by (auto split: if_splits)
    then show ?thesis
      using Cons.IH [of "put s x" outs] Cons.prems(1) Put by (simp add: inv_put contents_put)
  next
    case Get
    show ?thesis
    proof (cases "contents s")
      case Nil
      then show ?thesis
        using Cons.prems Get Cons.IH [OF Cons.prems(1)] by (auto simp: get_empty)
    next
      case (Cons y ys)
      then obtain s' where "get s = (y, s')" "inv s'" "contents s' = ys"
        using get_head [OF \<open>inv s\<close>] by blast
      then show ?thesis
        using Cons.prems Get Cons.IH [of s'] Cons by auto
    qed
  qed
qed

end

end

