(* ===== verification/Mii_Queue.thy ===== *)
theory Mii_Queue
  imports Ring Ram
begin

text \<open>
  \<open>mii_queue.c\<close>: the queue of transmitted packets whose timestamps are still to be reported,
  and the atomic updates of a packet's transmit counter and forwarding bits. Hardware locks are
  compiled in (\<open>ETHERNET_USE_HARDWARE_LOCKS\<close> is defined by \<open>mii_full.h\<close>), so each locked
  section is one step and the queue's own lock field is never written.
\<close>

subsection \<open>Timestamp queue\<close>

record mii_ts_queue_t =
  ts_lock :: int
  rdIndex :: nat
  wrIndex :: nat
  fifo :: "addr list"

definition init_ts_queue :: "mii_ts_queue_t \<Rightarrow> mii_ts_queue_t" where
  "init_ts_queue q = q\<lparr>rdIndex := 0, wrIndex := 0\<rparr>"

definition get_ts_queue_entry :: "mac_config \<Rightarrow> mii_ts_queue_t \<Rightarrow> addr \<times> mii_ts_queue_t" where
  "get_ts_queue_entry c q =
     (if rdIndex q = wrIndex q then (0, q)
      else (fifo q ! rdIndex q, q\<lparr>rdIndex := ring_next (MAC_MAX_ENTRIES c) (rdIndex q)\<rparr>))"

definition add_ts_queue_entry :: "mac_config \<Rightarrow> mii_ts_queue_t \<Rightarrow> addr \<Rightarrow> mii_ts_queue_t" where
  "add_ts_queue_entry c q i =
     q\<lparr>fifo := (fifo q)[wrIndex q := i],
       wrIndex := ring_next (MAC_MAX_ENTRIES c) (wrIndex q)\<rparr>"

definition ts_queue_inv :: "mac_config \<Rightarrow> mii_ts_queue_t \<Rightarrow> bool" where
  "ts_queue_inv c q \<longleftrightarrow>
     length (fifo q) = MAC_MAX_ENTRIES c \<and>
     rdIndex q < MAC_MAX_ENTRIES c \<and> wrIndex q < MAC_MAX_ENTRIES c"

definition ts_queue_list :: "mii_ts_queue_t \<Rightarrow> addr list" where
  "ts_queue_list q = ring_list (fifo q) (rdIndex q) (wrIndex q)"

lemma init_ts_queue_inv:
  "length (fifo q) = MAC_MAX_ENTRIES c \<Longrightarrow> ts_queue_inv c (init_ts_queue q)"
  by (simp add: ts_queue_inv_def init_ts_queue_def MAC_MAX_ENTRIES_def)

lemma ts_queue_list_init [simp]: "ts_queue_list (init_ts_queue q) = []"
  by (simp add: ts_queue_list_def init_ts_queue_def)

lemma add_ts_queue_entry_inv: "ts_queue_inv c q \<Longrightarrow> ts_queue_inv c (add_ts_queue_entry c q i)"
  by (simp add: ts_queue_inv_def add_ts_queue_entry_def)

lemma add_ts_queue_entry_list:
  assumes "ts_queue_inv c q" "length (ts_queue_list q) < MAC_MAX_ENTRIES c - 1"
  shows "ts_queue_list (add_ts_queue_entry c q i) = ts_queue_list q @ [i]"
proof -
  have "ring_next (MAC_MAX_ENTRIES c) (wrIndex q) \<noteq> rdIndex q"
    using assms by (simp add: ts_queue_inv_def ts_queue_list_def ring_full_iff)
  then show ?thesis
    using assms ring_list_put [of "rdIndex q" "fifo q" "wrIndex q" i]
    by (simp add: ts_queue_inv_def ts_queue_list_def add_ts_queue_entry_def)
qed

text \<open>There is no check for a full queue: the entry that fills it makes it look empty.\<close>

lemma add_ts_queue_entry_full:
  assumes "ts_queue_inv c q" "length (ts_queue_list q) = MAC_MAX_ENTRIES c - 1"
  shows "ts_queue_list (add_ts_queue_entry c q i) = []"
proof -
  have "ring_next (MAC_MAX_ENTRIES c) (wrIndex q) = rdIndex q"
    using assms by (simp add: ts_queue_inv_def ts_queue_list_def ring_full_iff)
  then show ?thesis
    by (simp add: ts_queue_list_def add_ts_queue_entry_def)
qed

lemma get_ts_queue_entry_empty:
  "ts_queue_inv c q \<Longrightarrow> ts_queue_list q = [] \<Longrightarrow> get_ts_queue_entry c q = (0, q)"
  by (simp add: get_ts_queue_entry_def ts_queue_list_def ts_queue_inv_def ring_list_Nil_iff)

lemma get_ts_queue_entry_head:
  assumes inv: "ts_queue_inv c q" and l: "ts_queue_list q = y # ys"
  shows "\<exists>q'. get_ts_queue_entry c q = (y, q') \<and> ts_queue_inv c q' \<and> ts_queue_list q' = ys"
proof -
  have ne: "rdIndex q \<noteq> wrIndex q"
    using l by (auto simp: ts_queue_list_def)
  show ?thesis
    using inv l ne ring_list_get [of "rdIndex q" "fifo q" "wrIndex q"]
    by (simp add: get_ts_queue_entry_def ts_queue_list_def ts_queue_inv_def)
qed

text \<open>The code's own two functions are a queue; entry 0 means that there is none.\<close>

interpretation ts_queue: bounded_fifo "ts_queue_inv c" ts_queue_list "MAC_MAX_ENTRIES c - 1" 0
  "add_ts_queue_entry c" "get_ts_queue_entry c" for c
  by unfold_locales
    (simp_all add: add_ts_queue_entry_inv add_ts_queue_entry_list get_ts_queue_entry_empty
      get_ts_queue_entry_head)

subsection \<open>Transmit counter and forwarding bits\<close>

definition get_and_dec_transmit_count :: "ram \<Rightarrow> addr \<Rightarrow> word32 \<times> ram" where
  "get_and_dec_transmit_count s buf0 =
     (let count = mii_packet_get_tcount s buf0
      in (count, if count \<noteq> 0 then mii_packet_set_tcount s buf0 (count - 1) else s))"

definition mii_packet_get_and_clear_forwarding :: "ram \<Rightarrow> addr \<Rightarrow> nat \<Rightarrow> word32 \<times> ram" where
  "mii_packet_get_and_clear_forwarding s buf0 ifnum =
     (let mask = push_bit ifnum 1
      in (mii_packet_get_forwarding s buf0 AND mask, mii_packet_set_forwarding s buf0 0))"

text \<open>The counts that successive users of a packet see.\<close>

fun dec_counts :: "nat \<Rightarrow> ram \<Rightarrow> addr \<Rightarrow> word32 list \<times> ram" where
  "dec_counts 0 s buf = ([], s)"
| "dec_counts (Suc n) s buf =
     (let (x, s) = get_and_dec_transmit_count s buf; (xs, s) = dec_counts n s buf in (x # xs, s))"

lemma dec_counts_spec:
  "n < 2 ^ 32 \<Longrightarrow> mii_packet_get_tcount s buf = of_nat n \<Longrightarrow>
     fst (dec_counts (Suc n) s buf) = rev (map of_nat [0..<Suc n])"
proof (induction n arbitrary: s)
  case 0
  then show ?case by (simp add: get_and_dec_transmit_count_def Let_def)
next
  case (Suc n)
  have nz: "(of_nat (Suc n) :: word32) \<noteq> 0"
    using Suc.prems(1) by (simp add: word_of_nat_eq_0_iff nat_dvd_not_less del: of_nat_Suc)
  let ?s = "mii_packet_set_tcount s buf (of_nat (Suc n) - 1)"
  have "get_and_dec_transmit_count s buf = (of_nat (Suc n), ?s)"
    using nz Suc.prems(2) by (simp add: get_and_dec_transmit_count_def Let_def del: of_nat_Suc)
  moreover have "fst (dec_counts (Suc n) ?s buf) = rev (map of_nat [0..<Suc n])"
    using Suc.prems(1) by (intro Suc.IH) simp_all
  ultimately show ?case
    by (simp add: dec_counts.simps(2) [of "Suc n"] split_beta del: dec_counts.simps of_nat_Suc)
qed

subsection \<open>Properties\<close>

text \<open>C22: The timestamp queue is a first-in first-out queue. Any sequence of calls of
\<open>add_ts_queue_entry\<close> and \<open>get_ts_queue_entry\<close> after \<open>init_ts_queue\<close> that never has more than
\<open>MAC_MAX_ENTRIES - 1\<close> entries waiting returns what an unbounded list would: every entry once,
in order, and \<open>0\<close> for each call that finds none waiting, which changes nothing.\<close>

theorem ts_queue_fifo:
  assumes "length (fifo q) = MAC_MAX_ENTRIES c"
    and "list_run (MAC_MAX_ENTRIES c - 1) 0 [] ops = Some outs"
  shows "fifo_run (add_ts_queue_entry c) (get_ts_queue_entry c) (init_ts_queue q) ops = outs"
  using ts_queue.run_refines [OF init_ts_queue_inv [OF assms(1)]] assms(2) by simp

theorem ts_queue_fifo_witness:
  "fifo_run (add_ts_queue_entry default_config) (get_ts_queue_entry default_config)
     (init_ts_queue \<lparr>ts_lock = 0, rdIndex = 3, wrIndex = 1, fifo = [7, 7, 7, 7, 7, 7]\<rparr>)
     [Get, Put 10, Put 20, Get, Put 30, Put 40, Put 50, Put 60, Get, Get, Get, Get, Get, Get, Get]
   = [0, 10, 20, 30, 40, 50, 60, 0, 0]"
  by (rule ts_queue_fifo) (simp_all add: MAC_MAX_ENTRIES_def default_config_def)

text \<open>A packet shared by n + 1 users is released once. When the transmit counter is n and
each of n + 1 users takes and decrements it, exactly the last one sees 0, the value on which the
packet is freed; the counter stays at 0 and does not wrap.\<close>

lemma transmit_count_last_user:
  assumes "n < 2 ^ 32" and "mii_packet_get_tcount s buf = of_nat n"
  shows "fst (dec_counts (Suc n) s buf) = rev (map of_nat [0..<Suc n]) \<and>
    filter (\<lambda>x. x = 0) (fst (dec_counts (Suc n) s buf)) = [0] \<and>
    last (fst (dec_counts (Suc n) s buf)) = 0"
proof -
  have d: "fst (dec_counts (Suc n) s buf) = rev (map of_nat [1..<Suc n]) @ [0]"
    unfolding dec_counts_spec [OF assms] by (subst upt_rec) (simp del: upt_Suc)
  have "(of_nat k :: word32) \<noteq> 0" if "k \<in> set [1..<Suc n]" for k
  proof
    assume "(of_nat k :: word32) = 0"
    then have "2 ^ 32 dvd k" by (simp add: word_of_nat_eq_0_iff)
    then show False using that assms(1) nat_dvd_not_less [of k "2 ^ 32"] by auto
  qed
  then have "filter (\<lambda>x. x = (0 :: word32)) (rev (map of_nat [1..<Suc n])) = []"
    by (auto simp: filter_empty_conv simp del: upt_Suc)
  then have "filter (\<lambda>x. x = 0) (fst (dec_counts (Suc n) s buf)) = [0]"
    "last (fst (dec_counts (Suc n) s buf)) = 0"
    unfolding d by (simp_all del: upt_Suc)
  then show ?thesis
    using dec_counts_spec [OF assms] by blast
qed

end
