(* ===== verification/Ethernet_Filter.thy ===== *)
theory Ethernet_Filter
  imports Packet_Data Crc
begin

text \<open>
  The filter thread (\<open>mii_filter.xc\<close>, \<open>mii_filter_support.c\<close>, \<open>mac_filter.h\<close>): it takes
  the packets the receive threads hand on, finishes the checksum over the bytes left over in the
  last word, and writes the packet's filter result, 0 for a packet that is to be dropped. The
  application's \<open>mac_custom_filter\<close> is a parameter: a function of the memory, the address of
  the packet's data, the MAC address and the initial user data.
\<close>

definition MII_FILTER_FORWARD_TO_OTHER_PORTS :: word32 where
  "MII_FILTER_FORWARD_TO_OTHER_PORTS = 0x80000000"

record filter_counts =
  ethernet_filtered_by_address :: word32
  ethernet_filtered_by_user_filter :: word32
  ethernet_filtered_by_length :: word32
  ethernet_filtered_by_bad_crc :: word32

definition ethernet_get_filter_counts :: "filter_counts \<Rightarrow> word32 \<times> word32 \<times> word32 \<times> word32" where
  "ethernet_get_filter_counts k =
     (ethernet_filtered_by_address k, ethernet_filtered_by_user_filter k,
      ethernet_filtered_by_length k, ethernet_filtered_by_bad_crc k)"

type_synonym custom_filter = "ram \<Rightarrow> addr \<Rightarrow> word32 \<times> word32 \<Rightarrow> word32 \<Rightarrow> word32 \<times> word32"

text \<open>The filter a build gets when the application provides none: every client gets the packet.\<close>

definition mac_custom_filter_default :: custom_filter where
  "mac_custom_filter_default s data mac user_data = (0xffffffff, user_data)"

text \<open>The filter of the loopback application: the broadcast address.\<close>

definition data_byte :: "ram \<Rightarrow> addr \<Rightarrow> nat \<Rightarrow> byte" where
  "data_byte s data i = word_byte (ldw s (data + 4 * int (i div 4))) (i mod 4)"

fun loopback_bytes_from :: "ram \<Rightarrow> addr \<Rightarrow> nat \<Rightarrow> nat \<Rightarrow> word32" where
  "loopback_bytes_from s data i 0 = 1"
| "loopback_bytes_from s data i (Suc n) =
     (if data_byte s data i \<noteq> 0xFF then 0 else loopback_bytes_from s data (Suc i) n)"

definition mac_custom_filter_loopback :: custom_filter where
  "mac_custom_filter_loopback s data mac user_data = (loopback_bytes_from s data 0 6, user_data)"

text \<open>The coercion passes the address of the first data word.\<close>

definition mac_custom_filter_coerce ::
  "custom_filter \<Rightarrow> ram \<Rightarrow> addr \<Rightarrow> word32 \<times> word32 \<Rightarrow> word32 \<Rightarrow> word32 \<times> word32" where
  "mac_custom_filter_coerce custom s buf mac user_data =
     custom s (mii_packet_get_data_ptr buf) mac user_data"

subsection \<open>Tests on a packet\<close>

definition is_broadcast :: "ram \<Rightarrow> addr \<Rightarrow> bool" where
  "is_broadcast s buf \<longleftrightarrow> mii_packet_get_data s buf 0 AND 1 \<noteq> 0"

definition compare_mac :: "ram \<Rightarrow> addr \<Rightarrow> word32 \<times> word32 \<Rightarrow> bool" where
  "compare_mac s buf mac \<longleftrightarrow>
     mii_packet_get_data s buf 0 = fst mac \<and>
     (ucast (mii_packet_get_data s buf 1) :: word16) = ucast (snd mac)"

text \<open>The MAC address as two words.\<close>

definition mac_words :: "byte list \<Rightarrow> word32 \<times> word32" where
  "mac_words mac_address =
     (ucast (mac_address ! 0) + push_bit 8 (ucast (mac_address ! 1))
        + push_bit 16 (ucast (mac_address ! 2)) + push_bit 24 (ucast (mac_address ! 3)),
      ucast (mac_address ! 4) + push_bit 8 (ucast (mac_address ! 5)))"

text \<open>The switch on the number of left over bytes: up to three \<open>crc8shr\<close>.\<close>

fun crc_tail :: "nat \<Rightarrow> word32 \<times> word32 \<Rightarrow> word32 \<times> word32" where
  "crc_tail 0 (crc, tail) = (crc, tail)"
| "crc_tail (Suc n) (crc, tail) = crc_tail n (crc8shr crc tail)"

definition filter_crc :: "ram \<Rightarrow> addr \<Rightarrow> word32" where
  "filter_crc s buf =
     (let len = mii_packet_get_length s buf;
          crc = mii_packet_get_crc s buf;
          tail = mii_packet_get_data s buf (uint (len AND 0xFFFFFFFC) div 4 + 1);
          endbytes = unat (len AND 3)
      in fst (crc_tail endbytes (crc, tail)))"

subsection \<open>The thread\<close>

definition count :: "mac_config \<Rightarrow> (filter_counts \<Rightarrow> filter_counts) \<Rightarrow> filter_counts \<Rightarrow> filter_counts"
  where "count c inc k = (if count_packets c then inc k else k)"

definition by_length :: "filter_counts \<Rightarrow> filter_counts" where
  "by_length k = k\<lparr>ethernet_filtered_by_length := ethernet_filtered_by_length k + 1\<rparr>"

definition by_bad_crc :: "filter_counts \<Rightarrow> filter_counts" where
  "by_bad_crc k = k\<lparr>ethernet_filtered_by_bad_crc := ethernet_filtered_by_bad_crc k + 1\<rparr>"

definition by_user_filter :: "filter_counts \<Rightarrow> filter_counts" where
  "by_user_filter k = k\<lparr>ethernet_filtered_by_user_filter := ethernet_filtered_by_user_filter k + 1\<rparr>"

definition by_address :: "filter_counts \<Rightarrow> filter_counts" where
  "by_address k = k\<lparr>ethernet_filtered_by_address := ethernet_filtered_by_address k + 1\<rparr>"

text \<open>
  One packet from the channel of port \<open>ifnum\<close>. \<open>ETHERNET_RX_TRAP_ON_BAD_PACKET\<close> is not defined
  by the repository.
\<close>

definition ethernet_filter_packet ::
  "mac_config \<Rightarrow> custom_filter \<Rightarrow> word32 \<times> word32 \<Rightarrow> ram \<Rightarrow> filter_counts \<Rightarrow> nat \<Rightarrow> addr \<Rightarrow>
   ram \<times> filter_counts" where
  "ethernet_filter_packet c custom mac s k ifnum buf =
     (if buf = 0 then (s, k)
      else
        let len = mii_packet_get_length s buf;
            crc = filter_crc s buf;
            s = mii_packet_set_src_port s buf (of_nat ifnum)
        in if sint len < 60 then
             (mii_packet_set_stage (mii_packet_set_filter_result s buf 0) buf 1, count c by_length k)
           else if crc_error_check c \<and> NOT crc \<noteq> 0 then
             (mii_packet_set_stage (mii_packet_set_filter_result s buf 0) buf 1, count c by_bad_crc k)
           else
             let addressed = (if num_master_ports c > 1 \<and> \<not> port_forwarding_disabled c then True
                              else is_broadcast s buf \<or> compare_mac s buf mac);
                 (filter_result, user_data, k) =
                   (if addressed then
                      let (filter_result, user_data) = mac_custom_filter_coerce custom s buf mac 0
                      in (filter_result, user_data,
                          if filter_result = 0 then count c by_user_filter k else k)
                    else (0, 0, count c by_address k));
                 s = mii_packet_set_timestamp_id s buf 0;
                 s = (if filter_enable_user_data c then mii_packet_set_user_data s buf user_data else s);
                 s = mii_packet_set_filter_result s buf filter_result
             in (mii_packet_set_stage s buf 1, k))"

text \<open>The loop: the packets in the order in which the \<open>select\<close> takes them.\<close>

fun ethernet_filter ::
  "mac_config \<Rightarrow> custom_filter \<Rightarrow> byte list \<Rightarrow> ram \<Rightarrow> filter_counts \<Rightarrow> (nat \<times> addr) list \<Rightarrow>
   ram \<times> filter_counts" where
  "ethernet_filter c custom mac_address s k [] = (s, k)"
| "ethernet_filter c custom mac_address s k ((ifnum, buf) # msgs) =
     (let (s, k) = ethernet_filter_packet c custom (mac_words mac_address) s k ifnum buf
      in ethernet_filter c custom mac_address s k msgs)"

subsection \<open>The checksum the filter finishes\<close>

lemma crc_tail_bits: "fst (crc_tail n (crc, tail)) = crc_bits (word_bits (8 * n) tail) crc"
proof (induction n arbitrary: crc tail)
  case 0
  then show ?case by (simp add: word_bits_def)
next
  case (Suc n)
  have "word_bits (8 * Suc n) tail = word_bits 8 tail @ word_bits (8 * n) (drop_bit 8 tail)"
    using word_bits_split [of 8 "8 * n" tail] by (simp add: add.commute)
  then show ?case using Suc [of "crc_bits (word_bits 8 tail) crc" "drop_bit 8 tail"]
    by (simp add: crc8shr_def)
qed

lemma word_and_3: "unat (w AND 3) = unat w mod 4" for w :: word32
proof -
  have "w AND 3 = take_bit 2 w" by (simp add: take_bit_eq_mask mask_eq_exp_minus_1)
  then show ?thesis by (simp only: unsigned_take_bit_eq) (simp add: take_bit_eq_mod)
qed

lemma word_and_not_3: "uint (w AND 0xFFFFFFFC) div 4 = uint w div 4" for w :: word32
proof -
  have "drop_bit 2 (w AND 0xFFFFFFFC) = drop_bit 2 w"
  proof (rule bit_word_eqI)
    fix n :: nat
    assume "n < LENGTH(32)"
    have "(0xFFFFFFFC :: word32) = NOT (mask 2)" by (simp add: mask_eq_exp_minus_1)
    then show "bit (drop_bit 2 (w AND 0xFFFFFFFC)) n = bit (drop_bit 2 w) n"
      unfolding \<open>0xFFFFFFFC = NOT (mask 2)\<close>
      by (simp only: bit_drop_bit_eq bit_and_iff bit_not_iff bit_mask_iff o_apply possible_bit_word)
        (auto dest: bit_imp_le_length)
  qed
  then have "uint ((w AND 0xFFFFFFFC) div 4) = uint (w div 4)"
    by (simp add: drop_bit_eq_div)
  then show ?thesis by (simp add: uint_div)
qed

text \<open>A frame as it is on the wire: whole words, then the bytes left over in the tail.\<close>

definition frame_bits :: "word32 list \<Rightarrow> nat \<Rightarrow> word32 \<Rightarrow> bool list" where
  "frame_bits ws k tail = concat (map (word_bits 32) ws) @ word_bits (8 * k) tail"

text \<open>What the receive thread leaves in a packet for a frame of \<open>ws\<close> and \<open>k\<close> left over bytes.\<close>

definition holds_frame :: "ram \<Rightarrow> addr \<Rightarrow> word32 list \<Rightarrow> nat \<Rightarrow> word32 \<Rightarrow> bool" where
  "holds_frame s buf ws k tail \<longleftrightarrow>
     packet_words s buf (Suc (length ws)) = ws @ [tail] \<and> ws \<noteq> [] \<and> k < 4 \<and>
     4 * length ws < 2 ^ 31 \<and>
     mii_packet_get_length s buf = word_of_int (4 * (int (length ws) - 1) + int k) \<and>
     mii_packet_get_crc s buf = fold (\<lambda>w r. crc32 r w) ws crc_init"

lemma fold_crc32: "fold (\<lambda>w r. crc32 r w) ws r = crc_bits (concat (map (word_bits 32) ws)) r"
  by (induction ws arbitrary: r) (simp_all add: crc32_def)

lemma holds_frame_length:
  assumes "holds_frame s buf ws k tail"
  shows "sint (mii_packet_get_length s buf) = 4 * (int (length ws) - 1) + int k"
    "uint (mii_packet_get_length s buf) = 4 * (int (length ws) - 1) + int k"
proof -
  have "1 \<le> int (length ws)" "int k < 4" "4 * int (length ws) < 2 ^ 31"
    using assms by (auto simp: holds_frame_def Suc_le_eq)
  then have "0 \<le> 4 * (int (length ws) - 1) + int k" "4 * (int (length ws) - 1) + int k < 2 ^ 31"
    by auto
  then show "sint (mii_packet_get_length s buf) = 4 * (int (length ws) - 1) + int k"
    "uint (mii_packet_get_length s buf) = 4 * (int (length ws) - 1) + int k"
    using assms by (simp_all only: holds_frame_def sint_of_ptr uint_of_ptr)
qed

lemma filter_crc_frame:
  assumes f: "holds_frame s buf ws k tail"
  shows "filter_crc s buf = crc_bits (frame_bits ws k tail) crc_init"
proof -
  let ?len = "mii_packet_get_length s buf"
  note u = holds_frame_length(2) [OF f]
  have k: "k < 4" and w: "packet_words s buf (Suc (length ws)) = ws @ [tail]"
    and crc: "mii_packet_get_crc s buf = fold (\<lambda>w r. crc32 r w) ws crc_init"
    using f by (auto simp: holds_frame_def)
  have "mii_packet_get_data s buf (int (length ws)) = packet_words s buf (Suc (length ws)) ! length ws"
    by (simp add: packet_words_def nth_append del: upt_Suc)
  then have t: "mii_packet_get_data s buf (int (length ws)) = tail" by (simp add: w)
  have "uint ?len div 4 + 1 = int (length ws)"
    using k unfolding u by simp
  then have idx: "uint (?len AND 0xFFFFFFFC) div 4 + 1 = int (length ws)"
    by (simp add: word_and_not_3)
  have "int (unat ?len mod 4) = int k"
    using k unfolding zmod_int by (simp add: u) presburger
  then have e: "unat (?len AND 3) = k" by (simp add: word_and_3)
  show ?thesis
    by (simp add: filter_crc_def Let_def idx e t crc crc_tail_bits frame_bits_def fold_crc32)
qed

subsection \<open>Errors the checksum finds\<close>

lemma crc_bit_inj: "crc_bit r b = crc_bit s b \<Longrightarrow> r = s"
proof (rule bit_word_eqI)
  fix n :: nat
  assume eq: "crc_bit r b = crc_bit s b" and "n < LENGTH(32)"
  have p: "bit poly 31" by (simp add: poly_def)
  have b: "bit (crc_bit r b) m = bit (crc_bit s b) m" for m using eq by simp
  have 0: "bit r 0 = bit s 0"
    using b [of 31] p by (auto simp: bit_crc_bit)
  show "bit r n = bit s n"
  proof (cases n)
    case 0
    then show ?thesis using \<open>bit r 0 = bit s 0\<close> by simp
  next
    case (Suc m)
    then show ?thesis
      using b [of m] \<open>n < LENGTH(32)\<close> \<open>bit r 0 = bit s 0\<close> by (auto simp: bit_crc_bit)
  qed
qed

lemma crc_bits_inj: "crc_bits bs r = crc_bits bs s \<Longrightarrow> r = s"
  by (induction bs arbitrary: r s) (auto dest: crc_bit_inj)

lemma crc_bits_burst:
  assumes n: "length bs \<le> 32" and len: "length bs = length cs" and ne: "bs \<noteq> cs"
  shows "crc_bits bs r \<noteq> crc_bits cs r"
proof
  assume eq: "crc_bits bs r = crc_bits cs r"
  define w :: word32 where "w = horner_sum of_bool 2 (map2 (\<lambda>b c. b = (\<not> c)) bs cs)"
  have bw: "word_bits (length bs) w = map2 (\<lambda>b c. b = (\<not> c)) bs cs"
    by (rule nth_equalityI)
      (use n len in \<open>auto simp: word_bits_def w_def bit_horner_sum_bit_word_iff\<close>)
  have "crc_bits (word_bits (length bs) w) 0 = crc_bits bs r XOR crc_bits cs r"
    unfolding bw using crc_bits_xor [OF len, of r r] by simp
  then have "crc_bits (word_bits (length bs) w) 0 = 0" using eq by simp
  then have "push_bit (32 - length bs) (take_bit (length bs) w) = 0"
    using crc_bits_zero_state [OF n] by simp
  then have z: "\<not> bit (push_bit (32 - length bs) (take_bit (length bs) w)) k" for k
    by simp
  have "\<not> bit w i" if "i < length bs" for i
    using z [of "32 - length bs + i"] that n by (simp add: bit_simps)
  then have "word_bits (length bs) w = map (\<lambda>_. False) [0..<length bs]"
    by (auto simp: word_bits_def)
  then have all: "bs ! i = cs ! i" if "i < length bs" for i
  proof -
    have "map2 (\<lambda>b c. b = (\<not> c)) bs cs ! i = False"
      using \<open>word_bits (length bs) w = map (\<lambda>_. False) [0..<length bs]\<close> that
      unfolding bw by simp
    then show ?thesis using that len by simp
  qed
  show False using ne nth_equalityI [OF len all] by blast
qed

subsection \<open>A packet for the examples\<close>

definition no_counts :: filter_counts where
  "no_counts = \<lparr>ethernet_filtered_by_address = 0, ethernet_filtered_by_user_filter = 0,
     ethernet_filtered_by_length = 0, ethernet_filtered_by_bad_crc = 0\<rparr>"

definition frame_ram :: "word32 list \<Rightarrow> nat \<Rightarrow> word32 \<Rightarrow> ram" where
  "frame_ram ws k tail =
     \<lparr>mem = \<lambda>a. if a = 100 then word_of_int (4 * (int (length ws) - 1) + int k)
               else if a = 128 then fold (\<lambda>w r. crc32 r w) ws crc_init
               else if 140 \<le> a then (ws @ [tail]) ! nat ((a - 140) div 4) else 0,
      pools = \<lambda>p. \<lparr>rdptr = 0, wrptr = 0, pool_start = 0, pool_end = 2 ^ 31, rdptr_at_start = 0\<rparr>\<rparr>"

lemma frame_ram_holds:
  assumes "ws \<noteq> []" "k < 4" "length ws < 1000"
  shows "holds_frame (frame_ram ws k tail) 100 ws k tail"
proof -
  have "mii_packet_get_data (frame_ram ws k tail) 100 (int j) = (ws @ [tail]) ! j" if "j < Suc (length ws)" for j
  proof -
    have "100 + 4 * (int j + 10) < (2 ^ 31 :: int)" using that assms(3) by simp
    then show ?thesis
      by (simp add: mii_packet_get_data_def frame_ram_def ldw_def Let_def BUF_DATA_OFFSET_def)
  qed
  then have "packet_words (frame_ram ws k tail) 100 (Suc (length ws)) = ws @ [tail]"
    by (intro nth_equalityI) (simp_all add: packet_words_def del: upt_Suc)
  then show ?thesis
    using assms by (simp add: holds_frame_def mii_packet_get_def frame_ram_def ldw_def)
qed

text \<open>A frame of 16 words with a correct checksum: zeros and the checksum of zeros.\<close>

definition zero_fcs :: word32 where
  "zero_fcs = crc32 (crc_bits (concat (map (word_bits 32) (replicate 14 0))) (crc32 0 (NOT 0))) (NOT 0)"

lemma zero_frame_good:
  "filter_crc (frame_ram (replicate 15 0 @ [zero_fcs]) 0 0) 100 = NOT 0"
proof -
  have "filter_crc (frame_ram (replicate 15 0 @ [zero_fcs]) 0 0) 100
      = crc_bits (frame_bits (replicate 15 0 @ [zero_fcs]) 0 0) crc_init"
    by (rule filter_crc_frame) (simp add: frame_ram_holds)
  also have "frame_bits (replicate 15 0 @ [zero_fcs]) 0 0
      = word_bits 32 0 @ concat (map (word_bits 32) (replicate 14 0)) @ word_bits 32 zero_fcs"
    by (simp add: frame_bits_def word_bits_def [of 0] numeral_eq_Suc del: upt_Suc)
  finally show ?thesis
    unfolding zero_fcs_def by (simp only: crc_residue)
qed

subsection \<open>Properties\<close>

lemma filter_packet_bad_crc:
  assumes "buf \<noteq> 0" "crc_error_check c" "60 \<le> sint (mii_packet_get_length s buf)"
    "filter_crc s buf \<noteq> NOT 0"
  shows "ethernet_filter_packet c custom mac s k ifnum buf =
    (mii_packet_set_stage (mii_packet_set_filter_result (mii_packet_set_src_port s buf (of_nat ifnum)) buf 0)
       buf 1, count c by_bad_crc k)"
proof -
  have "NOT (filter_crc s buf) \<noteq> 0" using assms(4) by (metis bit.double_compl)
  then show ?thesis using assms by (simp add: ethernet_filter_packet_def Let_def)
qed

text \<open>C10: The filter rejects damaged frames. Take a frame whose checksum is good and damage it
within a window of at most 32 bits: anywhere in the frame, in the checksum or across byte and
word boundaries. Once the damaged frame is in a packet as the receive thread stores it, the
filter counts a bad checksum and writes filter result 0, so that no client gets the packet.\<close>

theorem filter_rejects_burst:
  assumes good: "holds_frame s buf ws k tail" "filter_crc s buf = NOT 0"
    and bad: "holds_frame t buf' ws' k tail'" and len: "length ws' = length ws"
    and bits: "frame_bits ws k tail = as @ bs @ ds" "frame_bits ws' k tail' = as @ cs @ ds"
    and window: "length bs \<le> 32" "length cs = length bs" "bs \<noteq> cs"
    and cfg: "crc_error_check c" and buf: "buf' \<noteq> 0" and long: "64 \<le> 4 * length ws + k"
  shows "\<exists>t'. ethernet_filter_packet c custom mac t cnt ifnum buf' = (t', count c by_bad_crc cnt) \<and>
    mii_packet_get_filter_result t' buf' = 0"
proof -
  have "filter_crc t buf' \<noteq> filter_crc s buf"
  proof
    assume "filter_crc t buf' = filter_crc s buf"
    then have "crc_bits (as @ bs @ ds) crc_init = crc_bits (as @ cs @ ds) crc_init"
      by (metis filter_crc_frame [OF good(1)] filter_crc_frame [OF bad] bits)
    then have "crc_bits bs (crc_bits as crc_init) = crc_bits cs (crc_bits as crc_init)"
      by (simp only: crc_bits_append) (rule crc_bits_inj)
    then show False
      using crc_bits_burst [OF window(1)] window by metis
  qed
  then have "filter_crc t buf' \<noteq> NOT 0" using good by simp
  moreover have "60 \<le> sint (mii_packet_get_length t buf')"
    using holds_frame_length(1) [OF bad] len long by simp
  ultimately show ?thesis
    using filter_packet_bad_crc [OF buf cfg] by simp
qed

theorem filter_rejects_burst_witness:
  "\<exists>t'. ethernet_filter_packet default_config mac_custom_filter_default (0, 0)
     (frame_ram (replicate 14 0 @ [1, zero_fcs]) 0 0) no_counts 0 100
     = (t', count default_config by_bad_crc no_counts) \<and> mii_packet_get_filter_result t' 100 = 0"
proof -
  let ?as = "concat (map (word_bits 32) (replicate 14 0))"
  have split: "frame_bits (replicate 15 0 @ [zero_fcs]) 0 0 = ?as @ word_bits 32 0 @ word_bits 32 zero_fcs"
    "frame_bits (replicate 14 0 @ [1, zero_fcs]) 0 0 = ?as @ word_bits 32 1 @ word_bits 32 zero_fcs"
    by (simp_all add: frame_bits_def word_bits_def [of 0] numeral_eq_Suc del: upt_Suc)
  have ne: "word_bits 32 0 \<noteq> word_bits 32 (1 :: word32)" by code_simp
  show ?thesis
    by (rule filter_rejects_burst [OF frame_ram_holds zero_frame_good frame_ram_holds _ split])
      (use ne in \<open>simp_all add: default_config_def\<close>)
qed

lemma mac_words_bytes:
  "mac_words m = (word_of_bytes (m ! 0) (m ! 1) (m ! 2) (m ! 3), word_of_bytes (m ! 4) (m ! 5) 0 0)"
proof -
  have 1: "ucast a + push_bit 8 (ucast b) = (ucast a OR push_bit 8 (ucast b) :: word32)" for a b :: byte
    by (rule disjunctive_add) (auto simp: bit_simps dest: bit_imp_le_length)
  have 2: "(ucast a OR push_bit 8 (ucast b)) + push_bit 16 (ucast c)
      = ((ucast a OR push_bit 8 (ucast b)) OR push_bit 16 (ucast c) :: word32)" for a b c :: byte
    by (rule disjunctive_add) (auto simp: bit_simps dest: bit_imp_le_length)
  have 3: "((ucast a OR push_bit 8 (ucast b)) OR push_bit 16 (ucast c)) + push_bit 24 (ucast d)
      = (((ucast a OR push_bit 8 (ucast b)) OR push_bit 16 (ucast c)) OR push_bit 24 (ucast d) :: word32)"
    for a b c d :: byte
    by (rule disjunctive_add) (auto simp: bit_simps dest: bit_imp_le_length)
  show ?thesis by (simp only: mac_words_def word_of_bytes_def 1 2 3) (simp add: or.assoc)
qed

lemma word_eq_bytes:
  "v = w \<longleftrightarrow> word_byte v 0 = word_byte w 0 \<and> word_byte v 1 = word_byte w 1 \<and>
     word_byte v 2 = word_byte w 2 \<and> word_byte v 3 = word_byte w 3"
  by (metis One_nat_def word_of_bytes_of_word)

lemma ucast16_eq_bytes:
  "(ucast v :: word16) = ucast w \<longleftrightarrow> word_byte v 0 = word_byte w 0 \<and> word_byte v 1 = word_byte w 1"
  for v w :: word32
proof
  assume "(ucast v :: word16) = ucast w"
  then have b: "bit v n = bit w n" if "n < 16" for n
    using that bit_ucast_iff [where 'a = 16, of v n] bit_ucast_iff [where 'a = 16, of w n] by simp
  then show "word_byte v 0 = word_byte w 0 \<and> word_byte v 1 = word_byte w 1"
    by (auto intro!: bit_word_eqI simp: bit_word_byte)
next
  assume eq: "word_byte v 0 = word_byte w 0 \<and> word_byte v 1 = word_byte w 1"
  have "bit v n = bit w n" if "n < 16" for n
  proof (cases "n < 8")
    case True
    then show ?thesis using bit_word_byte [of v 0 n] bit_word_byte [of w 0 n] eq by simp
  next
    case False
    then have "n - 8 < 8" "8 + (n - 8) = n" using that by simp_all
    then show ?thesis
      using bit_word_byte [of v 1 "n - 8"] bit_word_byte [of w 1 "n - 8"] eq by simp
  qed
  then show "(ucast v :: word16) = ucast w"
    by (intro bit_word_eqI) (simp add: bit_ucast_iff)
qed

definition frame_bytes :: "word32 list \<Rightarrow> nat \<Rightarrow> word32 \<Rightarrow> byte list" where
  "frame_bytes ws k tail = concat (map bytes_of_word ws) @ take k (bytes_of_word tail)"

lemma length_frame_bytes: "k < 4 \<Longrightarrow> length (frame_bytes ws k tail) = 4 * length ws + k"
  by (simp add: frame_bytes_def length_concat_same [where n = 4])

lemma holds_frame_data:
  assumes "holds_frame s buf ws k tail" "j < length ws"
  shows "mii_packet_get_data s buf (int j) = ws ! j"
proof -
  have "packet_words s buf (Suc (length ws)) ! j = (ws @ [tail]) ! j"
    using assms(1) by (simp add: holds_frame_def)
  then show ?thesis using assms(2) by (simp add: packet_words_def nth_append del: upt_Suc)
qed

lemma frame_address:
  assumes f: "holds_frame s buf ws k tail" and n: "2 \<le> length ws" and m: "length m = 6"
  shows "compare_mac s buf (mac_words m) \<longleftrightarrow> take 6 (frame_bytes ws k tail) = m"
    "is_broadcast s buf \<longleftrightarrow> bit (frame_bytes ws k tail ! 0) 0"
proof -
  obtain w0 w1 ws' where ws: "ws = w0 # w1 # ws'"
    using n by (cases ws; cases "tl ws") auto
  have d: "mii_packet_get_data s buf 0 = w0" "mii_packet_get_data s buf 1 = w1"
    using holds_frame_data [OF f, of 0] holds_frame_data [OF f, of 1] by (simp_all add: ws)
  obtain a b c d e g where m': "m = [a, b, c, d, e, g]"
    using m by (auto simp: numeral_eq_Suc length_Suc_conv)
  have "take 6 (frame_bytes ws k tail)
      = [word_byte w0 0, word_byte w0 1, word_byte w0 2, word_byte w0 3, word_byte w1 0, word_byte w1 1]"
    by (simp add: ws frame_bytes_def bytes_of_word_def)
  moreover have "compare_mac s buf (mac_words m) \<longleftrightarrow> word_byte w0 0 = a \<and> word_byte w0 1 = b \<and>
      word_byte w0 2 = c \<and> word_byte w0 3 = d \<and> word_byte w1 0 = e \<and> word_byte w1 1 = g"
    unfolding compare_mac_def mac_words_bytes m' d fst_conv snd_conv ucast16_eq_bytes
      word_eq_bytes [of w0] by auto
  ultimately show "compare_mac s buf (mac_words m) \<longleftrightarrow> take 6 (frame_bytes ws k tail) = m"
    by (simp add: m')
  have "is_broadcast s buf \<longleftrightarrow> bit w0 0"
    by (simp add: is_broadcast_def d and_one_eq odd_iff_mod_2_eq_one [symmetric] bit_0)
  then show "is_broadcast s buf \<longleftrightarrow> bit (frame_bytes ws k tail ! 0) 0"
    by (simp add: ws frame_bytes_def bytes_of_word_def bit_word_byte)
qed

lemma header_set_data:
  "0 \<le> j \<Longrightarrow> buf + 4 * (j + 11) \<le> mii_packet_get_wrap_ptr s buf \<Longrightarrow>
     mii_packet_get_data (mii_packet_set f s buf x) buf j = mii_packet_get_data s buf j"
  using BUF_OFFSET_range [of f]
  by (auto simp: mii_packet_get_data_def mii_packet_get_wrap_ptr_def Let_def mii_packet_set_def
      hdr_info_def hdr_of_buf_def sizeof_malloc_hdr_def BUF_DATA_OFFSET_def)

definition filter_forwards :: "mac_config \<Rightarrow> bool" where
  "filter_forwards c \<longleftrightarrow> num_master_ports c > 1 \<and> \<not> port_forwarding_disabled c"

text \<open>C15: What the filter decides, in terms of the bytes of the frame. The filter result of a
received frame is 0 when it has fewer than 64 bytes with its checksum, or the checksum is wrong;
otherwise the application's filter decides if the build forwards between ports, the destination
address is a group address or its six bytes are the MAC address, and the result is 0 for every
other frame. In all cases the packet is marked as filtered and labelled with its port. (The
address words do not wrap: the allocator leaves room for ten data words before the pool's end.)\<close>

theorem filter_decision:
  assumes f: "holds_frame s buf ws k tail" and n: "2 \<le> length ws" and m: "length m = 6"
    and buf: "buf \<noteq> 0" and wrap: "buf + 48 \<le> mii_packet_get_wrap_ptr s buf"
    and p: "ethernet_filter_packet c custom (mac_words m) s cnt ifnum buf = (s', cnt')"
  shows "mii_packet_get_filter_result s' buf =
      (if length (frame_bytes ws k tail) < 64 then 0
       else if crc_error_check c \<and> crc_bits (frame_bits ws k tail) crc_init \<noteq> NOT 0 then 0
       else if filter_forwards c \<or> bit (frame_bytes ws k tail ! 0) 0 \<or>
               take 6 (frame_bytes ws k tail) = m
       then fst (custom (mii_packet_set_src_port s buf (of_nat ifnum))
                   (mii_packet_get_data_ptr buf) (mac_words m) 0)
       else 0) \<and>
    mii_packet_get_stage s' buf = 1 \<and> mii_packet_get_src_port s' buf = of_nat ifnum"
proof -
  have k: "k < 4" using f by (simp add: holds_frame_def)
  have short: "sint (mii_packet_get_length s buf) < 60 \<longleftrightarrow> length (frame_bytes ws k tail) < 64"
    using holds_frame_length(1) [OF f] k by (simp add: length_frame_bytes) presburger
  have not0: "NOT x \<noteq> 0 \<longleftrightarrow> x \<noteq> NOT 0" for x :: word32
    by (metis bit.double_compl)
  let ?s = "mii_packet_set_src_port s buf (of_nat ifnum)"
  have same: "is_broadcast ?s buf = is_broadcast s buf" "compare_mac ?s buf = compare_mac s buf"
    using wrap by (simp_all add: is_broadcast_def compare_mac_def header_set_data fun_eq_iff)
  show ?thesis
    using p buf unfolding ethernet_filter_packet_def Let_def short not0 filter_crc_frame [OF f]
    by (auto simp: filter_forwards_def same frame_address [OF f n m] mac_custom_filter_coerce_def
        split: prod.splits if_splits)
qed

theorem filter_decision_witness:
  "\<exists>s' k. ethernet_filter_packet default_config mac_custom_filter_default
      (mac_words [0, 0, 0, 0, 0, 0]) (frame_ram (replicate 15 0 @ [zero_fcs]) 0 0) no_counts 1 100 = (s', k) \<and>
    mii_packet_get_filter_result s' 100 = 0xffffffff \<and> mii_packet_get_src_port s' 100 = 1"
proof -
  let ?ws = "replicate 15 0 @ [zero_fcs]"
  have f: "holds_frame (frame_ram ?ws 0 0) 100 ?ws 0 0" by (rule frame_ram_holds) simp_all
  have crc: "crc_bits (frame_bits ?ws 0 0) crc_init = NOT 0"
    using filter_crc_frame [OF f] zero_frame_good by simp
  have long: "\<not> length (frame_bytes ?ws 0 0) < 64" by (simp add: length_frame_bytes)
  have addr: "take 6 (frame_bytes ?ws 0 0) = [0, 0, 0, 0, 0, 0]"
    by (simp add: frame_bytes_def bytes_of_word_def word_byte_def numeral_eq_Suc)
  have wrap: "100 + 48 \<le> mii_packet_get_wrap_ptr (frame_ram ?ws 0 0) 100"
    by (simp add: mii_packet_get_wrap_ptr_def frame_ram_def)
  obtain s' k where p: "ethernet_filter_packet default_config mac_custom_filter_default
      (mac_words [0, 0, 0, 0, 0, 0]) (frame_ram ?ws 0 0) no_counts 1 100 = (s', k)"
    by (metis prod.exhaust)
  have "2 \<le> length ?ws" "length [0, 0, 0, 0, 0, 0 :: byte] = 6" "(100 :: addr) \<noteq> 0" by simp_all
  from filter_decision [OF f this wrap p] show ?thesis
    using p crc long addr by (simp add: mac_custom_filter_default_def)
qed

text \<open>The filter results in the order in which the packets were taken.\<close>

fun filter_results ::
  "mac_config \<Rightarrow> custom_filter \<Rightarrow> byte list \<Rightarrow> ram \<Rightarrow> filter_counts \<Rightarrow> (nat \<times> addr) list \<Rightarrow> word32 list"
  where
  "filter_results c custom m s k [] = []"
| "filter_results c custom m s k ((ifnum, buf) # msgs) =
     (let (s', k') = ethernet_filter_packet c custom (mac_words m) s k ifnum buf
      in mii_packet_get_filter_result s' buf # filter_results c custom m s' k' msgs)"

definition total_filtered :: "filter_counts \<Rightarrow> word32" where
  "total_filtered k =
     (let (a, u, l, b) = ethernet_get_filter_counts k in a + u + l + b)"

lemma filter_packet_short:
  "buf \<noteq> 0 \<Longrightarrow> sint (mii_packet_get_length s buf) < 60 \<Longrightarrow>
     ethernet_filter_packet c custom mac s k ifnum buf =
       (mii_packet_set_stage (mii_packet_set_filter_result
          (mii_packet_set_src_port s buf (of_nat ifnum)) buf 0) buf 1, count c by_length k)"
  by (simp add: ethernet_filter_packet_def Let_def)

lemma filter_packet_counted:
  assumes "ethernet_filter_packet c custom mac s k ifnum buf = (s', k')" "buf \<noteq> 0" "count_packets c"
  shows "total_filtered k' = total_filtered k
    + (if mii_packet_get_filter_result s' buf = 0 then 1 else 0)"
  using assms
  by (auto simp: ethernet_filter_packet_def Let_def count_def total_filtered_def
      ethernet_get_filter_counts_def by_length_def by_bad_crc_def by_user_filter_def by_address_def
      split: if_splits prod.splits)

text \<open>C21: Every dropped frame is counted once. Over any sequence of packets from any ports, the sum
of the four counters that \<open>ethernet_get_filter_counts\<close> reports grows by exactly the number of
packets that got filter result 0; a packet some client may receive is not counted.\<close>

theorem filter_counts_account:
  assumes "count_packets c" and "\<forall>(ifnum, buf) \<in> set msgs. buf \<noteq> 0"
    and "ethernet_filter c custom m s k msgs = (s', k')"
  shows "total_filtered k' = total_filtered k
    + of_nat (length (filter (\<lambda>r. r = 0) (filter_results c custom m s k msgs)))"
  using assms(2,3)
proof (induction msgs arbitrary: s k)
  case Nil
  then show ?case by simp
next
  case (Cons x msgs)
  obtain ifnum buf where x: "x = (ifnum, buf)" by (cases x)
  obtain s1 k1 where p: "ethernet_filter_packet c custom (mac_words m) s k ifnum buf = (s1, k1)"
    by (metis prod.exhaust)
  have "total_filtered k' = total_filtered k1
      + of_nat (length (filter (\<lambda>r. r = 0) (filter_results c custom m s1 k1 msgs)))"
    using Cons.prems by (intro Cons.IH) (simp_all add: x p)
  then show ?case
    using filter_packet_counted [OF p _ assms(1)] Cons.prems(1) by (simp add: x p)
qed

theorem filter_counts_account_witness:
  "total_filtered (snd (ethernet_filter default_config mac_custom_filter_default [1, 2, 3, 4, 5, 6]
     (frame_ram [1, 2] 0 0) no_counts [(0, 100), (0, 100)])) = 2"
proof -
  let ?m = "[1, 2, 3, 4, 5, 6] :: byte list" and ?msgs = "[(0, 100), (0, 100)] :: (nat \<times> addr) list"
  obtain s' k' where r: "ethernet_filter default_config mac_custom_filter_default ?m
      (frame_ram [1, 2] 0 0) no_counts ?msgs = (s', k')" by (metis prod.exhaust)
  have c: "count_packets default_config" "\<forall>(ifnum, buf) \<in> set ?msgs. buf \<noteq> 0"
    by (simp_all add: default_config_def)
  have "length (filter (\<lambda>r. r = 0) (filter_results default_config mac_custom_filter_default ?m
      (frame_ram [1, 2] 0 0) no_counts ?msgs)) = 2"
    using holds_frame_length(1) [OF frame_ram_holds [of "[1, 2]" 0 0]]
    by (simp add: filter_packet_short)
  moreover have "total_filtered no_counts = 0"
    by (simp add: total_filtered_def ethernet_get_filter_counts_def no_counts_def)
  ultimately show ?thesis
    using filter_counts_account [OF c r] r by simp
qed

end
