(* ===== verification/Mii_Tx_Pins.thy ===== *)
theory Mii_Tx_Pins
  imports Packet_Data Crc Mii_Queue
begin

text \<open>
  The transmit half of \<open>mii_master.xc\<close>: \<open>mii_transmit_packet\<close> puts one packet on the wire,
  \<open>mii_tx_pins\<close> chooses the packets. The port is an output list; the values a timer returns
  are arguments. \<open>TX_TIMESTAMP_END_OF_PACKET\<close> is not defined by the repository, so the
  timestamp is taken before the first data word.
\<close>

subsection \<open>One packet on the wire\<close>

datatype tx_out =
    Out_word word32
  | Out_part nat word32

text \<open>The bits that leave the port, least significant first.\<close>

fun out_bits :: "tx_out \<Rightarrow> bool list" where
  "out_bits (Out_word w) = word_bits 32 w"
| "out_bits (Out_part n w) = word_bits n w"

definition wire_bits :: "tx_out list \<Rightarrow> bool list" where
  "wire_bits outs = concat (map out_bits outs)"

text \<open>
  The \<open>do\<close> loop over the words after the first: output, data pointer and checksum at its end.
\<close>

function tx_loop :: "ram \<Rightarrow> addr \<Rightarrow> addr \<Rightarrow> int \<Rightarrow> int \<Rightarrow> word32 \<Rightarrow> tx_out list \<times> addr \<times> word32" where
  "tx_loop s wrap_ptr dptr i word_count crc =
     (let word = mii_packet_get_data_word s dptr 0;
          dptr = wrap_dptr s wrap_ptr (dptr + 4);
          i = i + 1;
          crc = crc32 crc word
      in if i < word_count then
           let (outs, dptr, crc) = tx_loop s wrap_ptr dptr i word_count crc
           in (Out_word word # outs, dptr, crc)
         else ([Out_word word], dptr, crc))"
  by auto
termination
  by (relation "measure (\<lambda>(s, wrap_ptr, dptr, i, word_count, crc). nat (word_count - i))") auto

declare tx_loop.simps [simp del]

text \<open>The switch on the left over bytes, with its cases falling through.\<close>

fun tx_tail :: "nat \<Rightarrow> word32 \<Rightarrow> word32 \<Rightarrow> tx_out list \<times> word32" where
  "tx_tail 0 word crc = ([], crc)"
| "tx_tail (Suc n) word crc =
     (let (crc', word') = crc8shr crc word; (outs, crc') = tx_tail n word' crc'
      in (Out_part 8 word # outs, crc'))"

definition mii_transmit_packet :: "ram \<Rightarrow> addr \<Rightarrow> word32 \<Rightarrow> tx_out list \<times> ram" where
  "mii_transmit_packet s buf time =
     (let crc = 0;
          len = mii_packet_get_length s buf;
          tail_byte_count = unat (len AND 3);
          word_count = sint len div 4;
          dptr = mii_packet_get_data_ptr buf;
          wrap_ptr = mii_packet_get_wrap_ptr s buf;
          s = mii_packet_set_timestamp s buf time;
          word = mii_packet_get_data_word s dptr 0;
          crc = crc32 crc (NOT word);
          (outs, dptr, crc) = tx_loop s wrap_ptr (dptr + 4) 1 word_count crc;
          (tail_outs, crc) = (if tail_byte_count \<noteq> 0
                              then tx_tail tail_byte_count (mii_packet_get_data_word s dptr 0) crc
                              else ([], crc));
          crc = crc32 crc (NOT 0)
      in ([Out_word 0x55555555, Out_word 0xD5555555, Out_word word] @ outs @ tail_outs
            @ [Out_word crc], s))"

subsection \<open>The traffic shaper\<close>

text \<open>\<open>ethernet_tx_client_support.c\<close>; the division of the 64-bit value truncates towards zero.\<close>

definition trunc_div :: "int \<Rightarrow> int \<Rightarrow> int" where
  "trunc_div a b = sgn a * sgn b * (\<bar>a\<bar> div \<bar>b\<bar>)"

definition mac_calc_idle_slope :: "word32 \<Rightarrow> word32" where
  "mac_calc_idle_slope bps =
     (let slope = push_bit MII_CREDIT_FRACTIONAL_BITS (sint bps);
          slope = trunc_div (slope + (100000000 - 1)) 100000000
      in word_of_int slope)"

text \<open>The credit before the choice of a packet, and after a high priority packet was sent.\<close>

definition shaper_accrue :: "word32 \<Rightarrow> word32 \<Rightarrow> word32 \<Rightarrow> word32" where
  "shaper_accrue credit elapsed idle_slope = credit + elapsed * idle_slope"

text \<open>
  With a high priority packet ready the credit decides; otherwise positive credit is lost.
\<close>

definition shaper_gate :: "word32 \<Rightarrow> bool \<Rightarrow> bool \<times> word32" where
  "shaper_gate credit ready =
     (if ready then (\<not> sint credit < 0, credit)
      else (False, if 0 < sint credit then 0 else credit))"

definition shaper_charge :: "word32 \<Rightarrow> word32 \<Rightarrow> word32" where
  "shaper_charge credit len =
     (let preamble_bytes = 8; ifg_bytes = 96 div 8; crc_bytes = 4;
          len = len + preamble_bytes + ifg_bytes + crc_bytes
      in credit - push_bit (MII_CREDIT_FRACTIONAL_BITS + 3) len)"

subsection \<open>Choice of the next packet\<close>

text \<open>
  The variables that live across turns of the loop. \<open>idle_slope\<close> is declared in the loop body
  without an initial value and used before it is loaded; \<open>tx_idle_slope\<close> stands for whatever
  the variable holds when a turn starts.
\<close>

record tx_local =
  tx_credit :: word32
  tx_credit_time :: word32
  tx_idle_slope :: word32
  tx_ifg_time :: word32

text \<open>The scan of the other ports' receive pools for a packet to forward.\<close>

fun forward_scan :: "ram \<Rightarrow> (nat \<Rightarrow> addr) \<Rightarrow> nat \<Rightarrow> nat list \<Rightarrow> addr \<Rightarrow> addr" where
  "forward_scan s fwd ifnum [] buf = buf"
| "forward_scan s fwd ifnum (i # is) buf =
     (if i = ifnum then forward_scan s fwd ifnum is buf
      else
        let buf = mii_get_next_buf s (fwd i)
        in if buf = 0 then forward_scan s fwd ifnum is buf
           else if mii_packet_get_forwarding s buf \<noteq> 0 then buf
           else forward_scan s fwd ifnum is 0)"

text \<open>The pools and the slopes a transmit thread is given.\<close>

record tx_args =
  hp_forward :: "nat \<Rightarrow> addr"
  lp_forward :: "nat \<Rightarrow> addr"
  hp_queue :: addr
  lp_queue :: addr
  tx_ifnum :: nat

definition select_hp :: "mac_config \<Rightarrow> tx_args \<Rightarrow> ram \<Rightarrow> addr" where
  "select_hp c a s =
     (let buf = mii_get_next_buf s (hp_queue a)
      in if num_master_ports c > 1 \<and> \<not> port_forwarding_disabled c \<and>
            (buf = 0 \<or> mii_packet_get_stage s buf = 0)
         then forward_scan s (hp_forward a) (tx_ifnum a) [0..<num_master_ports c] buf
         else buf)"

text \<open>
  The traffic shaper's part of the choice: \<open>now\<close> is the time read from the timer, \<open>g_slope\<close> the
  port's entry of \<open>g_mii_idle_slope\<close>.
\<close>

definition shape :: "mac_config \<Rightarrow> ram \<Rightarrow> word32 \<Rightarrow> word32 \<Rightarrow> tx_local \<Rightarrow> addr \<Rightarrow> addr \<times> tx_local" where
  "shape c s now g_slope l buf =
     (if traffic_shaper c then
        let elapsed = now - tx_credit_time l;
            credit = shaper_accrue (tx_credit l) elapsed (tx_idle_slope l);
            ready = (buf \<noteq> 0 \<and> mii_packet_get_stage s buf = 1);
            (pass, credit) = shaper_gate credit ready;
            l = l\<lparr>tx_credit_time := now, tx_credit := credit\<rparr>
        in if ready then (if pass then buf else 0, l\<lparr>tx_idle_slope := g_slope\<rparr>) else (buf, l)
      else (buf, l))"

definition select_packet ::
  "mac_config \<Rightarrow> tx_args \<Rightarrow> ram \<Rightarrow> word32 \<Rightarrow> word32 \<Rightarrow> tx_local \<Rightarrow> addr \<times> bool \<times> tx_local" where
  "select_packet c a s now g_slope l =
     (let (buf, high, l) =
            (if tx_hp_queue c then
               let buf = select_hp c a s;
                   (buf, l) = shape c s now g_slope l buf
               in if buf = 0 \<or> mii_packet_get_stage s buf \<noteq> 1
                  then (mii_get_next_buf s (lp_queue a), False, l) else (buf, True, l)
             else (mii_get_next_buf s (lp_queue a), True, l));
          buf = (if port_forwarding c \<and> (buf = 0 \<or> mii_packet_get_stage s buf = 0)
                 then forward_scan s (lp_forward a) (tx_ifnum a) [0..<num_ports c] buf else buf)
      in (if buf = 0 then 0 else if mii_packet_get_stage s buf \<noteq> 1 then 0 else buf, high, l))"

subsection \<open>One turn of the loop\<close>

definition ETHERNET_IFS_AS_REF_CLOCK_COUNT :: word32 where
  "ETHERNET_IFS_AS_REF_CLOCK_COUNT = 96 + 96 - 10"

text \<open>After the packet is sent: credit, forwarding bits, and the release of the packet.\<close>

definition tx_done ::
  "mac_config \<Rightarrow> tx_args \<Rightarrow> bool \<Rightarrow> word32 \<Rightarrow> ram \<Rightarrow> mii_ts_queue_t \<Rightarrow> tx_local \<Rightarrow> addr \<Rightarrow>
   (ram \<times> mii_ts_queue_t \<times> tx_local) option" where
  "tx_done c a high eof_time s tsq l buf =
     (let len = mii_packet_get_length s buf;
          l = l\<lparr>tx_ifg_time := eof_time + ETHERNET_IFS_AS_REF_CLOCK_COUNT + (len AND 3) * 8\<rparr>;
          l = (if traffic_shaper c \<and> high
               then l\<lparr>tx_credit := shaper_charge (tx_credit l) len\<rparr> else l);
          s = (if mii_packet_get_forwarding s buf \<noteq> 0
               then snd (mii_packet_get_and_clear_forwarding s buf (tx_ifnum a)) else s);
          (count, s) = get_and_dec_transmit_count s buf
      in if count = 0 then
           if mii_packet_get_timestamp_id s buf \<noteq> 0 then
             Some (mii_packet_set_stage s buf 2, add_ts_queue_entry c tsq buf, l)
           else map_option (\<lambda>s. (s, tsq, l)) (mii_free s buf)
         else Some (s, tsq, l))"

definition tx_turn ::
  "mac_config \<Rightarrow> tx_args \<Rightarrow> word32 \<Rightarrow> word32 \<Rightarrow> word32 \<Rightarrow> word32 \<Rightarrow> ram \<Rightarrow> mii_ts_queue_t \<Rightarrow> tx_local \<Rightarrow>
   (tx_out list \<times> ram \<times> mii_ts_queue_t \<times> tx_local) option" where
  "tx_turn c a now g_slope time eof_time s tsq l =
     (let (buf, high, l) = select_packet c a s now g_slope l
      in if buf = 0 then Some ([], s, tsq, l)
         else
           let (outs, s) = mii_transmit_packet s buf time
           in map_option (\<lambda>r. (outs, r)) (tx_done c a high eof_time s tsq l buf))"

subsection \<open>What goes onto the wire\<close>

lemma tx_loop_spec:
  "transmit_words s wrap_ptr dptr (Suc (nat (word_count - i - 1))) = (ws, d) \<Longrightarrow>
     tx_loop s wrap_ptr dptr i word_count crc = (map Out_word ws, d, fold (\<lambda>w r. crc32 r w) ws crc)"
proof (induction "nat (word_count - i - 1)" arbitrary: dptr i crc ws d)
  case 0
  then show ?case
    by (auto simp: tx_loop.simps [of s wrap_ptr dptr] Let_def mii_packet_get_data_word_def)
next
  case (Suc n)
  have i: "i + 1 < word_count" using Suc.hyps(2) by simp
  have n: "n = nat (word_count - (i + 1) - 1)" using Suc.hyps(2) by simp
  let ?d = "wrap_dptr s wrap_ptr (dptr + 4)"
  obtain ws' where ws: "ws = ldw s dptr # ws'"
    and t: "transmit_words s wrap_ptr ?d (Suc (nat (word_count - (i + 1) - 1))) = (ws', d)"
    using Suc.prems [folded Suc.hyps(2)] unfolding n [symmetric]
    by (auto simp: Let_def transmit_words.simps(2) [of _ _ dptr] simp del: transmit_words.simps
        split: prod.splits)
  show ?case
    using i Suc.hyps(1) [OF n t, of "crc32 crc (ldw s dptr)"]
    by (simp add: tx_loop.simps [of s wrap_ptr dptr] Let_def mii_packet_get_data_word_def ws)
qed

lemma tx_tail_spec:
  "n < 4 \<Longrightarrow> tx_tail n word crc = (outs, crc') \<Longrightarrow>
     wire_bits outs = word_bits (8 * n) word \<and> crc' = crc_bits (word_bits (8 * n) word) crc"
proof (induction n arbitrary: word crc outs crc')
  case 0
  then show ?case by (simp add: wire_bits_def word_bits_def)
next
  case (Suc n)
  obtain outs1 where t: "tx_tail n (drop_bit 8 word) (crc_bits (word_bits 8 word) crc) = (outs1, crc')"
    and o: "outs = Out_part 8 word # outs1"
    using Suc.prems(2) by (auto simp: crc8shr_def split: prod.splits)
  have "word_bits (8 * Suc n) word = word_bits 8 word @ word_bits (8 * n) (drop_bit 8 word)"
    using word_bits_split [of 8 "8 * n" word] by (simp add: add.commute)
  then show ?case
    using Suc.IH [OF _ t] Suc.prems(1) by (simp add: o wire_bits_def)
qed

lemma wire_bits_words: "wire_bits (map Out_word ws) = concat (map (word_bits 32) ws)"
  by (simp add: wire_bits_def comp_def)

lemma wire_bits_append: "wire_bits (xs @ ys) = wire_bits xs @ wire_bits ys"
  by (simp add: wire_bits_def)

lemma fold_crc32_bits: "fold (\<lambda>w r. crc32 r w) ws r = crc_bits (concat (map (word_bits 32) ws)) r"
  by (induction ws arbitrary: r) (simp_all add: crc32_def)

lemma packet_words_set:
  assumes "packet_room s mp h n" "hdr_info s h = mp" "m \<le> n"
  shows "packet_words (mii_packet_set f s (buf_of_hdr h) x) (buf_of_hdr h) m = packet_words s (buf_of_hdr h) m"
proof -
  have "hdr_info (mii_packet_set f s (buf_of_hdr h) x) h = mp"
    using assms(2) BUF_OFFSET_range [of f]
    by (simp add: hdr_info_def mii_packet_set_def buf_of_hdr_def sizeof_malloc_hdr_def)
  moreover have "ldw (mii_packet_set f s (buf_of_hdr h) x) (data_addr (pools s mp) (buf_of_hdr h) j)
      = ldw s (data_addr (pools s mp) (buf_of_hdr h) j)" if "j < m" for j
    using data_addr_header [OF assms(1), of j] that assms(3) BUF_OFFSET_range [of f]
    by (intro ldw_packet_set) (auto simp: buf_of_hdr_def sizeof_malloc_hdr_def BUF_DATA_OFFSET_def)
  ultimately show ?thesis
    using assms(2) by (simp add: packet_words_addr)
qed

lemma length_word_split:
  assumes "len = word_of_int (4 * int m + int k)" "k < 4" "4 * m + 4 < 2 ^ 31"
  shows "sint (len :: word32) div 4 = int m" "unat (len AND 3) = k"
proof -
  have "0 \<le> 4 * int m + int k" "4 * int m + int k < 2 ^ 31" using assms(2,3) by auto
  then have u: "sint len = 4 * int m + int k" "uint len = 4 * int m + int k"
    using assms(1) by (simp_all only: sint_of_ptr uint_of_ptr)
  show "sint len div 4 = int m" using assms(2) by (simp add: u)
  have "len AND 3 = take_bit 2 len" by (simp add: take_bit_eq_mask mask_eq_exp_minus_1)
  then have "unat (len AND 3) = unat len mod 4"
    by (simp only: unsigned_take_bit_eq) (simp add: take_bit_eq_mod)
  moreover have "int (unat len) = int (4 * m + k)" using u(2) by simp
  ultimately show "unat (len AND 3) = k" using assms(2) by (simp only: of_nat_eq_iff) simp
qed

text \<open>
  The frame: the whole words of the packet, the left over bytes, and the checksum that brings
  the receiver's register to all ones.
\<close>

lemma mii_transmit_packet_wire:
  assumes room: "packet_room s mp h (Suc m)" and info: "hdr_info s h = mp"
    and len: "mii_packet_get_length s (buf_of_hdr h) = word_of_int (4 * int m + int k)"
    and k: "k < 4" and m: "2 \<le> m" "4 * m + 4 < 2 ^ 31"
    and tx: "mii_transmit_packet s (buf_of_hdr h) time = (outs, s')"
  shows "\<exists>fcs. wire_bits (drop 2 outs)
      = concat (map (word_bits 32) (packet_words s (buf_of_hdr h) m))
        @ word_bits (8 * k) (packet_words s (buf_of_hdr h) (Suc m) ! m) @ word_bits 32 fcs \<and>
      crc_bits (wire_bits (drop 2 outs)) crc_init = NOT 0" (is "?wire")
    "take 2 outs = [Out_word 0x55555555, Out_word 0xD5555555]"
    "s' = mii_packet_set_timestamp s (buf_of_hdr h) time"
proof -
  let ?b = "buf_of_hdr h" and ?t = "mii_packet_set_timestamp s (buf_of_hdr h) time"
  let ?a = "data_addr (pools s mp) (buf_of_hdr h)" and ?wrap = "pool_end (pools s mp)"
  let ?ws = "map (\<lambda>j. ldw ?t (?a j)) [1..<m]"
  note split = length_word_split [OF len k m(2)]
  have slot: "slot_ok (pools s mp) h" using room by (simp add: packet_room_def Let_def)
  have a0: "?a 0 = mii_packet_get_data_ptr ?b" "?a 1 = mii_packet_get_data_ptr ?b + 4"
    using data_addr_first [OF slot, of 0] data_addr_first [OF slot, of 1] by simp_all
  have wrap: "mii_packet_get_wrap_ptr s ?b = ?wrap"
    by (simp add: mii_packet_get_wrap_ptr_def info)
  have infot: "hdr_info ?t h = mp"
    using info BUF_OFFSET_range [of F_timestamp]
    by (simp add: hdr_info_def mii_packet_set_def buf_of_hdr_def sizeof_malloc_hdr_def)
  have roomt: "packet_room ?t mp h (Suc m)"
  proof -
    have "?wrap \<noteq> ?b + 4 * BUF_OFFSET F_timestamp"
      using slot by (auto simp: slot_ok_def buf_of_hdr_def sizeof_malloc_hdr_def)
    then show ?thesis using room ldw_packet_set by (simp add: packet_room_def Let_def)
  qed
  have words: "packet_words s ?b j = map (\<lambda>i. ldw ?t (?a i)) [0..<j]" if "j \<le> Suc m" for j
    using packet_words_set [OF room info that, of F_timestamp time] packet_words_addr [OF infot, of j]
    by simp
  have "transmit_words ?t ?wrap (?a 1) (Suc (nat (int m - 1 - 1))) = (?ws, ?a m)"
    using transmit_words_spec [OF roomt, of 1 "m - 1"] m
    by (simp add: nat_diff_distrib Suc_nat_eq_nat_zadd1 Suc_diff_Suc numeral_2_eq_2)
  from tx_loop_spec [OF this]
  have loop: "tx_loop ?t ?wrap (?a 1) 1 (int m) c = (map Out_word ?ws, ?a m, fold (\<lambda>w r. crc32 r w) ?ws c)"
    for c .
  obtain touts tcrc where tail: "tx_tail k (ldw ?t (?a m))
      (fold (\<lambda>w r. crc32 r w) ?ws (crc32 0 (NOT (ldw ?t (?a 0))))) = (touts, tcrc)"
    by (metis prod.exhaust)
  have outs: "outs = [Out_word 0x55555555, Out_word 0xD5555555, Out_word (ldw ?t (?a 0))]
      @ map Out_word ?ws @ touts @ [Out_word (crc32 tcrc (NOT 0))]" and s': "s' = ?t"
    using tx tail unfolding mii_transmit_packet_def Let_def split wrap a0(2) [symmetric] loop prod.case
    by (auto simp: mii_packet_get_data_word_def a0(1) split: if_splits prod.splits)
  note sp = tx_tail_spec [OF k tail]
  have cons: "map (\<lambda>i. ldw ?t (?a i)) [0..<m] = ldw ?t (?a 0) # ?ws"
    using m by (simp add: upt_rec [of 0])
  let ?ds = "concat (map (word_bits 32) ?ws) @ word_bits (8 * k) (ldw ?t (?a m))"
  have tcrc: "tcrc = crc_bits ?ds (crc32 0 (NOT (ldw ?t (?a 0))))"
    using sp by (simp add: fold_crc32_bits)
  have bits: "wire_bits (drop 2 outs) = word_bits 32 (ldw ?t (?a 0)) @ ?ds @ word_bits 32 (crc32 tcrc (NOT 0))"
    using sp by (simp add: outs wire_bits_append wire_bits_words)
      (simp add: wire_bits_def comp_def)
  have last: "packet_words s ?b (Suc m) ! m = ldw ?t (?a m)"
    by (simp add: words nth_append del: upt_Suc)
  have "wire_bits (drop 2 outs) = concat (map (word_bits 32) (packet_words s ?b m))
      @ word_bits (8 * k) (packet_words s ?b (Suc m) ! m) @ word_bits 32 (crc32 tcrc (NOT 0))"
    unfolding last bits words [OF le_SucI [OF order_refl]] cons by simp
  moreover have "crc_bits (wire_bits (drop 2 outs)) crc_init = NOT 0"
    unfolding bits tcrc by (rule crc_residue)
  ultimately show ?wire by blast
  show "take 2 outs = [Out_word 0x55555555, Out_word 0xD5555555]" by (simp add: outs)
  show "s' = ?t" by (rule s')
qed

lemma length_word_parts:
  assumes "8 \<le> sint (len :: word32)" "m = nat (sint len) div 4" "k = nat (sint len) mod 4"
  shows "sint len = 4 * int m + int k" "len = word_of_int (4 * int m + int k)" "k < 4" "2 \<le> m"
proof -
  have "int (nat (sint len)) = int (4 * m + k)" using assms(2,3) by simp
  then show n: "sint len = 4 * int m + int k" using assms(1) by simp
  show "len = word_of_int (4 * int m + int k)"
    using arg_cong [OF n, of "word_of_int :: int \<Rightarrow> word32"] by simp
  show "k < 4" "2 \<le> m" using assms by simp_all
qed

text \<open>The same for a packet of any length, with its first \<open>len\<close> bytes as bits.\<close>

definition packet_bits :: "ram \<Rightarrow> addr \<Rightarrow> bool list" where
  "packet_bits s buf =
     (let len = nat (sint (mii_packet_get_length s buf))
      in take (8 * len) (concat (map (word_bits 32) (packet_words s buf ((len + 3) div 4)))))"

definition wire_frame :: "ram \<Rightarrow> addr \<Rightarrow> tx_out list \<Rightarrow> bool" where
  "wire_frame s buf outs \<longleftrightarrow>
     take 2 outs = [Out_word 0x55555555, Out_word 0xD5555555] \<and>
     (\<exists>fcs. wire_bits (drop 2 outs) = packet_bits s buf @ word_bits 32 fcs) \<and>
     crc_bits (wire_bits (drop 2 outs)) crc_init = NOT 0"

lemma take_word_bits: "n \<le> 32 \<Longrightarrow> take n (word_bits 32 w) = word_bits n w"
  by (simp add: word_bits_def take_map)

lemma length_words_bits: "length (concat (map (word_bits 32) ws)) = 32 * length ws"
  by (induction ws) simp_all

lemma take_words_bits:
  "length ws = m \<Longrightarrow> k \<le> 4 \<Longrightarrow> take (8 * (4 * m + k)) (concat (map (word_bits 32) (ws @ [w])))
     = concat (map (word_bits 32) ws) @ word_bits (8 * k) w"
  by (simp add: length_words_bits take_word_bits)

lemma packet_bits_words:
  assumes len: "nat (sint (mii_packet_get_length s buf)) = 4 * m + k" and k: "k < 4"
  shows "packet_bits s buf = concat (map (word_bits 32) (packet_words s buf m))
    @ word_bits (8 * k) (packet_words s buf (Suc m) ! m)"
proof (cases "k = 0")
  case True
  then have "(4 * m + k + 3) div 4 = m" by simp
  moreover have "length (packet_words s buf m) = m" by (simp add: packet_words_def)
  ultimately show ?thesis
    using True length_words_bits [of "packet_words s buf m"] by (simp add: packet_bits_def len) (simp add: word_bits_def)
next
  case False
  then have n: "(4 * m + k + 3) div 4 = Suc m" using k by simp
  have "packet_words s buf (Suc m) = packet_words s buf m @ [packet_words s buf (Suc m) ! m]"
    by (simp add: packet_words_def nth_append)
  then show ?thesis
    unfolding packet_bits_def Let_def len n
    using k take_words_bits [of "packet_words s buf m" m k "packet_words s buf (Suc m) ! m"]
    by (metis length_map length_upt minus_nat.diff_0 nat_less_le packet_words_def)
qed

lemma transmitted_frame:
  assumes room: "packet_room s mp h (Suc (nat (sint (mii_packet_get_length s (buf_of_hdr h))) div 4))"
    and info: "hdr_info s h = mp" and len: "8 \<le> sint (mii_packet_get_length s (buf_of_hdr h))"
  shows "wire_frame s (buf_of_hdr h) (fst (mii_transmit_packet s (buf_of_hdr h) time))"
proof -
  let ?w = "mii_packet_get_length s (buf_of_hdr h)"
  define m where "m = nat (sint ?w) div 4"
  define k where "k = nat (sint ?w) mod 4"
  have n: "nat (sint ?w) = 4 * m + k" by (simp add: m_def k_def)
  note l = length_word_parts [OF len m_def k_def]
  have room': "packet_room s mp h (Suc m)" using room by (simp add: m_def)
  then have "48 + 4 * int (Suc m) \<le> pool_len (pools s mp)" "pool_shape (pools s mp) mp"
    by (simp_all add: packet_room_def Let_def)
  then have b: "4 * m + 4 < 2 ^ 31"
    by (simp add: pool_shape_def pool_len_def sizeof_mempool_info_def)
  obtain outs s' where tx: "mii_transmit_packet s (buf_of_hdr h) time = (outs, s')" by fastforce
  show ?thesis
    using mii_transmit_packet_wire [OF room' info l(2,3,4) b tx] packet_bits_words [OF n l(3)]
    by (auto simp: wire_frame_def tx)
qed

subsection \<open>Turns of the loop\<close>

lemma field_keeps_header:
  assumes wf: "pool_wf s mp q" and h: "h \<in> fst ` set q" and g: "g \<in> fst ` set q"
  shows "g \<noteq> h \<Longrightarrow> mii_packet_get f (mii_packet_set f' s (buf_of_hdr h) x) (buf_of_hdr g)
    = mii_packet_get f s (buf_of_hdr g)"
  using pool_wf_apart [OF wf h g] BUF_OFFSET_range [of f] BUF_OFFSET_range [of f']
  by (auto simp: mii_packet_get_def mii_packet_set_def buf_of_hdr_def BUF_DATA_OFFSET_def)

lemma free_keeps_fields:
  assumes inv: "pool_inv s mp q" and h: "h \<in> fst ` set q" and g: "g \<in> fst ` set q"
    and s': "mii_free s (buf_of_hdr h) = Some s'"
  shows "mii_packet_get f s' (buf_of_hdr g) = mii_packet_get f s (buf_of_hdr g)"
proof -
  have "buf_of_hdr g + 4 * BUF_OFFSET f \<notin> fst ` set q"
  proof
    assume a: "buf_of_hdr g + 4 * BUF_OFFSET f \<in> fst ` set q"
    then show False
      using pool_wf_apart [OF pool_inv_wf [OF inv] a g] BUF_OFFSET_range [of f]
      by (auto simp: buf_of_hdr_def sizeof_malloc_hdr_def BUF_DATA_OFFSET_def)
  qed
  then show ?thesis
    using mii_free_frame(5) [OF inv h s'] by (simp add: mii_packet_get_def)
qed

text \<open>A turn returns when the packet it chose is in a pool.\<close>

lemma tx_done_returns:
  assumes inv: "pool_inv s mp q" and h: "h \<in> fst ` set q"
  shows "\<exists>r. tx_done c a high eof_time s tsq l (buf_of_hdr h) = Some r"
proof -
  let ?b = "buf_of_hdr h"
  define s1 where "s1 = (if mii_packet_get_forwarding s ?b \<noteq> 0
    then snd (mii_packet_get_and_clear_forwarding s ?b (tx_ifnum a)) else s)"
  have "pool_inv s1 mp q"
    using inv field_pool_inv [OF inv h] by (simp add: s1_def mii_packet_get_and_clear_forwarding_def Let_def)
  then have "pool_inv (snd (get_and_dec_transmit_count s1 ?b)) mp q"
    using field_pool_inv [OF _ h] by (simp add: get_and_dec_transmit_count_def Let_def)
  then obtain s2 where "mii_free (snd (get_and_dec_transmit_count s1 ?b)) ?b = Some s2"
    using mii_free_refines [OF _ h] by blast
  then show ?thesis
    by (auto simp: tx_done_def Let_def s1_def split_beta)
qed

lemma tx_turn_returns:
  assumes "select_packet c a s now g_slope l = (buf, high, l1)"
    and "buf \<noteq> 0 \<Longrightarrow> pool_inv s mp q \<and> (\<exists>h \<in> fst ` set q. buf = buf_of_hdr h)"
  shows "\<exists>outs r. tx_turn c a now g_slope time eof_time s tsq l = Some (outs, r)"
proof (cases "buf = 0")
  case True
  then show ?thesis using assms(1) by (simp add: tx_turn_def)
next
  case False
  then obtain h where h: "pool_inv s mp q" "h \<in> fst ` set q" "buf = buf_of_hdr h" using assms(2) by blast
  obtain outs s1 where m: "mii_transmit_packet s buf time = (outs, s1)" by fastforce
  then have "s1 = mii_packet_set_timestamp s buf time"
    by (auto simp: mii_transmit_packet_def Let_def split: prod.splits)
  then have "pool_inv s1 mp q" using field_pool_inv [OF h(1,2)] h(3) by simp
  from tx_done_returns [OF this h(2)] show ?thesis
    using assms(1) m False h(3) by (force simp: tx_turn_def)
qed

text \<open>A packet that can leave at once: marked for transmission, last user, no timestamp wanted.\<close>

definition tx_ready :: "ram \<Rightarrow> addr \<Rightarrow> bool" where
  "tx_ready s buf \<longleftrightarrow> mii_packet_get_stage s buf = 1 \<and> mii_packet_get_tcount s buf = 0 \<and>
     mii_packet_get_timestamp_id s buf = 0"

text \<open>An address that is no word of the headers of a queue's packets.\<close>

definition off_headers :: "pool_queue \<Rightarrow> addr \<Rightarrow> bool" where
  "off_headers q x \<longleftrightarrow> (\<forall>g \<in> fst ` set q. x < g \<or> g + 48 \<le> x)"

lemma packet_set_elsewhere:
  "x < h \<or> h + 48 \<le> x \<Longrightarrow> ldw (mii_packet_set f s (buf_of_hdr h) v) x = ldw s x"
  using BUF_OFFSET_range [of f]
  by (intro ldw_packet_set) (auto simp: buf_of_hdr_def sizeof_malloc_hdr_def BUF_DATA_OFFSET_def)

lemma tx_turn_head:
  assumes inv: "pool_inv s (lp_queue a) ((h, f) # q)" and ready: "tx_ready s (buf_of_hdr h)"
    and c: "\<not> tx_hp_queue c" "\<not> port_forwarding c"
  shows "\<exists>s' l'. tx_turn c a now g_slope time eof_time s tsq l
      = Some (fst (mii_transmit_packet s (buf_of_hdr h) time), s', tsq, l') \<and>
    pool_inv s' (lp_queue a) (dropWhile snd q) \<and>
    (\<forall>g \<in> fst ` set q. \<forall>f. mii_packet_get f s' (buf_of_hdr g) = mii_packet_get f s (buf_of_hdr g)) \<and>
    (\<forall>x. off_headers ((h, f) # q) x \<longrightarrow> ldw s' x = ldw s x) \<and>
    pool_start (pools s' (lp_queue a)) = pool_start (pools s (lp_queue a)) \<and>
    pool_end (pools s' (lp_queue a)) = pool_end (pools s (lp_queue a))"
proof -
  let ?mp = "lp_queue a" and ?b = "buf_of_hdr h" and ?q = "(h, f) # q"
  note wf = pool_inv_wf [OF inv]
  have f: "\<not> f" and hq: "h \<in> fst ` set ?q" and nq: "h \<notin> fst ` set q"
    using inv mempool.inv_distinct [OF inv] by (auto simp: pool_inv_def)
  have nz: "?b \<noteq> 0"
    using mempool.inv_nonneg [OF inv hq] by (simp add: buf_of_hdr_def sizeof_malloc_hdr_def)
  have sel: "select_packet c a s now g_slope l = (?b, True, l)"
    using mii_get_next_buf_spec [OF inv] nz ready c
    by (simp add: select_packet_def Let_def next_spec_def tx_ready_def)
  define s1 where "s1 = mii_packet_set_timestamp s ?b time"
  define s2 where "s2 = (if mii_packet_get_forwarding s1 ?b \<noteq> 0 then
      mii_packet_set_forwarding s1 ?b 0 else s1)"
  have inv1: "pool_inv s1 ?mp ?q" unfolding s1_def by (rule field_pool_inv [OF inv hq])
  have inv2: "pool_inv s2 ?mp ?q" unfolding s2_def using inv1 field_pool_inv [OF inv1 hq] by simp
  obtain s3 where s3: "mii_free s2 ?b = Some s3" "pool_inv s3 ?mp (free_spec h ?q)"
    using mii_free_refines [OF inv2 hq] by blast
  have fs: "free_spec h ?q = dropWhile snd q"
    using f nq by (simp add: free_spec_def toggle_Cons toggle_not_in)
  have tcount: "mii_packet_get_tcount s2 ?b = 0" and tsid: "mii_packet_get_timestamp_id s2 ?b = 0"
    using ready by (simp_all add: s2_def s1_def tx_ready_def)
  have snd: "snd (mii_transmit_packet s ?b time) = s1"
    by (simp add: mii_transmit_packet_def Let_def s1_def split: prod.splits)
  have done_: "\<exists>l'. tx_done c a high eof_time s1 tsq l ?b = Some (s3, tsq, l')" for high l
    using tcount tsid s3(1)
    by (simp add: tx_done_def Let_def get_and_dec_transmit_count_def
        mii_packet_get_and_clear_forwarding_def s2_def split: if_splits)
  then obtain l' where "tx_done c a True eof_time s1 tsq l ?b = Some (s3, tsq, l')" by blast
  then have "tx_turn c a now g_slope time eof_time s tsq l
      = Some (fst (mii_transmit_packet s ?b time), s3, tsq, l')"
    using nz snd by (simp add: tx_turn_def sel split_beta)
  moreover have "mii_packet_get x s3 (buf_of_hdr g) = mii_packet_get x s (buf_of_hdr g)"
    if g: "g \<in> fst ` set q" for g x
  proof -
    have gq: "g \<in> fst ` set ?q" and gh: "g \<noteq> h" using g nq by auto
    have "mii_packet_get x s3 (buf_of_hdr g) = mii_packet_get x s2 (buf_of_hdr g)"
      by (rule free_keeps_fields [OF inv2 hq gq s3(1)])
    also have "\<dots> = mii_packet_get x s (buf_of_hdr g)"
      using field_keeps_header [OF wf hq gq gh] field_keeps_header [OF pool_inv_wf [OF inv1] hq gq gh]
      by (simp add: s2_def s1_def)
    finally show ?thesis .
  qed
  moreover have "ldw s3 x = ldw s x" if x: "off_headers ?q x" for x
  proof -
    have "x \<notin> fst ` set ?q" "x < h \<or> h + 48 \<le> x"
      using x by (auto simp: off_headers_def)
    then show ?thesis
      using mii_free_frame(5) [OF inv2 hq s3(1), of x] packet_set_elsewhere [of x h]
      by (simp add: s2_def s1_def)
  qed
  moreover have "pool_start (pools s3 ?mp) = pool_start (pools s ?mp)" "pool_end (pools s3 ?mp) = pool_end (pools s ?mp)"
    using mii_free_frame(2,3) [OF inv2 hq s3(1)] by (simp_all add: s2_def s1_def)
  ultimately show ?thesis
    using s3(2) unfolding fs by (intro exI [of _ s3] exI [of _ l']) simp
qed

text \<open>
  A frame of at least 8 bytes whose words lie in the pool, apart from the headers of the packets.
\<close>

definition tx_frame_ok :: "ram \<Rightarrow> addr \<Rightarrow> pool_queue \<Rightarrow> addr \<Rightarrow> bool" where
  "tx_frame_ok s mp q h \<longleftrightarrow>
     (let len = sint (mii_packet_get_length s (buf_of_hdr h))
      in 8 \<le> len \<and> packet_room s mp h (Suc (nat len div 4)) \<and>
         (\<forall>j < (nat len + 3) div 4. off_headers q (data_addr (pools s mp) (buf_of_hdr h) j)))"

lemma tx_frame_kept:
  assumes ok: "tx_frame_ok s mp (x # q) h" and h: "h \<in> fst ` set q"
    and inv: "pool_inv s mp (x # q)" and inv': "pool_inv s' mp q"
    and len: "mii_packet_get_length s' (buf_of_hdr h) = mii_packet_get_length s (buf_of_hdr h)"
    and keep: "\<forall>a. off_headers (x # q) a \<longrightarrow> ldw s' a = ldw s a"
    and p: "pool_start (pools s' mp) = pool_start (pools s mp)" "pool_end (pools s' mp) = pool_end (pools s mp)"
  shows "tx_frame_ok s' mp q h" "packet_bits s' (buf_of_hdr h) = packet_bits s (buf_of_hdr h)"
proof -
  let ?n = "nat (sint (mii_packet_get_length s (buf_of_hdr h)))"
  have a: "data_addr (pools s' mp) b j = data_addr (pools s mp) b j" for b j
    by (simp add: data_addr_def pool_len_def p Let_def)
  have off: "off_headers (x # q) (data_addr (pools s mp) (buf_of_hdr h) j)" if "j < (?n + 3) div 4" for j
    using ok that by (simp add: tx_frame_ok_def Let_def)
  then have "off_headers q (data_addr (pools s mp) (buf_of_hdr h) j)" if "j < (?n + 3) div 4" for j
    using that by (simp add: off_headers_def)
  moreover have "packet_room s' mp h k" if "packet_room s mp h k" for k
    using that inv' h by (auto simp: packet_room_def Let_def pool_len_def p pool_inv_def pool_wf_def list_all_iff)
  ultimately show "tx_frame_ok s' mp q h"
    using ok by (simp add: tx_frame_ok_def Let_def len a)
  have "hdr_info s h = mp" "hdr_info s' h = mp"
    using h chain_info [OF pool_wf_chain [OF pool_inv_wf [OF inv']]]
      chain_info [OF pool_wf_chain [OF pool_inv_wf [OF inv]]] by force+
  then have "packet_words s' (buf_of_hdr h) ((?n + 3) div 4) = packet_words s (buf_of_hdr h) ((?n + 3) div 4)"
    using keep off by (simp add: packet_words_addr a)
  then show "packet_bits s' (buf_of_hdr h) = packet_bits s (buf_of_hdr h)"
    by (simp add: packet_bits_def Let_def len)
qed

text \<open>The output of a number of turns; a turn is given by its timer values.\<close>

fun tx_run :: "mac_config \<Rightarrow> tx_args \<Rightarrow> (word32 \<times> word32 \<times> word32 \<times> word32) list \<Rightarrow> ram \<Rightarrow>
    mii_ts_queue_t \<Rightarrow> tx_local \<Rightarrow> (tx_out list list \<times> ram) option" where
  "tx_run c a [] s tsq l = Some ([], s)"
| "tx_run c a ((now, g_slope, time, eof_time) # ts) s tsq l =
     (case tx_turn c a now g_slope time eof_time s tsq l of
        None \<Rightarrow> None
      | Some (outs, s, tsq, l) \<Rightarrow> map_option (\<lambda>(os, s). (outs # os, s)) (tx_run c a ts s tsq l))"

text \<open>C13: The transmit thread sends in order. In a build without priorities and forwarding, with a
pool of packets marked for transmission and no timestamps wanted, as many turns as there are
packets put the packets on the wire one after the other in the order in which they were committed,
each once: the output of each turn is the preamble, the bits of that packet's bytes as they were
at the start, and a checksum that is right for them. Each packet is freed and the pool is empty at the
end; no turn fails. The frames have at least 8 bytes, which lie apart from the other packets' headers.\<close>

theorem tx_run_in_order:
  assumes "pool_inv s (lp_queue a) q" and "\<forall>(h, f) \<in> set q. \<not> f \<and> tx_ready s (buf_of_hdr h)"
    and "\<forall>h \<in> fst ` set q. tx_frame_ok s (lp_queue a) q h"
    and "length ts = length q" and c: "\<not> tx_hp_queue c" "\<not> port_forwarding c"
  shows "\<exists>sent s'. tx_run c a ts s tsq l = Some (sent, s') \<and> pool_inv s' (lp_queue a) [] \<and>
    list_all2 (\<lambda>(h, f) outs. wire_frame s (buf_of_hdr h) outs) q sent"
  using assms(1-4)
proof (induction q arbitrary: s ts tsq l)
  case Nil
  then show ?case by simp
next
  case (Cons x q)
  obtain h f where x: "x = (h, f)" by (cases x)
  obtain now g_slope time eof_time ts' where ts: "ts = (now, g_slope, time, eof_time) # ts'"
    using Cons.prems(4) by (metis length_Suc_conv prod_cases4)
  have inv: "pool_inv s (lp_queue a) ((h, f) # q)" and ready: "tx_ready s (buf_of_hdr h)"
    and ok: "tx_frame_ok s (lp_queue a) (x # q) h"
    using Cons.prems by (auto simp: x)
  obtain s1 l1 where t: "tx_turn c a now g_slope time eof_time s tsq l
      = Some (fst (mii_transmit_packet s (buf_of_hdr h) time), s1, tsq, l1)"
    and inv1: "pool_inv s1 (lp_queue a) (dropWhile snd q)"
    and keep: "\<forall>g \<in> fst ` set q. \<forall>f. mii_packet_get f s1 (buf_of_hdr g) = mii_packet_get f s (buf_of_hdr g)"
    and frame: "\<forall>y. off_headers (x # q) y \<longrightarrow> ldw s1 y = ldw s y"
      "pool_start (pools s1 (lp_queue a)) = pool_start (pools s (lp_queue a))"
      "pool_end (pools s1 (lp_queue a)) = pool_end (pools s (lp_queue a))"
    using tx_turn_head [OF inv ready c] unfolding x by blast
  have dw: "dropWhile snd q = q"
    using Cons.prems(2) by (cases q) (auto simp: x)
  have K: "tx_frame_ok s1 (lp_queue a) q g \<and> packet_bits s1 (buf_of_hdr g) = packet_bits s (buf_of_hdr g)"
    if "g \<in> fst ` set q" for g
    using tx_frame_kept [OF _ that Cons.prems(1) inv1 [unfolded dw] _ frame] Cons.prems(3) keep that by simp
  have "\<forall>(h, f) \<in> set q. \<not> f \<and> tx_ready s1 (buf_of_hdr h)"
    using Cons.prems(2) keep by (force simp: x tx_ready_def)
  then obtain sent s' where IH: "tx_run c a ts' s1 tsq l1 = Some (sent, s')" "pool_inv s' (lp_queue a) []"
    "list_all2 (\<lambda>(h, f) outs. wire_frame s1 (buf_of_hdr h) outs) q sent"
    using Cons.IH [of s1 ts' tsq l1] inv1 dw K Cons.prems(4) by (auto simp: ts)
  have "list_all2 (\<lambda>(h, f) outs. wire_frame s (buf_of_hdr h) outs) q sent"
    using IH(3) by (rule list.rel_mono_strong) (use K in \<open>force simp: wire_frame_def\<close>)
  moreover have "hdr_info s h = lp_queue a"
    using chain_info [OF pool_wf_chain [OF pool_inv_wf [OF inv]], of h f] by simp
  then have "wire_frame s (buf_of_hdr h) (fst (mii_transmit_packet s (buf_of_hdr h) time))"
    using ok by (intro transmitted_frame) (simp_all add: tx_frame_ok_def Let_def)
  ultimately show ?case using t IH(1,2) by (simp add: ts x)
qed

definition example_marked :: ram where
  "example_marked = fold (\<lambda>b s. mii_packet_set_length (mii_packet_set_stage s b 1) b 61) [1052, 1180, 1308] example_pool"

theorem tx_run_in_order_witness:
  "\<exists>sent s'. tx_run default_config \<lparr>hp_forward = \<lambda>i. 0, lp_forward = \<lambda>i. 0, hp_queue = 0, lp_queue = 1024,
       tx_ifnum = 0\<rparr> [(1, 0, 2, 3), (4, 0, 5, 6), (7, 0, 8, 9)] example_marked
       \<lparr>ts_lock = 0, rdIndex = 0, wrIndex = 0, fifo = [0, 0, 0, 0, 0, 0]\<rparr>
       \<lparr>tx_credit = 0, tx_credit_time = 0, tx_idle_slope = 0, tx_ifg_time = 0\<rparr>
     = Some (sent, s') \<and> length sent = 3 \<and> wire_frame example_marked 1308 (sent ! 2)"
proof -
  let ?a = "\<lparr>hp_forward = \<lambda>i. 0, lp_forward = \<lambda>i. 0, hp_queue = 0, lp_queue = 1024, tx_ifnum = 0\<rparr>"
  have inv: "pool_inv example_marked (lp_queue ?a) example_queue"
    by code_simp
  have ready: "\<forall>(h, f) \<in> set example_queue. \<not> f \<and> tx_ready example_marked (buf_of_hdr h)"
    by code_simp
  have ok: "\<forall>h \<in> fst ` set example_queue. tx_frame_ok example_marked (lp_queue ?a) example_queue h"
    by code_simp
  have n: "length [(1, 0, 2, 3), (4, 0, 5, 6), (7, 0, 8, 9) :: word32 \<times> word32 \<times> word32 \<times> word32]
      = length example_queue" by (simp add: example_queue_def)
  have c: "\<not> tx_hp_queue default_config" "\<not> port_forwarding default_config"
    by (simp_all add: default_config_def port_forwarding_def)
  have b: "buf_of_hdr 1300 = 1308" by (simp add: buf_of_hdr_def sizeof_malloc_hdr_def)
  obtain sent s' where r: "tx_run default_config ?a [(1, 0, 2, 3), (4, 0, 5, 6), (7, 0, 8, 9)] example_marked
       \<lparr>ts_lock = 0, rdIndex = 0, wrIndex = 0, fifo = [0, 0, 0, 0, 0, 0]\<rparr>
       \<lparr>tx_credit = 0, tx_credit_time = 0, tx_idle_slope = 0, tx_ifg_time = 0\<rparr> = Some (sent, s')"
    and w: "list_all2 (\<lambda>(h, f) outs. wire_frame example_marked (buf_of_hdr h) outs) example_queue sent"
    using tx_run_in_order [OF inv ready ok n c] by blast
  have "length sent = 3 \<and> wire_frame example_marked 1308 (sent ! 2)"
    using w b by (auto simp: example_queue_def list_all2_Cons1)
  then show ?thesis using r by blast
qed

end
