(* ===== verification/Mac_Link.thy ===== *)
theory Mac_Link
  imports Mii_Tx_Pins Ethernet_Filter
begin

text \<open>The two ends of a link: what one MAC transmits and what the filter of another accepts.\<close>

lemma word_bits_inj: "word_bits 32 v = word_bits 32 w \<Longrightarrow> v = w"
proof (rule bit_word_eqI)
  fix n :: nat
  assume eq: "word_bits 32 v = word_bits 32 w" and n: "n < LENGTH(32)"
  have "word_bits 32 v ! n = word_bits 32 w ! n" by (simp add: eq)
  then show "bit v n = bit w n" using n by (simp add: word_bits_def)
qed

lemma concat_word_bits_inj:
  "concat (map (word_bits 32) xs) @ r = concat (map (word_bits 32) ys) @ r' \<Longrightarrow>
     length xs = length ys \<Longrightarrow> xs = ys"
proof (induction xs arbitrary: ys)
  case Nil
  then show ?case by simp
next
  case (Cons x xs)
  then obtain y ys' where ys: "ys = y # ys'" by (cases ys) auto
  then have "word_bits 32 x @ concat (map (word_bits 32) xs) @ r
      = word_bits 32 y @ concat (map (word_bits 32) ys') @ r'"
    using Cons.prems by simp
  then have "word_bits 32 x = word_bits 32 y"
    "concat (map (word_bits 32) xs) @ r = concat (map (word_bits 32) ys') @ r'"
    by (simp_all add: append_eq_append_conv)
  then show ?case
    using Cons.IH [of ys'] Cons.prems(2) word_bits_inj by (simp add: ys)
qed

lemma length_frame_bits: "length (frame_bits ws k tail) = 32 * length ws + 8 * k"
  by (simp add: frame_bits_def length_concat_same [where n = 32])

text \<open>C9: A transmitted frame arrives. Let \<open>mii_transmit_packet\<close> send a packet of \<open>4 m + k\<close> bytes. If
the bits after the preamble reach another MAC unchanged and its receive thread has stored them
in a packet, then the checksum the filter finishes is all ones, so the frame is not dropped for
its checksum, the received length is the length that was sent, and the received words are the
words of the sent packet. The checksum sent is the one the receiver expects for every content.\<close>

theorem transmitted_frame_accepted:
  assumes room: "packet_room s mp h (Suc m)" and info: "hdr_info s h = mp"
    and len: "mii_packet_get_length s (buf_of_hdr h) = word_of_int (4 * int m + int k)"
    and k: "k < 4" and m: "2 \<le> m" "4 * m + 4 < 2 ^ 31"
    and tx: "mii_transmit_packet s (buf_of_hdr h) time = (outs, s')"
    and rx: "holds_frame t buf ws j tail" "frame_bits ws j tail = wire_bits (drop 2 outs)"
  shows "filter_crc t buf = NOT 0 \<and>
    mii_packet_get_length t buf = mii_packet_get_length s (buf_of_hdr h) \<and>
    take m ws = packet_words s (buf_of_hdr h) m"
proof -
  obtain fcs where w: "wire_bits (drop 2 outs)
      = concat (map (word_bits 32) (packet_words s (buf_of_hdr h) m))
        @ word_bits (8 * k) (packet_words s (buf_of_hdr h) (Suc m) ! m) @ word_bits 32 fcs"
    and crc: "crc_bits (wire_bits (drop 2 outs)) crc_init = NOT 0"
    using mii_transmit_packet_wire(1) [OF room info len k m tx] by blast
  have j: "j < 4" using rx(1) by (simp add: holds_frame_def)
  have "32 * length ws + 8 * j = 32 * m + 8 * k + 32"
    using arg_cong [OF w, of length] length_frame_bits [of ws j tail]
    by (simp add: rx(2) length_concat_same [where n = 32] packet_words_def)
  then have n: "length ws = Suc m" "j = k" using j k by presburger+
  have "concat (map (word_bits 32) (take m ws)) @
      concat (map (word_bits 32) (drop m ws)) @ word_bits (8 * j) tail
      = concat (map (word_bits 32) (packet_words s (buf_of_hdr h) m))
        @ word_bits (8 * k) (packet_words s (buf_of_hdr h) (Suc m) ! m) @ word_bits 32 fcs"
  proof -
    have "concat (map (word_bits 32) ws)
        = concat (map (word_bits 32) (take m ws)) @ concat (map (word_bits 32) (drop m ws))"
      by (metis append_take_drop_id concat_append map_append)
    then show ?thesis using rx(2) w by (simp add: frame_bits_def)
  qed
  then have "take m ws = packet_words s (buf_of_hdr h) m"
    by (rule concat_word_bits_inj) (simp add: n packet_words_def)
  moreover have "mii_packet_get_length t buf = word_of_int (4 * int m + int k)"
    using rx(1) n by (simp add: holds_frame_def)
  ultimately show ?thesis
    using filter_crc_frame [OF rx(1)] rx(2) crc len by simp
qed

definition example_outgoing :: ram where
  "example_outgoing = mii_packet_set_stage (mii_packet_set_length example_pool 1052 60) 1052 1"

theorem transmitted_frame_accepted_witness:
  "\<exists>fcs. filter_crc (frame_ram (packet_words example_outgoing 1052 15 @ [fcs]) 0 0) 100 = NOT 0"
proof -
  have b: "buf_of_hdr 1044 = 1052" by (simp add: buf_of_hdr_def sizeof_malloc_hdr_def)
  have room: "packet_room example_outgoing 1024 1044 (Suc 15)" "hdr_info example_outgoing 1044 = 1024"
    by code_simp+
  have len: "mii_packet_get_length example_outgoing (buf_of_hdr 1044) = word_of_int (4 * int 15 + int 0)"
    unfolding b by code_simp
  obtain outs s' where tx: "mii_transmit_packet example_outgoing (buf_of_hdr 1044) 0 = (outs, s')"
    by (metis prod.exhaust)
  obtain fcs where w: "wire_bits (drop 2 outs)
      = concat (map (word_bits 32) (packet_words example_outgoing 1052 15))
        @ word_bits (8 * 0) (packet_words example_outgoing 1052 (Suc 15) ! 15) @ word_bits 32 fcs"
    using mii_transmit_packet_wire(1) [OF room len _ _ _ tx] unfolding b by auto
  let ?ws = "packet_words example_outgoing 1052 15 @ [fcs]"
  have f: "holds_frame (frame_ram ?ws 0 0) 100 ?ws 0 0"
    by (rule frame_ram_holds) (simp_all add: packet_words_def)
  have fb: "frame_bits ?ws 0 0 = wire_bits (drop 2 outs)"
    unfolding w by (simp add: frame_bits_def word_bits_def [of 0])
  show ?thesis
    using transmitted_frame_accepted [OF room len _ _ _ tx f fb] by auto
qed

end
