(* ===== verification/Nettypes.thy ===== *)
theory Nettypes
  imports Prelude
begin

text \<open>
  \<open>nettypes.h\<close>: integers of the little-endian host and the big-endian byte arrays of network
  headers. The structures that wrap the arrays are byte lists of fixed length.
\<close>

type_synonym u16_t = "16 word"
type_synonym u32_t = "32 word"
type_synonym u64_t = "64 word"
type_synonym net_bytes = "byte list"

definition hton16 :: "u16_t \<Rightarrow> net_bytes" where
  "hton16 x = [ucast (drop_bit 8 x), ucast (x AND 0xff)]"

definition ntoh16 :: "net_bytes \<Rightarrow> u16_t" where
  "ntoh16 x = ucast (push_bit 8 (ucast (x ! 0)) OR ucast (x ! 1) :: 32 word)"

definition ntoh32 :: "net_bytes \<Rightarrow> u32_t" where
  "ntoh32 x =
     push_bit 24 (ucast (x ! 0)) OR push_bit 16 (ucast (x ! 1)) OR push_bit 8 (ucast (x ! 2))
       OR ucast (x ! 3)"

definition ntoh64 :: "net_bytes \<Rightarrow> u64_t" where
  "ntoh64 x = fold (\<lambda>i ret. push_bit 8 ret + ucast (x ! i)) [0..<8] 0"

definition hton32 :: "u32_t \<Rightarrow> net_bytes" where
  "hton32 x =
     [ucast (drop_bit 24 x AND 0xff), ucast (drop_bit 16 x AND 0xff),
      ucast (drop_bit 8 x AND 0xff), ucast (drop_bit 0 x AND 0xff)]"

definition hton80 :: "byte list \<Rightarrow> net_bytes" where
  "hton80 x = map (\<lambda>i. x ! (9 - i)) [0..<10]"

subsection \<open>Ethernet headers\<close>

record ethernet_hdr_t =
  dest_addr :: "byte list"
  src_addr :: "byte list"
  ethertype :: net_bytes

record tagged_ethernet_hdr_t =
  tagged_dest_addr :: "byte list"
  tagged_src_addr :: "byte list"
  qtag :: net_bytes
  tagged_ethertype :: net_bytes

text \<open>The headers as the bytes of a frame, the members in order and without padding.\<close>

definition ethernet_hdr_bytes :: "ethernet_hdr_t \<Rightarrow> byte list" where
  "ethernet_hdr_bytes h = dest_addr h @ src_addr h @ ethertype h"

definition ethernet_hdr_of :: "byte list \<Rightarrow> ethernet_hdr_t" where
  "ethernet_hdr_of bs =
     \<lparr>dest_addr = take 6 bs, src_addr = take 6 (drop 6 bs), ethertype = take 2 (drop 12 bs)\<rparr>"

definition tagged_ethernet_hdr_of :: "byte list \<Rightarrow> tagged_ethernet_hdr_t" where
  "tagged_ethernet_hdr_of bs =
     \<lparr>tagged_dest_addr = take 6 bs, tagged_src_addr = take 6 (drop 6 bs),
      qtag = take 4 (drop 12 bs), tagged_ethertype = take 2 (drop 16 bs)\<rparr>"

subsection \<open>The big-endian value of a byte list\<close>

fun be_value :: "byte list \<Rightarrow> nat \<Rightarrow> nat" where
  "be_value [] n = n"
| "be_value (b # bs) n = be_value bs (256 * n + unat b)"

lemma mask_ff: "bit (255 :: int) n \<longleftrightarrow> n < 8"
proof -
  have "(255 :: int) = mask 8" by (simp add: mask_eq_exp_minus_1)
  then show ?thesis by (simp only: bit_mask_iff) simp
qed

lemma list2: "length xs = 2 \<Longrightarrow> xs = [xs ! 0, xs ! 1]"
  by (cases xs; cases "tl xs") auto

lemma list4: "length xs = 4 \<Longrightarrow> xs = [xs ! 0, xs ! 1, xs ! 2, xs ! 3]"
  by (intro nth_equalityI) (auto simp: less_Suc_eq numeral_eq_Suc)

lemma ntoh16_hton16: "ntoh16 (hton16 x) = x"
proof (rule bit_word_eqI)
  fix n :: nat
  assume "n < LENGTH(16)"
  then show "bit (ntoh16 (hton16 x)) n = bit x n"
    by (cases "n < 8") (auto simp: ntoh16_def hton16_def bit_simps mask_ff)
qed

lemma hton16_ntoh16:
  assumes "length b = 2"
  shows "hton16 (ntoh16 b) = b"
proof -
  have 1: "ucast (drop_bit 8 (ntoh16 b)) = b ! 0"
    by (rule bit_word_eqI) (auto simp: ntoh16_def bit_simps mask_ff dest: bit_imp_le_length)
  have 2: "ucast (ntoh16 b AND 0xff) = b ! 1"
    by (rule bit_word_eqI) (auto simp: ntoh16_def bit_simps mask_ff dest: bit_imp_le_length)
  show ?thesis using list2 [OF assms] by (simp add: hton16_def 1 2)
qed

lemma ntoh32_hton32: "ntoh32 (hton32 x) = x"
proof (rule bit_word_eqI)
  fix n :: nat
  assume "n < LENGTH(32)"
  then show "bit (ntoh32 (hton32 x)) n = bit x n"
    by (cases "n < 8"; cases "n < 16"; cases "n < 24")
      (auto simp: ntoh32_def hton32_def bit_simps mask_ff)
qed

lemma hton32_ntoh32:
  assumes "length b = 4"
  shows "hton32 (ntoh32 b) = b"
proof -
  have 1: "ucast (drop_bit 24 (ntoh32 b) AND 0xff) = b ! 0"
    by (rule bit_word_eqI) (auto simp: ntoh32_def bit_simps mask_ff dest: bit_imp_le_length)
  have 2: "ucast (drop_bit 16 (ntoh32 b) AND 0xff) = b ! 1"
    by (rule bit_word_eqI) (auto simp: ntoh32_def bit_simps mask_ff dest: bit_imp_le_length)
  have 3: "ucast (drop_bit 8 (ntoh32 b) AND 0xff) = b ! 2"
    by (rule bit_word_eqI) (auto simp: ntoh32_def bit_simps mask_ff dest: bit_imp_le_length)
  have 4: "ucast (ntoh32 b AND 0xff) = b ! 3"
    by (rule bit_word_eqI) (auto simp: ntoh32_def bit_simps mask_ff dest: bit_imp_le_length)
  show ?thesis using list4 [OF assms] by (simp add: hton32_def 1 2 3 4)
qed

lemma hton80_rev: "length x = 10 \<Longrightarrow> hton80 x = rev x"
  by (intro nth_equalityI) (simp_all add: hton80_def rev_nth)

lemma be_value_append: "be_value (bs @ [b]) n = 256 * be_value bs n + unat b"
  by (induction bs arbitrary: n) simp_all

lemma be_value_less: "be_value bs 0 < 256 ^ length bs"
proof (induction bs rule: rev_induct)
  case Nil
  then show ?case by simp
next
  case (snoc b bs)
  have "unat b < 256" using unsigned_less [of b, where 'a = nat] by simp
  then show ?case using snoc by (simp add: be_value_append)
qed

lemma unat_of_be_value:
  "256 ^ length bs \<le> (2 :: nat) ^ LENGTH('a) \<Longrightarrow>
     unat (of_nat (be_value bs 0) :: 'a::len word) = be_value bs 0"
  using be_value_less [of bs] by (simp add: unat_of_nat take_bit_nat_eq_self order_less_le_trans)

lemma ntoh64_fold:
  "fold (\<lambda>i ret. push_bit 8 ret + ucast ((xs @ ys) ! i)) [0..<length xs] (0 :: u64_t)
     = of_nat (be_value xs 0)"
proof (induction xs arbitrary: ys rule: rev_induct)
  case Nil
  then show ?case by simp
next
  case (snoc x xs)
  have "fold (\<lambda>i ret. push_bit 8 ret + ucast ((xs @ x # ys) ! i)) [0..<length xs] (0 :: u64_t)
      = of_nat (be_value xs 0)" by (rule snoc)
  moreover have "(ucast x :: u64_t) = of_nat (unat x)" by simp
  ultimately show ?case
    by (simp add: be_value_append push_bit_eq_mult mult.commute)
qed

lemma ntoh64_value: "length b = 8 \<Longrightarrow> unat (ntoh64 b) = be_value b 0"
  using ntoh64_fold [of b "[]"] unat_of_be_value [where 'a = 64, of b] by (simp add: ntoh64_def)

lemma or_shifted_byte:
  "take_bit 8 (x :: 32 word) = 0 \<Longrightarrow> x OR ucast (b :: byte) = x + ucast b"
proof (rule disjunctive_add [symmetric])
  fix n
  assume "take_bit 8 x = 0"
  then have "\<not> bit (take_bit 8 x) n" by simp
  then show "\<not> bit x n \<or> \<not> bit (ucast b :: 32 word) n"
    by (auto simp: bit_simps dest: bit_imp_le_length)
qed

lemma ntoh32_value:
  assumes "length b = 4"
  shows "unat (ntoh32 b) = be_value b 0"
proof -
  have or: "(push_bit 8 w :: 32 word) OR ucast (c :: byte) = push_bit 8 w + ucast c" for w c
    by (rule or_shifted_byte) (simp add: take_bit_push_bit)
  have n: "ntoh32 b = push_bit 8 (push_bit 8 (push_bit 8 (ucast (b ! 0)) OR ucast (b ! 1))
      OR ucast (b ! 2)) OR ucast (b ! 3)"
    by (simp add: ntoh32_def or.assoc push_bit_or)
  have "be_value b 0 = be_value [b ! 0, b ! 1, b ! 2, b ! 3] 0"
    using list4 [OF assms] by simp
  then have "ntoh32 b = of_nat (be_value b 0)"
    unfolding n or by (simp add: push_bit_eq_mult algebra_simps)
  then show ?thesis using unat_of_be_value [where 'a = 32, of b] assms by simp
qed

lemma ntoh16_ntoh32: "unat (ntoh16 b) = unat (ntoh32 [0, 0, b ! 0, b ! 1])"
proof -
  have "(ucast (ntoh16 b) :: u32_t) = ntoh32 [0, 0, b ! 0, b ! 1]"
    by (rule bit_word_eqI) (auto simp: ntoh16_def ntoh32_def bit_simps dest: bit_imp_le_length)
  then have "unat (ntoh32 [0, 0, b ! 0, b ! 1]) = unat (ucast (ntoh16 b) :: u32_t)" by simp
  also have "\<dots> = unat (ntoh16 b)"
    using unsigned_less [of "ntoh16 b", where 'a = nat]
    by (simp add: unsigned_ucast_eq take_bit_nat_eq_self)
  finally show ?thesis by simp
qed

lemma ntoh16_value:
  assumes "length b = 2"
  shows "unat (ntoh16 b) = be_value b 0"
proof -
  have "be_value b 0 = be_value [0, 0, b ! 0, b ! 1] 0"
    by (subst list2 [OF assms]) simp
  then show ?thesis by (simp add: ntoh16_ntoh32 ntoh32_value)
qed

subsection \<open>Properties\<close>

definition net_value :: "nat \<Rightarrow> net_bytes \<Rightarrow> nat \<Rightarrow> bool" where
  "net_value k b n \<longleftrightarrow> length b = k \<and> be_value b 0 = n"

lemma nettypes_exact_parts:
  fixes x16 :: u16_t and x32 :: u32_t
  assumes "length b2 = 2" "length b4 = 4" "length b8 = 8" "length b10 = 10"
  shows "net_value 2 (hton16 x16) (unat x16)" "net_value 4 (hton32 x32) (unat x32)"
    "net_value 2 b2 (unat (ntoh16 b2))" "net_value 4 b4 (unat (ntoh32 b4))"
    "net_value 8 b8 (unat (ntoh64 b8))"
    "ntoh16 (hton16 x16) = x16" "ntoh32 (hton32 x32) = x32"
    "hton16 (ntoh16 b2) = b2" "hton32 (ntoh32 b4) = b4" "hton80 (hton80 b10) = b10"
proof -
  have len: "length (hton16 x16) = 2" "length (hton32 x32) = 4" "length (hton80 b10) = 10"
    by (simp_all add: hton16_def hton32_def hton80_def)
  show "net_value 2 (hton16 x16) (unat x16)"
    using ntoh16_value [OF len(1)] len(1) by (simp add: net_value_def ntoh16_hton16)
  show "net_value 4 (hton32 x32) (unat x32)"
    using ntoh32_value [OF len(2)] len(2) by (simp add: net_value_def ntoh32_hton32)
  show "hton80 (hton80 b10) = b10"
    using assms len by (simp add: hton80_rev)
qed (use assms in \<open>simp_all add: net_value_def ntoh16_value ntoh32_value ntoh64_value ntoh16_hton16
      ntoh32_hton32 hton16_ntoh16 hton32_ntoh32\<close>)

text \<open>C37: The conversions of \<open>nettypes.h\<close> are exact: \<open>hton16\<close> and \<open>hton32\<close> give the array
of two or four bytes whose big-endian value is the number, \<open>ntoh16\<close>, \<open>ntoh32\<close> and \<open>ntoh64\<close>
give the number whose big-endian encoding the array is, in both directions nothing is lost, and
applying \<open>hton80\<close> twice gives back the array.\<close>

theorem nettypes_exact:
  fixes x16 :: u16_t and x32 :: u32_t
  assumes "length b2 = 2" "length b4 = 4" "length b8 = 8" "length b10 = 10"
  shows "net_value 2 (hton16 x16) (unat x16) \<and> net_value 4 (hton32 x32) (unat x32) \<and>
    net_value 2 b2 (unat (ntoh16 b2)) \<and> net_value 4 b4 (unat (ntoh32 b4)) \<and>
    net_value 8 b8 (unat (ntoh64 b8)) \<and>
    ntoh16 (hton16 x16) = x16 \<and> ntoh32 (hton32 x32) = x32 \<and>
    hton16 (ntoh16 b2) = b2 \<and> hton32 (ntoh32 b4) = b4 \<and> hton80 (hton80 b10) = b10"
  by (intro conjI nettypes_exact_parts [OF assms])

theorem nettypes_exact_witness:
  "net_value 2 [0x12, 0x34] (unat (ntoh16 [0x12, 0x34])) \<and> hton16 (ntoh16 [0x12, 0x34]) = [0x12, 0x34]
   \<and> net_value 8 [1, 2, 3, 4, 5, 6, 7, 8] (unat (ntoh64 [1, 2, 3, 4, 5, 6, 7, 8]))"
  using nettypes_exact [of "[0x12, 0x34]" "[1, 2, 3, 4]" "[1, 2, 3, 4, 5, 6, 7, 8]"
      "[1, 2, 3, 4, 5, 6, 7, 8, 9, 10]"]
  by simp

text \<open>The two header layouts: a parsed header holds the bytes of the frame it was read from.\<close>

lemma ethernet_hdr_of_bytes: "14 \<le> length bs \<Longrightarrow> ethernet_hdr_bytes (ethernet_hdr_of bs) = take 14 bs"
proof -
  have "take 14 bs = take 12 bs @ take 2 (drop 12 bs)" by (simp flip: take_add)
  moreover have "take 12 bs = take 6 bs @ take 6 (drop 6 bs)" by (simp flip: take_add)
  ultimately show ?thesis by (simp add: ethernet_hdr_bytes_def ethernet_hdr_of_def)
qed

lemma tagged_header_of_untagged:
  assumes "length (dest_addr h) = 6" "length (src_addr h) = 6" "length tag = 4"
    and "length (ethertype h) = 2"
  shows "tagged_ethernet_hdr_of (dest_addr h @ src_addr h @ tag @ ethertype h @ payload)
    = \<lparr>tagged_dest_addr = dest_addr h, tagged_src_addr = src_addr h, qtag = tag,
       tagged_ethertype = ethertype h\<rparr>"
  using assms by (simp add: tagged_ethernet_hdr_of_def)

end
