(* ===== verification/Link_Status.thy ===== *)
theory Link_Status
  imports Config
begin

text \<open>
  \<open>link_status.c\<close>: the status of each link and the flag that it changed. The transmit server
  writes them when it polls the PHY, the receive server takes the notification and reads the
  status. The two run on different threads and there is no lock, so the functions below, which are
  whole calls, do not say what happens when the calls overlap: the second part takes the calls apart into their
  single accesses to the two arrays and lets them interleave.
\<close>

record link_status_t =
  link_up :: "int list"
  link_notify :: "int list"

definition init_link_status :: "mac_config \<Rightarrow> link_status_t" where
  "init_link_status c =
     \<lparr>link_up = replicate (num_master_ports c) 0, link_notify = replicate (num_master_ports c) 0\<rparr>"

definition ethernet_update_link_status :: "nat \<Rightarrow> int \<Rightarrow> link_status_t \<Rightarrow> link_status_t" where
  "ethernet_update_link_status linkNum new_status s =
     (if new_status \<noteq> link_up s ! linkNum then
        s\<lparr>link_up := (link_up s)[linkNum := new_status],
          link_notify := (link_notify s)[linkNum := 1]\<rparr>
      else s)"

definition ethernet_get_link_status :: "nat \<Rightarrow> link_status_t \<Rightarrow> int" where
  "ethernet_get_link_status linkNum s = link_up s ! linkNum"

definition ethernet_link_status_notification :: "nat \<Rightarrow> link_status_t \<Rightarrow> int \<times> link_status_t" where
  "ethernet_link_status_notification linkNum s =
     (let ret = link_notify s ! linkNum
      in (ret, s\<lparr>link_notify := (link_notify s)[linkNum := 0]\<rparr>))"

subsection \<open>The two threads\<close>

text \<open>
  Where the writer stands in \<open>ethernet_update_link_status\<close>, and the reader in
  \<open>ethernet_link_status_notification\<close> and the read of the status that follows a notification
  (\<open>ethernet_rx_server.xc\<close>). Each step is one access to \<open>status\<close> or \<open>notify\<close>; \<open>seen\<close> is the status that the
  reader last read of each link.
\<close>

datatype writer_at = Writer_rest | Store_status nat int | Store_notify nat
datatype reader_at = Reader_rest | Clear_notify nat int | Read_status nat

record link_threads =
  shared_links :: link_status_t
  writer :: writer_at
  reader :: reader_at
  seen :: "nat \<Rightarrow> int"

definition begin_update :: "nat \<Rightarrow> int \<Rightarrow> link_threads \<Rightarrow> link_threads" where
  "begin_update linkNum new_status t =
     (if new_status \<noteq> link_up (shared_links t) ! linkNum then t\<lparr>writer := Store_status linkNum new_status\<rparr> else t)"

definition writer_step :: "link_threads \<Rightarrow> link_threads" where
  "writer_step t =
     (let s = shared_links t in
      case writer t of
        Writer_rest \<Rightarrow> t
      | Store_status n v \<Rightarrow> t\<lparr>shared_links := s\<lparr>link_up := (link_up s)[n := v]\<rparr>, writer := Store_notify n\<rparr>
      | Store_notify n \<Rightarrow> t\<lparr>shared_links := s\<lparr>link_notify := (link_notify s)[n := 1]\<rparr>, writer := Writer_rest\<rparr>)"

definition begin_poll :: "nat \<Rightarrow> link_threads \<Rightarrow> link_threads" where
  "begin_poll linkNum t = t\<lparr>reader := Clear_notify linkNum (link_notify (shared_links t) ! linkNum)\<rparr>"

definition reader_step :: "link_threads \<Rightarrow> link_threads" where
  "reader_step t =
     (let s = shared_links t in
      case reader t of
        Reader_rest \<Rightarrow> t
      | Clear_notify n ret \<Rightarrow> t\<lparr>shared_links := s\<lparr>link_notify := (link_notify s)[n := 0]\<rparr>,
            reader := (if ret \<noteq> 0 then Read_status n else Reader_rest)\<rparr>
      | Read_status n \<Rightarrow> t\<lparr>seen := (seen t)(n := ethernet_get_link_status n s), reader := Reader_rest\<rparr>)"

text \<open>Without interruption the accesses are the whole calls.\<close>

lemma update_uninterrupted:
  "writer t = Writer_rest \<Longrightarrow> writer_step (writer_step (begin_update n v t))
     = t\<lparr>shared_links := ethernet_update_link_status n v (shared_links t)\<rparr>"
  by (simp add: begin_update_def writer_step_def ethernet_update_link_status_def Let_def)

lemma poll_uninterrupted:
  assumes "reader t = Reader_rest" "ethernet_link_status_notification n (shared_links t) = (ret, s)"
  shows "reader_step (reader_step (begin_poll n t))
    = t\<lparr>shared_links := s, seen := (if ret \<noteq> 0 then (seen t)(n := ethernet_get_link_status n s) else seen t)\<rparr>"
  using assms by (auto simp: begin_poll_def reader_step_def ethernet_link_status_notification_def Let_def)

text \<open>
  A run is a sequence of accesses in any order; a thread begins a call only when its last one has returned.
  Two auxiliary functions record the past: \<open>written n\<close> is the status of the last call for link n,
  and \<open>lost n\<close> says that a poll that had read a clear flag of link n has cleared it after the writer had set it,
  with no notification of that link and no read of its status since.
\<close>

datatype link_event = Update nat int | Writer | Poll nat | Reader

type_synonym link_run = "link_threads \<times> (nat \<Rightarrow> int) \<times> (nat \<Rightarrow> bool)"

definition note_lost :: "link_event \<Rightarrow> link_threads \<Rightarrow> (nat \<Rightarrow> bool) \<Rightarrow> nat \<Rightarrow> bool" where
  "note_lost e t lost =
     (case (e, writer t, reader t) of
        (Writer, Store_notify n, _) \<Rightarrow> lost(n := False)
      | (Reader, _, Read_status n) \<Rightarrow> lost(n := False)
      | (Reader, _, Clear_notify n ret) \<Rightarrow>
          (if ret = 0 \<and> link_notify (shared_links t) ! n \<noteq> 0 then lost(n := True) else lost)
      | _ \<Rightarrow> lost)"

fun link_step :: "nat \<Rightarrow> link_event \<Rightarrow> link_run \<Rightarrow> link_run option" where
  "link_step k (Update n v) (t, written, lost) =
     (if n < k \<and> writer t = Writer_rest then Some (begin_update n v t, written(n := v), lost) else None)"
| "link_step k Writer (t, written, lost) = Some (writer_step t, written, note_lost Writer t lost)"
| "link_step k (Poll n) (t, written, lost) =
     (if n < k \<and> reader t = Reader_rest then Some (begin_poll n t, written, lost) else None)"
| "link_step k Reader (t, written, lost) = Some (reader_step t, written, note_lost Reader t lost)"

definition link_start :: "mac_config \<Rightarrow> link_run" where
  "link_start c =
     (\<lparr>shared_links = init_link_status c, writer = Writer_rest, reader = Reader_rest, seen = \<lambda>_. 0\<rparr>,
      \<lambda>_. 0, \<lambda>_. False)"

fun link_exec :: "nat \<Rightarrow> link_event list \<Rightarrow> link_run \<Rightarrow> link_run option" where
  "link_exec k [] x = Some x"
| "link_exec k (e # es) x = Option.bind (link_step k e x) (link_exec k es)"

text \<open>
  The reader knows the status, or it will be told, or the flag was lost; and the status is the one
  last written, or the writer is about to store it.
\<close>

definition threads_inv :: "nat \<Rightarrow> link_run \<Rightarrow> bool" where
  "threads_inv k x =
     (case x of (t, written, lost) \<Rightarrow>
        length (link_up (shared_links t)) = k \<and> length (link_notify (shared_links t)) = k \<and>
        (\<forall>n < k. link_notify (shared_links t) ! n \<noteq> 0 \<or> seen t n = link_up (shared_links t) ! n \<or> lost n \<or>
           writer t = Store_notify n \<or> reader t = Read_status n \<or>
           (\<exists>ret. reader t = Clear_notify n ret \<and> ret \<noteq> 0)) \<and>
        (\<forall>n v. writer t = Store_status n v \<longrightarrow> v = written n) \<and>
        (\<forall>n < k. written n = link_up (shared_links t) ! n \<or> (\<exists>v. writer t = Store_status n v)))"

lemma link_start_inv: "threads_inv (num_master_ports c) (link_start c)"
  by (simp add: threads_inv_def link_start_def init_link_status_def)

lemma nth_update: "j < length xs \<Longrightarrow> xs[i := x] ! j = (if i = j then x else xs ! j)"
  by simp

lemma writer_inv:
  assumes "threads_inv k (t, written, lost)"
  shows "threads_inv k (writer_step t, written, note_lost Writer t lost)"
  using assms
  by (cases "writer t"; cases "reader t")
    (auto simp: threads_inv_def writer_step_def note_lost_def nth_update Let_def)

lemma reader_inv:
  assumes "threads_inv k (t, written, lost)"
  shows "threads_inv k (reader_step t, written, note_lost Reader t lost)"
  using assms
  by (cases "reader t"; cases "writer t")
    (auto simp: threads_inv_def reader_step_def note_lost_def ethernet_get_link_status_def nth_update Let_def)

lemma link_step_inv: "threads_inv k x \<Longrightarrow> link_step k e x = Some y \<Longrightarrow> threads_inv k y"
proof (cases x)
  case (fields t written lost)
  assume i: "threads_inv k x" and s: "link_step k e x = Some y"
  show ?thesis
  proof (cases e)
    case (Update n v)
    then show ?thesis
      using i s by (auto simp: fields threads_inv_def begin_update_def split: if_splits)
  next
    case (Poll n)
    then show ?thesis
      using i s by (auto simp: fields threads_inv_def begin_poll_def split: if_splits)
  qed (use i s writer_inv reader_inv in \<open>auto simp: fields\<close>)
qed

lemma link_exec_inv: "threads_inv k x \<Longrightarrow> link_exec k es x = Some y \<Longrightarrow> threads_inv k y"
  by (induction es arbitrary: x) (auto simp: bind_eq_Some_conv dest: link_step_inv)

text \<open>C36: For every interleaving of the single accesses of the transmit server's updates and the receive
server's polls, when no call is under way: the status of each link is the one last written (0 before the
first), and, unless a poll has cleared a flag that was set after the poll had read it clear, a clear
flag means that the reader has read the last status, and after its next poll, which reads the status if it is notified,
the reader has the last status in any case.\<close>

theorem link_status_reader_current:
  assumes "link_exec (num_master_ports c) es (link_start c) = Some (t, written, lost)"
    and "writer t = Writer_rest" "reader t = Reader_rest" "n < num_master_ports c"
    and "ethernet_link_status_notification n (shared_links t) = (ret, s)"
  shows "ethernet_get_link_status n (shared_links t) = written n \<and>
    (\<not> lost n \<longrightarrow> (link_notify (shared_links t) ! n = 0 \<longrightarrow> seen t n = written n) \<and>
       (if ret \<noteq> 0 then ethernet_get_link_status n s else seen t n) = written n)"
proof -
  have "threads_inv (num_master_ports c) (t, written, lost)"
    using link_exec_inv [OF link_start_inv assms(1)] .
  then show ?thesis
    using assms(2-5)
    by (auto simp: threads_inv_def ethernet_get_link_status_def ethernet_link_status_notification_def Let_def)
qed

text \<open>A poll between the two stores of an update, and one afterwards.\<close>

theorem link_status_reader_current_witness:
  "\<exists>t written lost. link_exec 1 [Update 0 1, Writer, Poll 0, Reader, Writer] (link_start default_config)
       = Some (t, written, lost) \<and> seen t 0 = 0 \<and>
     (case ethernet_link_status_notification 0 (shared_links t) of
        (ret, s) \<Rightarrow> if ret \<noteq> 0 then ethernet_get_link_status 0 s else seen t 0) = 1"
proof -
  have p: "num_master_ports default_config = 1" by (simp add: default_config_def)
  obtain t written lost where e: "link_exec 1 [Update 0 1, Writer, Poll 0, Reader, Writer] (link_start default_config)
      = Some (t, written, lost)" and f: "writer t = Writer_rest" "reader t = Reader_rest" "\<not> lost 0"
    "written 0 = 1" "seen t 0 = 0"
    by (simp add: link_start_def init_link_status_def p begin_update_def writer_step_def begin_poll_def
        reader_step_def note_lost_def)
  obtain ret s where r: "ethernet_link_status_notification 0 (shared_links t) = (ret, s)" by fastforce
  show ?thesis
    using link_status_reader_current [of default_config
        "[Update 0 1, Writer, Poll 0, Reader, Writer]" t written lost 0 ret s] e f r
    by (simp add: p del: link_exec.simps)
qed

text \<open>
  A change can be lost for good: the poll reads a clear flag, the update stores the status and
  sets the flag, and the poll clears it. No later poll is notified, and the reader keeps the
  status from before.
\<close>

lemma link_update_lost:
  "\<exists>t. link_exec 1 [Poll 0, Update 0 1, Writer, Writer, Reader] (link_start default_config)
       = Some (t, (\<lambda>_. 0)(0 := 1), (\<lambda>_. False)(0 := True)) \<and>
     writer t = Writer_rest \<and> reader t = Reader_rest \<and> seen t 0 = 0 \<and>
     ethernet_get_link_status 0 (shared_links t) = 1 \<and>
     ethernet_link_status_notification 0 (shared_links t) = (0, shared_links t)"
  by (simp add: link_start_def init_link_status_def default_config_def begin_update_def writer_step_def
      begin_poll_def reader_step_def note_lost_def ethernet_get_link_status_def
      ethernet_link_status_notification_def)

end
