(* ===== verification/Mii_Wrappers.thy ===== *)
theory Mii_Wrappers
  imports Mempool Mii_Queue Mii_Tx_Pins
begin

text \<open>
  \<open>mii_wrappers.c\<close>: the arrays that hold the packets, the pools made of them at start-up, and
  the functions that hand the pools to the threads. Where the linker places the arrays is a
  parameter, the record \<open>mii_layout\<close>.
\<close>

record mii_layout =
  rx_hp_data :: addr
  tx_hp_data :: addr
  rx_lp_data :: addr
  tx_lp_data :: addr

record mii_mem =
  mii_ram :: ram
  rx_mem_hp :: "addr list"
  tx_mem_hp :: "addr list"
  rx_mem_lp :: "addr list"
  tx_mem_lp :: "addr list"
  ts_queues :: "mii_ts_queue_t list"
  ethernet_memory_lock :: word32

definition ETHERNET_RX_HP_MEMSIZE :: "mac_config \<Rightarrow> int" where
  "ETHERNET_RX_HP_MEMSIZE c = rx_bufsize_hp c div 4"

definition ETHERNET_TX_HP_MEMSIZE :: "mac_config \<Rightarrow> int" where
  "ETHERNET_TX_HP_MEMSIZE c = tx_bufsize_hp c div 4"

definition ETHERNET_RX_LP_MEMSIZE :: "mac_config \<Rightarrow> int" where
  "ETHERNET_RX_LP_MEMSIZE c = rx_bufsize_lp c div 4"

definition ETHERNET_TX_LP_MEMSIZE :: "mac_config \<Rightarrow> int" where
  "ETHERNET_TX_LP_MEMSIZE c = tx_bufsize_lp c div 4"

text \<open>The address of row \<open>i\<close> of an array of rows of \<open>n\<close> words.\<close>

definition row_addr :: "addr \<Rightarrow> int \<Rightarrow> nat \<Rightarrow> addr" where
  "row_addr base n i = base + 4 * n * int i"

subsection \<open>Start-up\<close>

text \<open>The two loops of \<open>init_mii_mem\<close>; \<open>lock\<close> is the lock that \<open>hwlock_alloc\<close> returned.\<close>

definition init_master_port :: "mac_config \<Rightarrow> mii_layout \<Rightarrow> nat \<Rightarrow> mii_mem \<Rightarrow> mii_mem" where
  "init_master_port c l i m =
     (let m = (if rx_hp_queue c then
                 let p = row_addr (rx_hp_data l) (ETHERNET_RX_HP_MEMSIZE c) i
                 in m\<lparr>rx_mem_hp := (rx_mem_hp m)[i := p],
                      mii_ram := mii_init_mempool (mii_ram m) p (ETHERNET_RX_HP_MEMSIZE c * 4)\<rparr>
               else m);
          m = (if tx_hp_queue c then
                 let p = row_addr (tx_hp_data l) (ETHERNET_TX_HP_MEMSIZE c) i
                 in m\<lparr>tx_mem_hp := (tx_mem_hp m)[i := p],
                      mii_ram := mii_init_mempool (mii_ram m) p (ETHERNET_TX_HP_MEMSIZE c * 4)\<rparr>
               else m)
      in m\<lparr>ts_queues := (ts_queues m)[i := init_ts_queue (ts_queues m ! i)]\<rparr>)"

definition init_port :: "mac_config \<Rightarrow> mii_layout \<Rightarrow> nat \<Rightarrow> mii_mem \<Rightarrow> mii_mem" where
  "init_port c l i m =
     (let p = row_addr (rx_lp_data l) (ETHERNET_RX_LP_MEMSIZE c) i;
          m = m\<lparr>rx_mem_lp := (rx_mem_lp m)[i := p],
                mii_ram := mii_init_mempool (mii_ram m) p (ETHERNET_RX_LP_MEMSIZE c * 4)\<rparr>
      in if tx_no_buffering c then m
         else let p = row_addr (tx_lp_data l) (ETHERNET_TX_LP_MEMSIZE c) i
              in m\<lparr>tx_mem_lp := (tx_mem_lp m)[i := p],
                   mii_ram := mii_init_mempool (mii_ram m) p (ETHERNET_TX_LP_MEMSIZE c * 4)\<rparr>)"

definition init_mii_mem :: "mac_config \<Rightarrow> mii_layout \<Rightarrow> word32 \<Rightarrow> mii_mem \<Rightarrow> mii_mem" where
  "init_mii_mem c l lock m =
     (let m = m\<lparr>ethernet_memory_lock := lock\<rparr>;
          m = fold (init_master_port c l) [0..<num_master_ports c] m
      in fold (init_port c l) [0..<num_ports c] m)"

subsection \<open>What the threads are given\<close>

definition mii_rx_pins_wr :: "mac_config \<Rightarrow> mii_mem \<Rightarrow> nat \<Rightarrow> addr option \<times> addr \<times> nat" where
  "mii_rx_pins_wr c m i =
     (if rx_hp_queue c then Some (rx_mem_hp m ! i) else None, rx_mem_lp m ! i, i)"

definition mii_tx_pins_wr :: "mac_config \<Rightarrow> mii_mem \<Rightarrow> nat \<Rightarrow> tx_args \<times> mii_ts_queue_t" where
  "mii_tx_pins_wr c m i =
     (\<lparr>hp_forward = (\<lambda>p. if port_forwarding c \<and> 1 < num_master_ports c \<and> tx_hp_queue c
                         then rx_mem_hp m ! p else 0),
       lp_forward = (\<lambda>p. if port_forwarding c then rx_mem_lp m ! p else 0),
       hp_queue = (if tx_hp_queue c then tx_mem_hp m ! i else 0),
       lp_queue = tx_mem_lp m ! i,
       tx_ifnum = i\<rparr>, ts_queues m ! i)"

text \<open>
  The servers get the arrays of pools of all ports; \<open>num_q\<close>, the numbers of clients and the
  address are passed on.
\<close>

definition ethernet_tx_server_wr ::
  "mac_config \<Rightarrow> mii_mem \<Rightarrow> byte list \<Rightarrow> nat \<Rightarrow> nat \<Rightarrow>
     addr list option \<times> addr list \<times> nat \<times> mii_ts_queue_t list \<times> byte list \<times> nat" where
  "ethernet_tx_server_wr c m mac_addr num_q num_tx =
     (if tx_hp_queue c then Some (tx_mem_hp m) else None, tx_mem_lp m, num_q, ts_queues m, mac_addr, num_tx)"

definition ethernet_rx_server_wr :: "mac_config \<Rightarrow> mii_mem \<Rightarrow> nat \<Rightarrow> addr list option \<times> addr list \<times> nat" where
  "ethernet_rx_server_wr c m num_rx =
     (if rx_hp_queue c then Some (rx_mem_hp m) else None, rx_mem_lp m, num_rx)"

subsection \<open>A sequence of pools in disjoint regions\<close>

type_synonym region = "addr \<times> int"

definition region_ok :: "region \<Rightarrow> bool" where
  "region_ok = (\<lambda>(a, n). 0 < a \<and> 4 dvd a \<and> 4 dvd n \<and> 112 \<le> n \<and> a + n \<le> 2 ^ 31)"

definition apart :: "region \<Rightarrow> region \<Rightarrow> bool" where
  "apart x y \<longleftrightarrow> fst x + snd x \<le> fst y \<or> fst y + snd y \<le> fst x"

definition init_pools :: "region list \<Rightarrow> ram \<Rightarrow> ram" where
  "init_pools = fold (\<lambda>(a, n) s. mii_init_mempool s a n)"

definition fresh_pool :: "ram \<Rightarrow> region \<Rightarrow> bool" where
  "fresh_pool s = (\<lambda>(a, n). pool_inv s a [] \<and> pool_end (pools s a) = a + n - 4)"

lemma init_mempool_fresh: "region_ok (a, n) \<Longrightarrow> fresh_pool (mii_init_mempool s a n) (a, n)"
  using mii_init_mempool_inv [of a n s]
  by (simp add: fresh_pool_def region_ok_def mii_init_mempool_def Let_def)

lemma init_mempool_frame:
  assumes "region_ok (a, n)" "region_ok (b, k)" "apart (a, n) (b, k)" "fresh_pool s (b, k)"
  shows "fresh_pool (mii_init_mempool s a n) (b, k)"
proof -
  have "a \<noteq> b" "a + 20 \<noteq> b + k - 4" "a + n - 4 \<noteq> b + k - 4"
    using assms(1-3) by (auto simp: region_ok_def apart_def)
  then show ?thesis
    using assms(4)
    by (auto simp: fresh_pool_def mii_init_mempool_def Let_def pool_inv_def pool_wf_def
        sizeof_mempool_info_def)
qed

lemma init_pools_frame:
  "region_ok r \<Longrightarrow> list_all region_ok rs \<Longrightarrow> list_all (\<lambda>x. apart x r) rs \<Longrightarrow> fresh_pool s r \<Longrightarrow>
     fresh_pool (init_pools rs s) r"
proof (induction rs arbitrary: s)
  case Nil
  then show ?case by (simp add: init_pools_def)
next
  case (Cons x rs)
  obtain a n where x: "x = (a, n)" by (cases x)
  obtain b k where r: "r = (b, k)" by (cases r)
  have "fresh_pool (mii_init_mempool s a n) r"
    unfolding r by (rule init_mempool_frame) (use Cons.prems x r in auto)
  then show ?case using Cons.IH Cons.prems by (simp add: init_pools_def x)
qed

lemma init_pools_fresh:
  "list_all region_ok rs \<Longrightarrow> sorted_wrt apart rs \<Longrightarrow> r \<in> set rs \<Longrightarrow> fresh_pool (init_pools rs s) r"
proof (induction rs arbitrary: s)
  case Nil
  then show ?case by simp
next
  case (Cons x rs)
  obtain a n where x: "x = (a, n)" by (cases x)
  show ?case
  proof (cases "r \<in> set rs")
    case True
    then show ?thesis using Cons by (simp add: init_pools_def x)
  next
    case False
    then have r: "r = x" using Cons.prems by simp
    have "list_all (\<lambda>y. apart y r) rs"
      using Cons.prems by (auto simp: r list_all_iff apart_def)
    moreover have "fresh_pool (mii_init_mempool s a n) r"
      using Cons.prems by (auto simp: r x intro: init_mempool_fresh)
    ultimately have "fresh_pool (init_pools rs (mii_init_mempool s a n)) r"
      using Cons.prems by (intro init_pools_frame) (auto simp: r)
    then show ?thesis by (simp add: init_pools_def x)
  qed
qed

subsection \<open>The pools of the program\<close>

definition master_regions :: "mac_config \<Rightarrow> mii_layout \<Rightarrow> nat \<Rightarrow> region list" where
  "master_regions c l i =
     (if rx_hp_queue c
      then [(row_addr (rx_hp_data l) (ETHERNET_RX_HP_MEMSIZE c) i, ETHERNET_RX_HP_MEMSIZE c * 4)] else [])
     @ (if tx_hp_queue c
        then [(row_addr (tx_hp_data l) (ETHERNET_TX_HP_MEMSIZE c) i, ETHERNET_TX_HP_MEMSIZE c * 4)] else [])"

definition port_regions :: "mac_config \<Rightarrow> mii_layout \<Rightarrow> nat \<Rightarrow> region list" where
  "port_regions c l i =
     (row_addr (rx_lp_data l) (ETHERNET_RX_LP_MEMSIZE c) i, ETHERNET_RX_LP_MEMSIZE c * 4)
     # (if tx_no_buffering c then []
        else [(row_addr (tx_lp_data l) (ETHERNET_TX_LP_MEMSIZE c) i, ETHERNET_TX_LP_MEMSIZE c * 4)])"

definition pool_regions :: "mac_config \<Rightarrow> mii_layout \<Rightarrow> region list" where
  "pool_regions c l =
     concat (map (master_regions c l) [0..<num_master_ports c])
     @ concat (map (port_regions c l) [0..<num_ports c])"

lemma init_pools_append: "init_pools (xs @ ys) s = init_pools ys (init_pools xs s)"
  by (simp add: init_pools_def)

lemma init_master_port_ram:
  "mii_ram (fold (init_master_port c l) is m)
     = init_pools (concat (map (master_regions c l) is)) (mii_ram m)"
  by (induction "is" arbitrary: m)
    (simp_all add: init_pools_append init_master_port_def master_regions_def init_pools_def Let_def)

lemma init_port_ram:
  "mii_ram (fold (init_port c l) is m)
     = init_pools (concat (map (port_regions c l) is)) (mii_ram m)"
  by (induction "is" arbitrary: m)
    (simp_all add: init_pools_append init_port_def port_regions_def init_pools_def Let_def)

lemma init_mii_mem_ram: "mii_ram (init_mii_mem c l lock m) = init_pools (pool_regions c l) (mii_ram m)"
  by (simp add: init_mii_mem_def Let_def init_master_port_ram init_port_ram pool_regions_def
      init_pools_append)

text \<open>The handles, entry by entry.\<close>

definition fill :: "(nat \<Rightarrow> 'a \<Rightarrow> 'a) \<Rightarrow> nat list \<Rightarrow> 'a list \<Rightarrow> 'a list" where
  "fill f = fold (\<lambda>i xs. xs[i := f i (xs ! i)])"

lemma fill_nth:
  "n \<le> length xs \<Longrightarrow> length (fill f [0..<n] xs) = length xs \<and>
     (\<forall>i < length xs. fill f [0..<n] xs ! i = (if i < n then f i (xs ! i) else xs ! i))"
  by (induction n) (auto simp: fill_def nth_list_update less_Suc_eq)

lemma init_master_port_fields:
  "rx_mem_hp (fold (init_master_port c l) is m) = (if rx_hp_queue c
     then fill (\<lambda>i _. row_addr (rx_hp_data l) (ETHERNET_RX_HP_MEMSIZE c) i) is (rx_mem_hp m)
     else rx_mem_hp m)"
  "tx_mem_hp (fold (init_master_port c l) is m) = (if tx_hp_queue c
     then fill (\<lambda>i _. row_addr (tx_hp_data l) (ETHERNET_TX_HP_MEMSIZE c) i) is (tx_mem_hp m)
     else tx_mem_hp m)"
  "ts_queues (fold (init_master_port c l) is m) = fill (\<lambda>_. init_ts_queue) is (ts_queues m)"
  "rx_mem_lp (fold (init_master_port c l) is m) = rx_mem_lp m"
  "tx_mem_lp (fold (init_master_port c l) is m) = tx_mem_lp m"
  by (induction "is" arbitrary: m) (simp_all add: init_master_port_def fill_def Let_def)

lemma init_port_fields:
  "rx_mem_lp (fold (init_port c l) is m)
     = fill (\<lambda>i _. row_addr (rx_lp_data l) (ETHERNET_RX_LP_MEMSIZE c) i) is (rx_mem_lp m)"
  "tx_mem_lp (fold (init_port c l) is m) = (if tx_no_buffering c then tx_mem_lp m
     else fill (\<lambda>i _. row_addr (tx_lp_data l) (ETHERNET_TX_LP_MEMSIZE c) i) is (tx_mem_lp m))"
  "rx_mem_hp (fold (init_port c l) is m) = rx_mem_hp m"
  "tx_mem_hp (fold (init_port c l) is m) = tx_mem_hp m"
  "ts_queues (fold (init_port c l) is m) = ts_queues m"
  by (induction "is" arbitrary: m) (simp_all add: init_port_def fill_def Let_def)

lemmas init_mii_mem_fields = init_master_port_fields init_port_fields

text \<open>
  What the linker guarantees: the arrays that exist are aligned, in memory and apart from each
  other. Together with buffers of at least 112 bytes this makes every row a usable region.
\<close>

definition arrays :: "mac_config \<Rightarrow> mii_layout \<Rightarrow> (addr \<times> int \<times> nat) list" where
  "arrays c l =
     (if rx_hp_queue c then [(rx_hp_data l, ETHERNET_RX_HP_MEMSIZE c, num_master_ports c)] else [])
     @ (if tx_hp_queue c then [(tx_hp_data l, ETHERNET_TX_HP_MEMSIZE c, num_master_ports c)] else [])
     @ [(rx_lp_data l, ETHERNET_RX_LP_MEMSIZE c, num_ports c)]
     @ (if tx_no_buffering c then [] else [(tx_lp_data l, ETHERNET_TX_LP_MEMSIZE c, num_ports c)])"

definition layout_ok :: "mac_config \<Rightarrow> mii_layout \<Rightarrow> bool" where
  "layout_ok c l \<longleftrightarrow>
     list_all (\<lambda>(a, w, n). 0 < a \<and> 4 dvd a \<and> 28 \<le> w \<and> a + 4 * w * int n \<le> 2 ^ 31) (arrays c l) \<and>
     sorted_wrt (\<lambda>(a, w, n) (b, v, k). apart (a, 4 * w * int n) (b, 4 * v * int k)) (arrays c l)"

lemma row_bounds:
  assumes "i < n" "28 \<le> w"
  shows "a \<le> row_addr a w i" "row_addr a w i + w * 4 \<le> a + 4 * w * int n"
proof -
  show "a \<le> row_addr a w i" using assms by (simp add: row_addr_def)
  have "w * (int i + 1) \<le> w * int n" using assms by (intro mult_left_mono) auto
  then show "row_addr a w i + w * 4 \<le> a + 4 * w * int n"
    by (simp add: row_addr_def algebra_simps)
qed

lemma row_ok:
  assumes "0 < a" "4 dvd a" "28 \<le> w" "a + 4 * w * int n \<le> 2 ^ 31" "i < n"
  shows "region_ok (row_addr a w i, w * 4)"
proof -
  have "0 < row_addr a w i" "row_addr a w i + w * 4 \<le> 2 ^ 31"
    using assms row_bounds [OF assms(5,3), of a] by linarith+
  moreover have "4 dvd row_addr a w i"
    using assms by (simp add: row_addr_def mult.assoc)
  ultimately show ?thesis using assms by (simp add: region_ok_def)
qed

lemma rows_apart:
  assumes "i < j" "28 \<le> w"
  shows "apart (row_addr a w i, w * 4) (row_addr a w j, w * 4)"
  using row_bounds(2) [of i j w a] assms by (simp add: apart_def row_addr_def)

lemma arrays_rows_apart:
  assumes "apart (a, 4 * w * int n) (b, 4 * v * int k)" "28 \<le> w" "28 \<le> v" "i < n" "j < k"
  shows "apart (row_addr a w i, w * 4) (row_addr b v j, v * 4)"
    "apart (row_addr b v j, v * 4) (row_addr a w i, w * 4)"
  using assms(1) row_bounds [OF assms(4,2), of a] row_bounds [OF assms(5,3), of b]
  by (auto simp: apart_def)

lemma sorted_wrt_concat_upt:
  "(\<And>i. i < n \<Longrightarrow> sorted_wrt P (f i)) \<Longrightarrow>
   (\<And>i j x y. i < j \<Longrightarrow> j < n \<Longrightarrow> x \<in> set (f i) \<Longrightarrow> y \<in> set (f j) \<Longrightarrow> P x y) \<Longrightarrow>
     sorted_wrt P (concat (map f [0..<n]))"
  by (induction n) (auto simp: sorted_wrt_append)

lemma pool_regions_ok:
  assumes "layout_ok c l"
  shows "list_all region_ok (pool_regions c l)"
  using assms
  by (auto simp: layout_ok_def arrays_def pool_regions_def master_regions_def port_regions_def
      list_all_iff row_ok split: if_splits)

lemma pool_regions_apart:
  assumes "layout_ok c l"
  shows "sorted_wrt apart (pool_regions c l)"
proof -
  have m: "sorted_wrt apart (concat (map (master_regions c l) [0..<num_master_ports c]))"
    by (rule sorted_wrt_concat_upt)
      (use assms in \<open>auto simp: master_regions_def layout_ok_def arrays_def rows_apart
        arrays_rows_apart split: if_splits\<close>)
  have p: "sorted_wrt apart (concat (map (port_regions c l) [0..<num_ports c]))"
    by (rule sorted_wrt_concat_upt)
      (use assms in \<open>auto simp: port_regions_def layout_ok_def arrays_def rows_apart
        arrays_rows_apart split: if_splits\<close>)
  show ?thesis
    using m p assms
    by (auto simp: pool_regions_def sorted_wrt_append master_regions_def port_regions_def
        layout_ok_def arrays_def arrays_rows_apart split: if_splits)
qed

lemma init_mii_mem_fresh:
  "layout_ok c l \<Longrightarrow> r \<in> set (pool_regions c l) \<Longrightarrow> fresh_pool (mii_ram (init_mii_mem c l lock m)) r"
  by (simp add: init_mii_mem_ram init_pools_fresh pool_regions_ok pool_regions_apart)

text \<open>The sizes of the globals of the program image.\<close>

definition globals_ok :: "mac_config \<Rightarrow> mii_mem \<Rightarrow> bool" where
  "globals_ok c m \<longleftrightarrow>
     length (rx_mem_hp m) = num_master_ports c \<and> length (tx_mem_hp m) = num_master_ports c \<and>
     length (rx_mem_lp m) = num_ports c \<and> length (tx_mem_lp m) = num_ports c \<and>
     length (ts_queues m) = num_master_ports c \<and>
     (\<forall>i < num_master_ports c. length (fifo (ts_queues m ! i)) = MAC_MAX_ENTRIES c)"

lemma init_mii_mem_pools_parts:
  assumes layout: "layout_ok c l" and g: "globals_ok c m"
    and m': "m' = init_mii_mem c l lock m"
  shows "\<And>i. i < num_ports c \<Longrightarrow> pool_inv (mii_ram m') (rx_mem_lp m' ! i) []"
    "\<And>i. i < num_ports c \<Longrightarrow> \<not> tx_no_buffering c \<Longrightarrow> pool_inv (mii_ram m') (tx_mem_lp m' ! i) []"
    "\<And>i. i < num_master_ports c \<Longrightarrow> rx_hp_queue c \<Longrightarrow> pool_inv (mii_ram m') (rx_mem_hp m' ! i) []"
    "\<And>i. i < num_master_ports c \<Longrightarrow> tx_hp_queue c \<Longrightarrow> pool_inv (mii_ram m') (tx_mem_hp m' ! i) []"
    "\<And>i. i < num_master_ports c \<Longrightarrow>
       ts_queue_inv c (ts_queues m' ! i) \<and> ts_queue_list (ts_queues m' ! i) = []"
    "\<And>i. i < num_ports c \<Longrightarrow> fst (snd (mii_rx_pins_wr c m' i)) = rx_lp_data l + 4 * (rx_bufsize_lp c div 4) * int i"
    "\<And>i. i < num_ports c \<Longrightarrow> \<not> tx_no_buffering c \<Longrightarrow>
       lp_queue (fst (mii_tx_pins_wr c m' i)) = tx_lp_data l + 4 * (tx_bufsize_lp c div 4) * int i"
proof -
  note fields = m' init_mii_mem_def Let_def init_mii_mem_fields
  note fr = init_mii_mem_fresh [OF layout, folded fresh_pool_def, of _ lock m, folded m']
  have inv: "pool_inv (mii_ram m') a []" if "(a, n) \<in> set (pool_regions c l)" for a n
    using fr [OF that] by (simp add: fresh_pool_def)
  show "pool_inv (mii_ram m') (rx_mem_lp m' ! i) []" if "i < num_ports c" for i
    by (rule inv [of _ "ETHERNET_RX_LP_MEMSIZE c * 4"])
      (use that g in \<open>auto simp: fields fill_nth globals_ok_def pool_regions_def port_regions_def\<close>)
  show "pool_inv (mii_ram m') (tx_mem_lp m' ! i) []" if "i < num_ports c" "\<not> tx_no_buffering c" for i
    by (rule inv [of _ "ETHERNET_TX_LP_MEMSIZE c * 4"])
      (use that g in \<open>auto simp: fields fill_nth globals_ok_def pool_regions_def port_regions_def\<close>)
  show "pool_inv (mii_ram m') (rx_mem_hp m' ! i) []" if "i < num_master_ports c" "rx_hp_queue c" for i
    by (rule inv [of _ "ETHERNET_RX_HP_MEMSIZE c * 4"])
      (use that g in \<open>auto simp: fields fill_nth globals_ok_def pool_regions_def master_regions_def\<close>)
  show "pool_inv (mii_ram m') (tx_mem_hp m' ! i) []" if "i < num_master_ports c" "tx_hp_queue c" for i
    by (rule inv [of _ "ETHERNET_TX_HP_MEMSIZE c * 4"])
      (use that g in \<open>auto simp: fields fill_nth globals_ok_def pool_regions_def master_regions_def\<close>)
  show "ts_queue_inv c (ts_queues m' ! i) \<and> ts_queue_list (ts_queues m' ! i) = []"
    if "i < num_master_ports c" for i
    using that g by (simp add: fields fill_nth globals_ok_def init_ts_queue_inv)
  show "fst (snd (mii_rx_pins_wr c m' i)) = rx_lp_data l + 4 * (rx_bufsize_lp c div 4) * int i"
    if "i < num_ports c" for i
    using that g
    by (simp add: fields fill_nth globals_ok_def mii_rx_pins_wr_def row_addr_def
        ETHERNET_RX_LP_MEMSIZE_def)
  show "lp_queue (fst (mii_tx_pins_wr c m' i)) = tx_lp_data l + 4 * (tx_bufsize_lp c div 4) * int i"
    if "i < num_ports c" "\<not> tx_no_buffering c" for i
    using that g
    by (simp add: fields fill_nth globals_ok_def mii_tx_pins_wr_def row_addr_def
        ETHERNET_TX_LP_MEMSIZE_def)
qed

text \<open>C29: Start-up leaves every thread a usable, empty pool. If the arrays are aligned and apart and
every buffer has at least 112 bytes, then after \<open>init_mii_mem\<close>, for every build, each pool that
the build has satisfies the allocator's invariant with no packet in it, at the same time as all
the others; each timestamp queue is well formed and empty; and the low
priority pools handed to the receive and transmit threads of port i are the ith rows of the arrays.\<close>

theorem init_mii_mem_pools:
  assumes "layout_ok c l" "globals_ok c m" "m' = init_mii_mem c l lock m"
  shows "(\<forall>i < num_ports c. pool_inv (mii_ram m') (rx_mem_lp m' ! i) [] \<and>
       (\<not> tx_no_buffering c \<longrightarrow> pool_inv (mii_ram m') (tx_mem_lp m' ! i) [])) \<and>
    (\<forall>i < num_master_ports c.
       (rx_hp_queue c \<longrightarrow> pool_inv (mii_ram m') (rx_mem_hp m' ! i) []) \<and>
       (tx_hp_queue c \<longrightarrow> pool_inv (mii_ram m') (tx_mem_hp m' ! i) []) \<and>
       ts_queue_inv c (ts_queues m' ! i) \<and> ts_queue_list (ts_queues m' ! i) = []) \<and>
    (\<forall>i < num_ports c.
       fst (snd (mii_rx_pins_wr c m' i)) = rx_lp_data l + 4 * (rx_bufsize_lp c div 4) * int i \<and>
       (\<not> tx_no_buffering c \<longrightarrow>
          lp_queue (fst (mii_tx_pins_wr c m' i)) = tx_lp_data l + 4 * (tx_bufsize_lp c div 4) * int i))"
  using init_mii_mem_pools_parts [OF assms] by blast

definition example_config :: mac_config where
  "example_config = default_config\<lparr>num_ports := 2, rx_hp_queue := True, tx_hp_queue := True\<rparr>"

definition example_layout :: mii_layout where
  "example_layout =
     \<lparr>rx_hp_data = 65536, tx_hp_data = 67584, rx_lp_data = 69632, tx_lp_data = 77824\<rparr>"

definition example_globals :: mii_mem where
  "example_globals =
     \<lparr>mii_ram = \<lparr>mem = (\<lambda>_. 0), pools = (\<lambda>_. \<lparr>rdptr = 0, wrptr = 0, pool_start = 0, pool_end = 0,
        rdptr_at_start = 0\<rparr>)\<rparr>,
      rx_mem_hp = [0], tx_mem_hp = [0], rx_mem_lp = [0, 0], tx_mem_lp = [0, 0],
      ts_queues = [\<lparr>ts_lock = 0, rdIndex = 0, wrIndex = 0, fifo = [0, 0, 0, 0, 0, 0]\<rparr>],
      ethernet_memory_lock = 0\<rparr>"

theorem init_mii_mem_pools_witness:
  "pool_inv (mii_ram (init_mii_mem example_config example_layout 7 example_globals))
     (rx_mem_lp (init_mii_mem example_config example_layout 7 example_globals) ! 1) []"
proof -
  have "layout_ok example_config example_layout" "globals_ok example_config example_globals"
    by code_simp+
  from init_mii_mem_pools [OF this refl, of 7] show ?thesis by (simp add: example_config_def)
qed

end
