(* ===== verification/Checksum.thy ===== *)
theory Checksum
  imports Prelude
begin

text \<open>
  \<open>checksum.c\<close> of the demo application: the internet checksum of a byte range, of an IP header
  and of a UDP packet. A frame is a byte list; the base address of the array matters only for
  its parity, since the code loads aligned half-words, least significant byte first.
\<close>

definition u16_at :: "byte list \<Rightarrow> nat \<Rightarrow> word32" where
  "u16_at d i = ucast (d ! i) OR push_bit 8 (ucast (d ! (i + 1)))"

text \<open>\<open>while (data < endptr)\<close>: the sum and the position where the loop stops.\<close>

function sum_words :: "byte list \<Rightarrow> nat \<Rightarrow> nat \<Rightarrow> word32 \<Rightarrow> word32 \<times> nat" where
  "sum_words d p e accum =
     (if p < e then sum_words d (p + 2) e (accum + u16_at d p) else (accum, p))"
  by auto
termination by (relation "measure (\<lambda>(d, p, e, accum). e - p)") auto

text \<open>\<open>while (accum >> 16)\<close>: fold the carries back in.\<close>

lemma unat_high_half: "unat (drop_bit 16 (accum :: word32)) = unat accum div 65536"
  by (simp only: unat_drop_bit_eq) (simp add: drop_bit_eq_div)

lemma unat_low_half: "unat ((accum :: word32) AND 0xFFFF) = unat accum mod 65536"
proof -
  have "(0xFFFF :: word32) = mask 16" by (simp add: mask_eq_exp_minus_1)
  then have "accum AND 0xFFFF = take_bit 16 accum" by (simp add: take_bit_eq_mask)
  then have "unat (accum AND 0xFFFF) = take_bit 16 (unat accum)" by (simp only: unsigned_take_bit_eq)
  then show ?thesis by (simp only: take_bit_eq_mod) simp
qed

lemma high_half_0_iff: "drop_bit 16 (accum :: word32) = 0 \<longleftrightarrow> unat accum < 65536"
proof -
  have "drop_bit 16 accum = 0 \<longleftrightarrow> unat (drop_bit 16 accum) = 0"
    by (simp only: unsigned_eq_0_iff)
  also have "\<dots> \<longleftrightarrow> unat accum < 65536"
    unfolding unat_high_half by (simp add: div_eq_0_iff)
  finally show ?thesis .
qed

lemma fold_carry_unat:
  "unat (((accum :: word32) AND 0xFFFF) + drop_bit 16 accum) = unat accum mod 65536 + unat accum div 65536"
  using unsigned_less [of accum, where 'a = nat] unat_low_half [of accum] unat_high_half [of accum]
  by (subst unat_add_lem [THEN iffD1]) auto

lemma fold_carry_less:
  assumes "drop_bit 16 (accum :: word32) \<noteq> 0"
  shows "unat ((accum AND 0xFFFF) + drop_bit 16 accum) < unat accum"
proof -
  have "unat accum div 65536 \<noteq> 0"
    using assms high_half_0_iff [of accum] by (simp add: div_eq_0_iff)
  then show ?thesis
    unfolding fold_carry_unat using div_mult_mod_eq [of "unat accum" 65536] by linarith
qed

function fold_carry :: "word32 \<Rightarrow> word32" where
  "fold_carry accum =
     (if drop_bit 16 accum \<noteq> 0 then fold_carry ((accum AND 0xFFFF) + drop_bit 16 accum) else accum)"
  by auto
termination by (relation "measure unat") (auto intro: fold_carry_less)

declare sum_words.simps [simp del] fold_carry.simps [simp del]

definition checksum :: "addr \<Rightarrow> byte list \<Rightarrow> nat \<Rightarrow> nat \<Rightarrow> word16" where
  "checksum base d skip len =
     (if len = 0 then 0
      else
        let p = skip;
            endptr = skip + len - 1;
            swap = ((base + int p) mod 2 = 0);
            accum = (if swap then 0 else push_bit 8 (ucast (d ! p)));
            p = (if swap then p else p + 1);
            (accum, p) = sum_words d p endptr accum;
            accum = (if p = endptr then accum + ucast (d ! p) else accum);
            accum = fold_carry accum
        in if swap then ucast (drop_bit 16 (byterev (NOT accum)))
           else ucast (NOT accum AND 0xFFFF))"

definition checksum_ip :: "byte list \<Rightarrow> word16" where
  "checksum_ip frame =
     (let accum = fold (\<lambda>i accum. accum + u16_at frame i) [14, 16, 18, 20, 22, 24, 26, 28, 30, 32] 0;
          accum = fold_carry accum
      in ucast (drop_bit 16 (byterev (NOT accum))))"

definition checksum_udp :: "byte list \<Rightarrow> nat \<Rightarrow> word16" where
  "checksum_udp frame udplen =
     (let endptr = 34 + udplen - 1;
          accum = 0x1100;
          accum = accum + push_bit 1 (drop_bit 16 (byterev (of_nat udplen)));
          accum = fold (\<lambda>i accum. accum + u16_at frame i) [26, 28, 30, 32, 34, 36] accum;
          (accum, i) = sum_words frame 42 endptr accum;
          accum = (if i = endptr then accum + ucast (frame ! i) else accum);
          accum = fold_carry accum
      in ucast (drop_bit 16 (byterev (NOT accum))))"

subsection \<open>The checksum of RFC 1071\<close>

text \<open>The ones' complement sum of 16-bit big-endian words, an odd last byte padded with zero.\<close>

fun be_words :: "byte list \<Rightarrow> nat list" where
  "be_words [] = []"
| "be_words [a] = [256 * unat a]"
| "be_words (a # b # bs) = (256 * unat a + unat b) # be_words bs"

definition oc_add :: "nat \<Rightarrow> nat \<Rightarrow> nat" where
  "oc_add a b = (let s = a + b in if s \<ge> 65536 then s - 65535 else s)"

definition rfc1071 :: "byte list \<Rightarrow> nat" where
  "rfc1071 bs = 65535 - foldl oc_add 0 (be_words bs)"

text \<open>
  The value of a sum in ones' complement: equal modulo 65535, and 0 only for the empty sum. It is
  what both the end-around carry and the folding of the code compute.
\<close>

definition oc_norm :: "nat \<Rightarrow> nat" where
  "oc_norm s = (if s = 0 then 0 else (s - 1) mod 65535 + 1)"

lemma oc_norm_le: "oc_norm s \<le> 65535"
  by (auto simp: oc_norm_def intro: Suc_leI)

lemma oc_norm_mod: "oc_norm s mod 65535 = s mod 65535"
  by (cases s) (simp_all add: oc_norm_def mod_Suc_eq)

lemma oc_norm_0_iff [simp]: "oc_norm s = 0 \<longleftrightarrow> s = 0"
  by (simp add: oc_norm_def)

lemma oc_norm_unique:
  assumes "x \<le> 65535" "x mod 65535 = s mod 65535" "x = 0 \<longleftrightarrow> s = 0"
  shows "oc_norm s = x"
proof -
  have "oc_norm s mod 65535 = x mod 65535" using assms by (simp add: oc_norm_mod)
  moreover have "oc_norm s = 0 \<longleftrightarrow> x = 0" using assms by simp
  ultimately show ?thesis using assms(1) oc_norm_le [of s]
    by (cases "x = 65535"; cases "oc_norm s = 65535") auto
qed

lemma oc_add_norm:
  assumes "b \<le> 65535"
  shows "oc_add (oc_norm a) b = oc_norm (a + b)"
proof (rule oc_norm_unique [symmetric])
  show "oc_add (oc_norm a) b \<le> 65535"
    using assms oc_norm_le [of a] by (auto simp: oc_add_def Let_def)
  have "oc_add (oc_norm a) b mod 65535 = (oc_norm a + b) mod 65535"
    by (auto simp: oc_add_def Let_def le_mod_geq)
  also have "\<dots> = (a + b) mod 65535" using oc_norm_mod [of a] by (rule mod_add_cong) simp
  finally show "oc_add (oc_norm a) b mod 65535 = (a + b) mod 65535" .
  show "oc_add (oc_norm a) b = 0 \<longleftrightarrow> a + b = 0"
    using oc_norm_0_iff [of a] oc_norm_le [of a] by (auto simp: oc_add_def Let_def)
qed

text \<open>The sum of the bytes, alternately weighted.\<close>

fun wsum :: "nat \<Rightarrow> nat \<Rightarrow> byte list \<Rightarrow> nat" where
  "wsum h l [] = 0"
| "wsum h l (b # bs) = h * unat b + wsum l h bs"

lemma byte_less: "unat (b :: byte) < 256"
  using unsigned_less [of b, where 'a = nat] by simp

lemma foldl_oc_add: "foldl oc_add (oc_norm a) (be_words bs) = oc_norm (a + wsum 256 1 bs)"
proof (induction bs arbitrary: a rule: be_words.induct)
  case 1
  then show ?case by simp
next
  case (2 b)
  then show ?case using byte_less [of b] by (simp add: oc_add_norm)
next
  case (3 b c bs)
  have "256 * unat b + unat c \<le> 65535" using byte_less [of b] byte_less [of c] by linarith
  then show ?case using 3 [of "a + (256 * unat b + unat c)"] by (simp add: oc_add_norm add.assoc)
qed

lemma rfc1071_wsum: "rfc1071 bs = 65535 - oc_norm (wsum 256 1 bs)"
  using foldl_oc_add [of 0 bs] by (simp add: rfc1071_def oc_norm_def)

lemma wsum_bound: "h \<le> 256 \<Longrightarrow> l \<le> 256 \<Longrightarrow> wsum h l bs \<le> 65280 * length bs"
proof (induction bs arbitrary: h l)
  case Nil
  then show ?case by simp
next
  case (Cons b bs)
  have "h * unat b \<le> 256 * 255"
    using Cons.prems byte_less [of b] by (intro mult_le_mono) auto
  then show ?case using Cons.IH [of l h] Cons.prems by simp
qed

text \<open>Byte order independence: swapping the weights multiplies the sum by 256 modulo 65535.\<close>

lemma wsum_swap: "(256 * wsum 1 256 bs) mod 65535 = wsum 256 1 bs mod 65535
  \<and> (256 * wsum 256 1 bs) mod 65535 = wsum 1 256 bs mod 65535"
proof (induction bs)
  case Nil
  then show ?case by simp
next
  case (Cons b bs)
  have "(256 * unat b + 256 * wsum 256 1 bs) mod 65535 = (256 * unat b + wsum 1 256 bs) mod 65535"
    using Cons by (intro mod_add_cong) simp_all
  moreover have "(unat b + 256 * wsum 1 256 bs) mod 65535 = (unat b + wsum 256 1 bs) mod 65535"
    using Cons by (intro mod_add_cong) simp_all
  moreover have "256 * wsum 256 1 (b # bs) = (unat b + 256 * wsum 1 256 bs) + 65535 * unat b" by simp
  ultimately show ?case by (simp only: wsum.simps mod_mult_self2) (simp add: distrib_left)
qed

lemma wsum_0_iff: "wsum 256 1 bs = 0 \<longleftrightarrow> wsum 1 256 bs = 0"
  by (induction bs) auto

subsection \<open>What the code's loops compute\<close>

lemma oc_norm_fold: "oc_norm (s mod 65536 + s div 65536) = oc_norm s"
proof (rule oc_norm_unique [symmetric])
  have s: "s = (s mod 65536 + s div 65536) + 65535 * (s div 65536)"
    using div_mult_mod_eq [of s 65536] by linarith
  then show "oc_norm (s mod 65536 + s div 65536) mod 65535 = s mod 65535"
    unfolding oc_norm_mod by (metis mod_mult_self2)
  show "oc_norm (s mod 65536 + s div 65536) = 0 \<longleftrightarrow> s = 0"
    unfolding oc_norm_0_iff using div_mult_mod_eq [of s 65536] by auto
qed (rule oc_norm_le)

lemma oc_norm_small: "s \<le> 65535 \<Longrightarrow> oc_norm s = s"
  by (intro oc_norm_unique) auto

lemma fold_carry_norm: "unat (fold_carry accum) = oc_norm (unat accum)"
proof (induction accum rule: fold_carry.induct)
  case (1 accum)
  show ?case
  proof (cases "drop_bit 16 accum \<noteq> 0")
    case True
    then have "unat (fold_carry accum) = oc_norm (unat ((accum AND 0xFFFF) + drop_bit 16 accum))"
      using 1 by (subst fold_carry.simps) simp
    then show ?thesis by (simp only: fold_carry_unat oc_norm_fold)
  next
    case False
    then have "unat accum \<le> 65535" using high_half_0_iff [of accum] by simp
    then show ?thesis using False by (subst fold_carry.simps) (simp add: oc_norm_small)
  qed
qed

lemma u16_at_unat: "u16_at d i = of_nat (unat (d ! i) + 256 * unat (d ! (i + 1)))"
proof -
  have "u16_at d i = ucast (d ! i) + push_bit 8 (ucast (d ! (i + 1)))"
    unfolding u16_at_def
    by (rule disjunctive_add [symmetric]) (auto simp: bit_simps dest: bit_imp_le_length)
  then show ?thesis by (simp add: push_bit_eq_mult mult.commute)
qed

lemma sum_words_tail:
  "p \<le> e + 1 \<Longrightarrow> e < length d \<Longrightarrow>
     (case sum_words d p e accum of (accum, p) \<Rightarrow> if p = e then accum + ucast (d ! p) else accum)
       = accum + of_nat (wsum 1 256 (take (e + 1 - p) (drop p d)))"
proof (induction d p e accum rule: sum_words.induct)
  case (1 d p e accum)
  show ?case
  proof (cases "p < e")
    case True
    then have "drop p d = d ! p # d ! (p + 1) # drop (p + 2) d"
      using 1 by (simp add: Cons_nth_drop_Suc)
    moreover have "e + 1 - p = Suc (Suc (e + 1 - (p + 2)))" using True by simp
    ultimately have "wsum 1 256 (take (e + 1 - p) (drop p d))
        = unat (d ! p) + 256 * unat (d ! (p + 1)) + wsum 1 256 (take (e + 1 - (p + 2)) (drop (p + 2) d))"
      by simp
    then show ?thesis
      using 1(1) [OF True] 1(2,3) True
      by (subst sum_words.simps) (simp add: u16_at_unat)
  next
    case False
    then consider "p = e" | "p = e + 1" using 1 by linarith
    then show ?thesis
      by cases (use 1(3) in \<open>simp_all add: sum_words.simps Cons_nth_drop_Suc [symmetric]\<close>)
  qed
qed

lemma unat_not16: "unat (NOT (x :: word16)) = 65535 - unat x"
proof -
  have "NOT x = - 1 - x" by (simp add: not_eq_complement)
  moreover have "unat (- 1 :: word16) = 65535" by (simp add: unsigned_minus_1_eq_mask mask_eq_exp_minus_1)
  ultimately show ?thesis by (simp add: unat_sub word_order.extremum del: diff_minus_eq_add)
qed

definition swap16 :: "nat \<Rightarrow> nat" where
  "swap16 x = 256 * (x mod 256) + x div 256"

lemma swapped_half:
  "(ucast (drop_bit 16 (byterev w)) :: word16) = push_bit 8 (ucast (word_byte w 0)) OR ucast (word_byte w 1)"
  by (rule bit_word_eqI)
    (auto simp: byterev_def bit_simps bit_word_of_bytes bit_word_byte dest: bit_imp_le_length)

lemma unat_word_byte:
  "unat (word_byte w 0) = unat w mod 256" "unat (word_byte w 1) = unat w div 256 mod 256"
proof -
  show "unat (word_byte w 0) = unat w mod 256"
    by (simp add: word_byte_def unsigned_ucast_eq take_bit_eq_mod)
  have "unat (word_byte w 1) = take_bit 8 (unat (drop_bit 8 w))"
    by (simp only: word_byte_def unsigned_ucast_eq) simp
  then show "unat (word_byte w 1) = unat w div 256 mod 256"
    by (simp only: unat_drop_bit_eq take_bit_eq_mod) (simp add: drop_bit_eq_div)
qed

lemma unat_swapped:
  "unat (push_bit 8 (ucast (a :: byte)) OR ucast (b :: byte) :: word16) = 256 * unat a + unat b"
proof -
  have "(push_bit 8 (ucast a) OR ucast b :: word16) = push_bit 8 (ucast a) + ucast b"
    by (rule disjunctive_add [symmetric]) (auto simp: bit_simps dest: bit_imp_le_length)
  then have "(push_bit 8 (ucast a) OR ucast b :: word16) = of_nat (256 * unat a + unat b)"
    by (simp add: push_bit_eq_mult mult.commute)
  moreover have "256 * unat a + unat b < 65536" using byte_less [of a] byte_less [of b] by linarith
  ultimately show ?thesis by (simp add: unat_of_nat take_bit_nat_eq_self del: of_nat_add of_nat_mult)
qed

lemma swapped_complement:
  assumes "unat accum \<le> 65535"
  shows "unat (ucast (drop_bit 16 (byterev (NOT accum))) :: word16) = 65535 - swap16 (unat accum)"
proof -
  have "(ucast (drop_bit 16 (byterev (NOT accum))) :: word16)
      = NOT (push_bit 8 (ucast (word_byte accum 0)) OR ucast (word_byte accum 1))"
    unfolding swapped_half
    by (rule bit_word_eqI) (auto simp: bit_simps bit_word_byte dest: bit_imp_le_length)
  then have "unat (ucast (drop_bit 16 (byterev (NOT accum))) :: word16)
      = 65535 - (256 * unat (word_byte accum 0) + unat (word_byte accum 1))"
    by (simp only: unat_not16 unat_swapped)
  moreover have "unat accum div 256 < 256" using assms by (auto intro: less_mult_imp_div_less)
  ultimately show ?thesis
    by (simp only: unat_word_byte swap16_def) simp
qed

lemma masked_complement:
  assumes "unat (accum :: word32) \<le> 65535"
  shows "unat (ucast (NOT accum AND 0xFFFF) :: word16) = 65535 - unat accum"
proof -
  have "(ucast (NOT accum AND 0xFFFF) :: word16) = NOT (ucast accum)"
  proof (rule bit_word_eqI)
    fix n :: nat
    assume "n < LENGTH(16)"
    moreover have "bit (0xFFFF :: word32) n \<longleftrightarrow> n < 16"
    proof -
      have "(0xFFFF :: word32) = mask 16" by (simp add: mask_eq_exp_minus_1)
      then show ?thesis by (simp only: bit_mask_iff) auto
    qed
    ultimately show "bit (ucast (NOT accum AND 0xFFFF) :: word16) n = bit (NOT (ucast accum) :: word16) n"
      by (auto simp: bit_simps)
  qed
  moreover have "unat (ucast accum :: word16) = unat accum"
    using assms by (simp add: unsigned_ucast_eq take_bit_nat_eq_self)
  ultimately show ?thesis by (simp add: unat_not16)
qed

text \<open>Swapping the bytes of a folded sum is folding the sum with the other weights.\<close>

lemma swap16_oc_norm:
  assumes "(256 * s) mod 65535 = t mod 65535" "s = 0 \<longleftrightarrow> t = 0"
  shows "swap16 (oc_norm s) = oc_norm t"
proof (rule oc_norm_unique [symmetric])
  let ?x = "oc_norm s"
  have x: "?x = 256 * (?x div 256) + ?x mod 256" by simp
  have "?x div 256 \<le> 255" "?x mod 256 \<le> 255" using oc_norm_le [of s] by (auto intro: div_le_mono)
  show "swap16 ?x \<le> 65535"
    using \<open>?x div 256 \<le> 255\<close> \<open>?x mod 256 \<le> 255\<close> by (simp add: swap16_def)
  have "256 * ?x = swap16 ?x + 65535 * (?x div 256)"
    using x unfolding swap16_def by linarith
  then have "swap16 ?x mod 65535 = (256 * ?x) mod 65535" by (metis mod_mult_self2)
  also have "\<dots> = (256 * s) mod 65535" using oc_norm_mod [of s] by (rule mod_mult_cong [OF refl])
  finally show "swap16 ?x mod 65535 = t mod 65535" using assms(1) by simp
  show "swap16 ?x = 0 \<longleftrightarrow> t = 0"
    using x assms(2) oc_norm_0_iff [of s] unfolding swap16_def by linarith
qed

subsection \<open>Properties\<close>

definition byte_range :: "byte list \<Rightarrow> nat \<Rightarrow> nat \<Rightarrow> byte list" where
  "byte_range d a n = take n (drop a d)"

lemma wsum_32:
  "h \<le> 256 \<Longrightarrow> l \<le> 256 \<Longrightarrow> length bs \<le> 65792 \<Longrightarrow> unat (of_nat (wsum h l bs) :: word32) = wsum h l bs"
  using wsum_bound [of h l bs] by (simp add: unat_of_nat take_bit_nat_eq_self)

text \<open>Both ways the code finishes give the reference value.\<close>

lemma finish_swapped:
  assumes "length bs \<le> 65792" "accum = of_nat (wsum 1 256 bs)"
  shows "unat (ucast (drop_bit 16 (byterev (NOT (fold_carry accum)))) :: word16) = rfc1071 bs"
proof -
  have "unat (fold_carry accum) = oc_norm (wsum 1 256 bs)"
    using assms by (simp add: fold_carry_norm wsum_32)
  moreover have "swap16 (oc_norm (wsum 1 256 bs)) = oc_norm (wsum 256 1 bs)"
    using wsum_swap [of bs] wsum_0_iff [of bs] by (intro swap16_oc_norm) auto
  ultimately show ?thesis
    using swapped_complement [of "fold_carry accum"] oc_norm_le by (simp add: rfc1071_wsum)
qed

lemma finish_masked:
  assumes "length bs \<le> 65792" "accum = of_nat (wsum 256 1 bs)"
  shows "unat (ucast (NOT (fold_carry accum) AND 0xFFFF) :: word16) = rfc1071 bs"
  using masked_complement [of "fold_carry accum"] assms oc_norm_le
  by (simp add: fold_carry_norm wsum_32 rfc1071_wsum)

text \<open>C32: The optimised checksum is the internet checksum of RFC 1071: for every array, start and
positive 16-bit length, whether the first byte is at an even or an odd address and whether the
length is even or odd, \<open>checksum\<close> returns the complement of the ones' complement sum of the
big-endian words of the range. For length 0 it returns 0, where RFC 1071 gives 0xFFFF.\<close>

theorem checksum_rfc1071:
  assumes "skip + len \<le> length data" "len < 65536"
  shows "unat (checksum base data skip len) =
    (if len = 0 then 0 else rfc1071 (byte_range data skip len))"
proof (cases "len = 0")
  case True
  then show ?thesis by (simp add: checksum_def)
next
  case False
  let ?e = "skip + len - 1"
  have e: "?e < length data" and len: "length (byte_range data skip len) \<le> 65792"
    using assms False by (auto simp: byte_range_def)
  show ?thesis
  proof (cases "(base + int skip) mod 2 = 0")
    case True
    obtain a p where sw: "sum_words data skip ?e 0 = (a, p)" by fastforce
    have "(if p = ?e then a + ucast (data ! p) else a) = of_nat (wsum 1 256 (byte_range data skip len))"
      using sum_words_tail [of skip ?e data 0] sw e False by (simp add: byte_range_def)
    then have "unat (ucast (drop_bit 16 (byterev (NOT (fold_carry
        (if p = ?e then a + ucast (data ! p) else a))))) :: word16) = rfc1071 (byte_range data skip len)"
      by (intro finish_swapped len)
    then show ?thesis
      unfolding checksum_def using False True sw by (simp only: Let_def if_True if_False split_conv simp_thms)
  next
    case odd: False
    obtain a p where sw: "sum_words data (skip + 1) ?e (push_bit 8 (ucast (data ! skip))) = (a, p)"
      by fastforce
    have "byte_range data skip len = data ! skip # take (len - 1) (drop (skip + 1) data)"
      using e False by (cases len) (auto simp: byte_range_def Cons_nth_drop_Suc [symmetric])
    moreover have "(push_bit 8 (ucast (data ! skip)) :: word32) = of_nat (256 * unat (data ! skip))"
      by (simp add: push_bit_eq_mult mult.commute)
    ultimately have "(if p = ?e then a + ucast (data ! p) else a) = of_nat (wsum 256 1 (byte_range data skip len))"
      using sum_words_tail [of "skip + 1" ?e data "push_bit 8 (ucast (data ! skip))"] sw e False
      by simp
    then have "unat (ucast (NOT (fold_carry (if p = ?e then a + ucast (data ! p) else a)) AND 0xFFFF) :: word16)
        = rfc1071 (byte_range data skip len)"
      by (intro finish_masked len)
    then show ?thesis
      unfolding checksum_def using False odd sw by (simp only: Let_def if_True if_False split_conv simp_thms)
  qed
qed

theorem checksum_rfc1071_witness:
  "unat (checksum 1 [0x45, 0, 0, 0x73, 0xff] 1 3) = rfc1071 [0, 0, 0x73]"
  using checksum_rfc1071 [of 1 3 "[0x45, 0, 0, 0x73, 0xff]" 1] by (simp add: byte_range_def numeral_3_eq_3)

lemma wsum_append:
  "wsum h l (xs @ ys) = wsum h l xs + (if even (length xs) then wsum h l ys else wsum l h ys)"
  by (induction xs arbitrary: h l) auto

lemma wsum_update:
  "i < length bs \<Longrightarrow> wsum h l (bs[i := b]) + (if even i then h else l) * unat (bs ! i)
     = wsum h l bs + (if even i then h else l) * unat b"
proof (induction bs arbitrary: i h l)
  case Nil
  then show ?case by simp
next
  case (Cons x bs)
  show ?case
  proof (cases i)
    case 0
    then show ?thesis by simp
  next
    case (Suc j)
    then show ?thesis using Cons.IH [of j l h] Cons.prems by (cases "even j") simp_all
  qed
qed

lemma fold_u16:
  "a + 2 * n \<le> length d \<Longrightarrow> fold (\<lambda>i accum. accum + u16_at d i) (map (\<lambda>k. a + 2 * k) [0..<n]) accum
     = accum + of_nat (wsum 1 256 (byte_range d a (2 * n)))"
proof (induction n)
  case 0
  then show ?case by (simp add: byte_range_def)
next
  case (Suc n)
  have "byte_range d a (2 * Suc n) = byte_range d a (2 * n) @ [d ! (a + 2 * n), d ! (a + 2 * n + 1)]"
    using Suc.prems by (simp add: byte_range_def take_Suc_conv_app_nth)
  moreover have "length (byte_range d a (2 * n)) = 2 * n"
    using Suc.prems by (simp add: byte_range_def)
  ultimately show ?case
    using Suc by (simp add: wsum_append u16_at_unat)
qed

lemma oc_norm_complement: "oc_norm (s + (65535 - oc_norm s)) = 65535"
proof (rule oc_norm_unique)
  show "65535 mod 65535 = (s + (65535 - oc_norm s)) mod 65535"
  proof -
    have "(s + (65535 - oc_norm s)) mod 65535 = (oc_norm s + (65535 - oc_norm s)) mod 65535"
      using oc_norm_mod [of s] by (intro mod_add_cong) simp_all
    also have "oc_norm s + (65535 - oc_norm s) = 65535" using oc_norm_le [of s] by simp
    finally show ?thesis by simp
  qed
  show "(65535 = (0 :: nat)) = (s + (65535 - oc_norm s) = 0)"
    by (cases "s = 0") (auto simp: oc_norm_def)
qed simp

definition high_byte :: "word16 \<Rightarrow> byte" where
  "high_byte w = ucast (drop_bit 8 w)"

definition low_byte :: "word16 \<Rightarrow> byte" where
  "low_byte w = ucast w"

lemma high_low_byte: "256 * unat (high_byte w) + unat (low_byte w) = unat w"
proof -
  have "(push_bit 8 (ucast (high_byte w)) OR ucast (low_byte w) :: word16) = w"
    by (rule bit_word_eqI) (auto simp: high_byte_def low_byte_def bit_simps dest: bit_imp_le_length)
  then show ?thesis using unat_swapped [of "high_byte w" "low_byte w"] by simp
qed

text \<open>\<open>checksum_ip\<close> is the RFC 1071 checksum of bytes 14 to 33, the IP header without options,
and a header that carries it verifies.\<close>

lemma checksum_ip_header_parts:
  assumes "34 \<le> length frame"
  shows "unat (checksum_ip frame) = rfc1071 (byte_range frame 14 20)"
    "frame ! 24 = 0 \<Longrightarrow> frame ! 25 = 0 \<Longrightarrow>
       checksum_ip (frame[24 := high_byte (checksum_ip frame), 25 := low_byte (checksum_ip frame)]) = 0"
proof -
  have ip: "unat (checksum_ip f) = rfc1071 (byte_range f 14 20)" if "34 \<le> length f" for f
  proof -
    have "map (\<lambda>k. 14 + 2 * k) [0..<10] = [14, 16, 18, 20, 22, 24, 26, 28, 30, 32 :: nat]"
      by (simp add: upt_rec)
    then have "fold (\<lambda>i accum. accum + u16_at f i) [14, 16, 18, 20, 22, 24, 26, 28, 30, 32] 0
        = of_nat (wsum 1 256 (byte_range f 14 20))"
      using fold_u16 [of 14 10 f 0] that by simp
    then show ?thesis
      unfolding checksum_ip_def Let_def by (intro finish_swapped) (auto simp: byte_range_def)
  qed
  show "unat (checksum_ip frame) = rfc1071 (byte_range frame 14 20)" using assms by (rule ip)
  assume z: "frame ! 24 = 0" "frame ! 25 = 0"
  let ?cs = "checksum_ip frame" and ?h = "byte_range frame 14 20"
  let ?f = "frame[24 := high_byte ?cs, 25 := low_byte ?cs]"
  have h: "byte_range ?f 14 20 = ?h[10 := high_byte ?cs, 11 := low_byte ?cs]"
    by (simp add: byte_range_def drop_update_swap take_update_swap)
  have "wsum 256 1 (?h[10 := high_byte ?cs, 11 := low_byte ?cs])
      = wsum 256 1 ?h + (256 * unat (high_byte ?cs) + unat (low_byte ?cs))"
    using wsum_update [of 11 "?h[10 := high_byte ?cs]" 256 1 "low_byte ?cs"]
      wsum_update [of 10 ?h 256 1 "high_byte ?cs"] assms z
    by (simp add: byte_range_def)
  then have "wsum 256 1 (byte_range ?f 14 20)
      = wsum 256 1 ?h + (256 * unat (high_byte ?cs) + unat (low_byte ?cs))"
    by (simp only: h)
  also have "\<dots> = wsum 256 1 ?h + (65535 - oc_norm (wsum 256 1 ?h))"
    using ip [OF assms] by (simp only: high_low_byte rfc1071_wsum)
  finally have "unat (checksum_ip ?f) = 0"
    using ip [of ?f] assms by (simp add: rfc1071_wsum oc_norm_complement)
  then show "checksum_ip ?f = 0" by (simp only: unsigned_eq_0_iff)
qed

text \<open>What a UDP checksum covers: the pseudo-header (addresses, protocol 17, length), then the ports,
the length, an empty checksum field and the payload.\<close>

definition udp_covered :: "byte list \<Rightarrow> word16 \<Rightarrow> byte list" where
  "udp_covered frame len =
     byte_range frame 26 8 @ [0, 17] @ [high_byte len, low_byte len]
     @ byte_range frame 34 4 @ [high_byte len, low_byte len] @ [0, 0]
     @ byte_range frame 42 (unat len - 8)"

lemma swapped_length:
  "(drop_bit 16 (byterev (of_nat (unat (len :: word16)))) :: word32)
     = of_nat (unat (high_byte len) + 256 * unat (low_byte len))"
proof (rule word_eq_iff_unsigned [where 'a = nat, THEN iffD2])
  let ?w = "of_nat (unat len) :: word32"
  have w: "?w = ucast len" by simp
  have b: "word_byte ?w 0 = low_byte len" "word_byte ?w 1 = high_byte len"
    unfolding w
    by (rule bit_word_eqI; auto simp: bit_word_byte low_byte_def high_byte_def bit_simps
        dest: bit_imp_le_length)+
  have "unat (drop_bit 16 (byterev ?w)) < 65536"
    using unsigned_less [of "byterev ?w", where 'a = nat] by (simp only: unat_high_half) simp
  then have "unat (drop_bit 16 (byterev ?w)) = unat (ucast (drop_bit 16 (byterev ?w)) :: word16)"
    by (simp only: unsigned_ucast_eq) (simp add: take_bit_nat_eq_self)
  also have "\<dots> = 256 * unat (low_byte len) + unat (high_byte len)"
    by (simp only: swapped_half b unat_swapped)
  also have "\<dots> = unat (of_nat (unat (high_byte len) + 256 * unat (low_byte len)) :: word32)"
  proof -
    have "unat (high_byte len) + 256 * unat (low_byte len) < 65536"
      using byte_less [of "high_byte len"] byte_less [of "low_byte len"] by linarith
    then show ?thesis
      by (simp add: unat_of_nat take_bit_nat_eq_self del: of_nat_add of_nat_mult)
  qed
  finally show "unat (drop_bit 16 (byterev ?w))
    = unat (of_nat (unat (high_byte len) + 256 * unat (low_byte len)) :: word32)" .
qed

text \<open>C33: \<open>checksum_udp\<close> is the RFC 1071 checksum of the pseudo-header, the UDP header with its
checksum field taken as zero, and the payload, for payloads of even and odd length.\<close>

theorem checksum_udp_pseudo_header:
  assumes "34 + unat len \<le> length frame" "8 \<le> unat len"
  shows "unat (checksum_udp frame (unat len)) = rfc1071 (udp_covered frame len)"
proof -
  let ?n = "unat len" and ?e = "34 + unat len - 1"
  let ?l = "unat (high_byte len) + 256 * unat (low_byte len)"
  have n: "?n \<le> 65535" using unsigned_less [of len, where 'a = nat] by simp
  have "map (\<lambda>k. 26 + 2 * k) [0..<6] = [26, 28, 30, 32, 34, 36 :: nat]" by (simp add: upt_rec)
  then have f: "fold (\<lambda>i accum. accum + u16_at frame i) [26, 28, 30, 32, 34, 36] accum
      = accum + of_nat (wsum 1 256 (byte_range frame 26 12))" for accum
    using fold_u16 [of 26 6 frame accum] assms by simp
  let ?acc = "0x1100 + push_bit 1 (drop_bit 16 (byterev (of_nat ?n)))
    + of_nat (wsum 1 256 (byte_range frame 26 12)) :: word32"
  obtain a i where sw: "sum_words frame 42 ?e ?acc = (a, i)" by fastforce
  have l: "push_bit 1 (drop_bit 16 (byterev (of_nat ?n))) = (of_nat (2 * ?l) :: word32)"
    by (simp only: swapped_length push_bit_eq_mult) simp
  have "byte_range frame 26 12 = byte_range frame 26 8 @ byte_range frame 34 4"
    by (simp add: byte_range_def take_add [of 8 4, simplified] add.commute)
  then have "wsum 1 256 (udp_covered frame len) = 0x1100 + 2 * ?l
      + wsum 1 256 (byte_range frame 26 12) + wsum 1 256 (byte_range frame 42 (?n - 8))"
    using assms by (simp add: udp_covered_def wsum_append byte_range_def)
  moreover have "(if i = ?e then a + ucast (frame ! i) else a)
      = of_nat (0x1100 + 2 * ?l + wsum 1 256 (byte_range frame 26 12)
          + wsum 1 256 (byte_range frame 42 (?n - 8)))"
    using sum_words_tail [of 42 ?e frame ?acc] sw assms unfolding l
    by (simp add: byte_range_def)
  ultimately have "unat (ucast (drop_bit 16 (byterev (NOT (fold_carry
      (if i = ?e then a + ucast (frame ! i) else a))))) :: word16) = rfc1071 (udp_covered frame len)"
    by (intro finish_swapped) (use n assms in \<open>auto simp: udp_covered_def byte_range_def\<close>)
  then show ?thesis
    unfolding checksum_udp_def using sw by (simp only: Let_def f split_conv)
qed

theorem checksum_udp_pseudo_header_witness:
  "unat (checksum_udp (replicate 43 5) (unat (9 :: word16))) = rfc1071 (udp_covered (replicate 43 5) 9)"
  by (rule checksum_udp_pseudo_header) simp_all

end
