(* ===== verification/Smi.thy ===== *)
theory Smi
  imports Prelude
begin

text \<open>
  \<open>smi.xc\<close>: management access to the PHY. \<open>smi_bit_shift\<close> drives or samples the two wires bit by
  bit, \<open>smi_reg\<close> sends one frame, and the other functions read and change PHY registers through
  it. The operations on ports are a list of events; the port times (\<open>@ t\<close>) and the values that
  inputs return are arguments.
\<close>

record smi_config =
  smi_combine :: bool
  smi_handle_combined :: bool
  mdio_bit :: nat
  mdc_bit :: nat
  mdio_rest :: word32
  reset_mux :: bool

record smi_interface_t =
  phy_address :: int

text \<open>
  The defaults of \<open>smi.xc\<close> from what the configuration headers define. Ports are combined only
  on request, and the bit positions then default to 0 (clock) and 1 (data).
\<close>

definition smi_configuration ::
  "bool \<Rightarrow> bool option \<Rightarrow> nat option \<Rightarrow> nat option \<Rightarrow> word32 option \<Rightarrow> bool \<Rightarrow> smi_config" where
  "smi_configuration combine handle mdc mdio rest mux =
     (let handle = (case handle of None \<Rightarrow> combine | Some h \<Rightarrow> h)
      in \<lparr>smi_combine = combine, smi_handle_combined = handle,
          mdio_bit = (case mdio of None \<Rightarrow> (if handle then 1 else 0) | Some b \<Rightarrow> b),
          mdc_bit = (case mdc of None \<Rightarrow> 0 | Some b \<Rightarrow> b),
          mdio_rest = (case rest of None \<Rightarrow> 0 | Some r \<Rightarrow> r), reset_mux = mux\<rparr>)"

text \<open>
  \<open>Mdc_out t v\<close>: \<open>p_smi_mdc @ t <: v\<close>, \<open>Mdc_now v\<close>: \<open>p_smi_mdc <: v\<close>, \<open>Mdc_in t\<close> and
  \<open>Mdc_in_now\<close>: inputs from that port, \<open>Mdio_out v\<close> and \<open>Mdio_in\<close>: the data port,
  \<open>Wait_ticks n\<close>: the thread waits for \<open>n\<close> ticks of the reference clock.
\<close>

datatype pin_event =
    Mdc_out int word32 | Mdc_now word32 | Mdc_in int | Mdc_in_now
  | Mdio_out word32 | Mdio_in | Wait_ticks int

definition smi_init :: "smi_config \<Rightarrow> smi_interface_t \<Rightarrow> pin_event list" where
  "smi_init k smi =
     (if reset_mux k then [Mdio_out 0, Wait_ticks 100000, Mdio_out (mdio_rest k)] else []) @
     (if smi_handle_combined k \<and> (smi_combine k \<or> phy_address smi < 0)
      then [Mdc_now (push_bit (mdc_bit k) 1)] else [Mdc_now 1])"

subsection \<open>Shifting bits\<close>

text \<open>The loop with separate ports; the last event restores the clock.\<close>

fun shift_separate ::
  "smi_config \<Rightarrow> bool \<Rightarrow> nat \<Rightarrow> int \<Rightarrow> word32 \<Rightarrow> word32 list \<Rightarrow> word32 \<times> pin_event list \<times> word32 list"
  where
  "shift_separate k inning 0 t data ins = (data, [Mdc_out (t + 30) (- 1)], ins)"
| "shift_separate k inning (Suc i) t data ins =
     (let out = (if inning then []
                 else [Mdio_out (push_bit (mdio_bit k) (drop_bit i data AND 1) OR mdio_rest k)]);
          sample = (if inning then [Mdio_in] else []);
          data = (if inning then push_bit 1 data OR drop_bit (mdio_bit k) (hd ins) else data);
          ins = (if inning then tl ins else ins);
          (d, evs, ins) = shift_separate k inning i (t + 60) data ins
      in (d, Mdc_out (t + 30) 0 # out @ Mdc_out (t + 60) (- 1) # sample @ evs, ins))"

text \<open>The two loops with both wires on one port.\<close>

fun shift_combined_in ::
  "smi_config \<Rightarrow> nat \<Rightarrow> int \<Rightarrow> word32 \<Rightarrow> word32 list \<Rightarrow> word32 \<times> pin_event list \<times> word32 list" where
  "shift_combined_in k 0 t data ins = (data, [Mdc_in (t + 30)], ins)"
| "shift_combined_in k (Suc i) t data ins =
     (let dataBit = (hd ins AND push_bit (mdio_bit k) 1) OR mdio_rest k;
          (d, evs, ins) = shift_combined_in k i (t + 60)
             (push_bit 1 data OR drop_bit (mdio_bit k) dataBit) (tl ins)
      in (d, Mdc_in (t + 30) # Mdc_now dataBit # Mdc_out (t + 60) (push_bit (mdc_bit k) 1 OR dataBit)
             # Mdc_in_now # evs, ins))"

fun shift_combined_out ::
  "smi_config \<Rightarrow> nat \<Rightarrow> int \<Rightarrow> word32 \<Rightarrow> word32 \<Rightarrow> pin_event list" where
  "shift_combined_out k 0 t data dataBit = [Mdc_out (t + 30) (push_bit (mdc_bit k) 1 OR dataBit)]"
| "shift_combined_out k (Suc i) t data dataBit =
     (let dataBit = push_bit (mdio_bit k) (drop_bit i data AND 1) OR mdio_rest k
      in Mdc_out (t + 30) dataBit # Mdc_out (t + 60) (push_bit (mdc_bit k) 1 OR dataBit)
           # shift_combined_out k i (t + 60) data dataBit)"

definition smi_bit_shift ::
  "smi_config \<Rightarrow> smi_interface_t \<Rightarrow> word32 \<Rightarrow> nat \<Rightarrow> bool \<Rightarrow> int \<Rightarrow> word32 list \<Rightarrow>
     word32 \<times> pin_event list \<times> word32 list" where
  "smi_bit_shift k smi data count inning t ins =
     (if (smi_handle_combined k \<or> smi_combine k) \<and> (smi_combine k \<or> phy_address smi < 0) then
        if inning then
          let (d, evs, ins) = shift_combined_in k count t data ins in (d, Mdc_in_now # evs, ins)
        else (data, Mdc_in_now # shift_combined_out k count t data 0, ins)
      else
        let (d, evs, ins) = shift_separate k inning count t data ins
        in (d, Mdc_now (- 1) # evs, ins))"

abbreviation (input) "SMI_READ \<equiv> True"
abbreviation (input) "SMI_WRITE \<equiv> False"

text \<open>One access; \<open>ts\<close> are the port times at the start of the four shifts.\<close>

definition smi_reg ::
  "smi_config \<Rightarrow> smi_interface_t \<Rightarrow> nat \<Rightarrow> word32 \<Rightarrow> bool \<Rightarrow> int \<times> int \<times> int \<times> int \<Rightarrow> word32 list \<Rightarrow>
     word32 \<times> pin_event list \<times> word32 list" where
  "smi_reg k smi reg val inning = (\<lambda>(t0, t1, t2, t3) ins.
     (let (d0, e0, ins) = smi_bit_shift k smi 0xffffffff 32 SMI_WRITE t0 ins;
          (d1, e1, ins) = smi_bit_shift k smi
             (push_bit 10 (if inning then 6 else 5) OR push_bit 5 (word_of_int (phy_address smi))
              OR of_nat reg) 14 SMI_WRITE t1 ins;
          (d2, e2, ins) = smi_bit_shift k smi 2 2 inning t2 ins;
          (d3, e3, ins) = smi_bit_shift k smi val 16 inning t3 ins
      in (d3, e0 @ e1 @ e2 @ e3, ins)))"

subsection \<open>PHY registers\<close>

abbreviation (input) "BASIC_CONTROL_REG \<equiv> (0 :: nat)"
abbreviation (input) "BASIC_STATUS_REG \<equiv> (1 :: nat)"
abbreviation (input) "PHY_ID1_REG \<equiv> (2 :: nat)"
abbreviation (input) "PHY_ID2_REG \<equiv> (3 :: nat)"
abbreviation (input) "AUTONEG_ADVERT_REG \<equiv> (4 :: nat)"

abbreviation (input) "BASIC_CONTROL_LOOPBACK_BIT \<equiv> (14 :: nat)"
abbreviation (input) "BASIC_CONTROL_100_MBPS_BIT \<equiv> (13 :: nat)"
abbreviation (input) "BASIC_CONTROL_AUTONEG_EN_BIT \<equiv> (12 :: nat)"
abbreviation (input) "BASIC_CONTROL_RESTART_AUTONEG_BIT \<equiv> (9 :: nat)"
abbreviation (input) "BASIC_CONTROL_FULL_DUPLEX_BIT \<equiv> (8 :: nat)"
abbreviation (input) "BASIC_STATUS_LINK_BIT \<equiv> (2 :: nat)"
abbreviation (input) "AUTONEG_ADVERT_100_BIT \<equiv> (8 :: nat)"
abbreviation (input) "AUTONEG_ADVERT_10_BIT \<equiv> (6 :: nat)"

text \<open>
  The functions on registers are a sequence of accesses. They take the access as an argument: the
  register, the value, the direction and the state of the bus.
\<close>

type_synonym 's smi_access = "nat \<Rightarrow> word32 \<Rightarrow> bool \<Rightarrow> 's \<Rightarrow> word32 \<times> 's"

definition flag :: "nat \<Rightarrow> word32" where
  "flag n = push_bit n 1"

definition eth_phy_id :: "'s smi_access \<Rightarrow> 's \<Rightarrow> word32 \<times> 's" where
  "eth_phy_id acc s =
     (let (lo, s) = acc PHY_ID1_REG 0 SMI_READ s;
          (hi, s) = acc PHY_ID2_REG 0 SMI_READ s
      in (push_bit 16 (drop_bit 10 hi) OR lo, s))"

definition eth_phy_config :: "'s smi_access \<Rightarrow> bool \<Rightarrow> 's \<Rightarrow> 's" where
  "eth_phy_config acc eth100 s =
     (let (autoNegAdvertReg, s) = acc AUTONEG_ADVERT_REG 0 SMI_READ s;
          autoNegAdvertReg = autoNegAdvertReg AND 0xfc1f;
          autoNegAdvertReg = (if eth100 then autoNegAdvertReg OR flag AUTONEG_ADVERT_100_BIT
                              else autoNegAdvertReg OR flag AUTONEG_ADVERT_10_BIT);
          (r, s) = acc AUTONEG_ADVERT_REG autoNegAdvertReg SMI_WRITE s;
          (basicControl, s) = acc BASIC_CONTROL_REG 0 SMI_READ s;
          basicControl = basicControl OR flag BASIC_CONTROL_AUTONEG_EN_BIT;
          (r, s) = acc BASIC_CONTROL_REG basicControl SMI_WRITE s;
          basicControl = basicControl OR flag BASIC_CONTROL_RESTART_AUTONEG_BIT;
          (r, s) = acc BASIC_CONTROL_REG basicControl SMI_WRITE s
      in s)"

definition eth_phy_config_noauto :: "'s smi_access \<Rightarrow> bool \<Rightarrow> 's \<Rightarrow> 's" where
  "eth_phy_config_noauto acc eth100 s =
     (let (basicControl, s) = acc BASIC_CONTROL_REG 0 SMI_READ s;
          basicControl = basicControl OR flag BASIC_CONTROL_FULL_DUPLEX_BIT;
          basicControl = basicControl AND NOT (flag BASIC_CONTROL_AUTONEG_EN_BIT
                                               OR flag BASIC_CONTROL_100_MBPS_BIT);
          basicControl = (if eth100 then basicControl OR flag BASIC_CONTROL_100_MBPS_BIT
                          else basicControl);
          (r, s) = acc BASIC_CONTROL_REG basicControl SMI_WRITE s
      in s)"

definition eth_phy_loopback :: "'s smi_access \<Rightarrow> bool \<Rightarrow> 's \<Rightarrow> 's" where
  "eth_phy_loopback acc enable s =
     (let (controlReg, s) = acc BASIC_CONTROL_REG 0 SMI_READ s;
          controlReg = controlReg AND NOT (flag BASIC_CONTROL_AUTONEG_EN_BIT
                                           OR flag BASIC_CONTROL_LOOPBACK_BIT);
          controlReg = (if enable then controlReg OR flag BASIC_CONTROL_LOOPBACK_BIT
                        else controlReg OR flag BASIC_CONTROL_AUTONEG_EN_BIT);
          (r, s) = acc BASIC_CONTROL_REG controlReg SMI_WRITE s
      in s)"

definition smi_check_link_state :: "'s smi_access \<Rightarrow> 's \<Rightarrow> word32 \<times> 's" where
  "smi_check_link_state acc s =
     (let (r, s) = acc BASIC_STATUS_REG 0 SMI_READ s
      in (drop_bit BASIC_STATUS_LINK_BIT r AND 1, s))"

subsection \<open>What is on the wire\<close>

text \<open>
  The data line at each rising edge of the clock, \<open>None\<close> where the MAC does not drive it. The
  arguments are the level of the clock and what the data port drives.
\<close>

fun edges :: "smi_config \<Rightarrow> bool \<Rightarrow> bool option \<Rightarrow> pin_event list \<Rightarrow> bool option list" where
  "edges k c m [] = []"
| "edges k c m (Mdc_out t v # es) = (if \<not> c \<and> bit v 0 then [m] else []) @ edges k (bit v 0) m es"
| "edges k c m (Mdc_now v # es) = (if \<not> c \<and> bit v 0 then [m] else []) @ edges k (bit v 0) m es"
| "edges k c m (Mdio_out v # es) = edges k c (Some (bit v (mdio_bit k))) es"
| "edges k c m (Mdio_in # es) = edges k c None es"
| "edges k c m (Mdc_in t # es) = edges k c m es"
| "edges k c m (Mdc_in_now # es) = edges k c m es"
| "edges k c m (Wait_ticks t # es) = edges k c m es"

text \<open>The low \<open>n\<close> bits of a word, most significant first.\<close>

fun bits_msb :: "nat \<Rightarrow> word32 \<Rightarrow> bool list" where
  "bits_msb 0 w = []"
| "bits_msb (Suc n) w = bit w n # bits_msb n w"

definition separate_ports :: "smi_config \<Rightarrow> smi_interface_t \<Rightarrow> bool" where
  "separate_ports k smi \<longleftrightarrow>
     \<not> smi_combine k \<and> (smi_handle_combined k \<longrightarrow> 0 \<le> phy_address smi) \<and>
     mdio_bit k < 32 \<and> \<not> bit (mdio_rest k) (mdio_bit k)"

lemma length_bits_msb [simp]: "length (bits_msb n w) = n"
  by (induction n) simp_all

lemma shift_separate_out:
  assumes "mdio_bit k < 32" "\<not> bit (mdio_rest k) (mdio_bit k)"
  shows "\<exists>evs. shift_separate k SMI_WRITE n t data ins = (data, evs, ins) \<and>
    (\<forall>m es. edges k True m (evs @ es)
       = map Some (bits_msb n data) @ edges k True (if n = 0 then m else Some (bit data 0)) es)"
proof (induction n arbitrary: t)
  case 0
  then show ?case by (simp add: bit_minus_1_iff)
next
  case (Suc n)
  let ?v = "push_bit (mdio_bit k) (drop_bit n data AND 1) OR mdio_rest k"
  obtain evs where e: "shift_separate k SMI_WRITE n (t + 60) data ins = (data, evs, ins)"
    "\<And>m es. edges k True m (evs @ es)
       = map Some (bits_msb n data) @ edges k True (if n = 0 then m else Some (bit data 0)) es"
    using Suc by blast
  have v: "bit ?v (mdio_bit k) = bit data n"
    using assms by (auto simp: bit_simps bit_1_iff)
  let ?E = "Mdc_out (t + 30) 0 # Mdio_out ?v # Mdc_out (t + 60) (- 1) # evs"
  have head: "edges k True m (?E @ es) = Some (bit data n) # edges k True (Some (bit data n)) (evs @ es)"
    for m es
    by (simp only: append_Cons edges.simps v) (simp add: bit_minus_1_iff)
  have tail: "edges k True (Some (bit data n)) (evs @ es)
      = map Some (bits_msb n data) @ edges k True (Some (bit data 0)) es" for es
    by (cases n) (simp_all add: e(2))
  show ?case
  proof (intro exI conjI allI)
    show "shift_separate k False (Suc n) t data ins = (data, ?E, ins)"
      by (simp add: e(1))
    show "edges k True m (?E @ es) = map Some (bits_msb (Suc n) data)
        @ edges k True (if Suc n = 0 then m else Some (bit data 0)) es" for m es
      by (simp only: head tail) simp
  qed
qed

text \<open>Sampling: the data line is released from the second edge on.\<close>

definition shift_in :: "smi_config \<Rightarrow> word32 \<Rightarrow> word32 list \<Rightarrow> word32" where
  "shift_in k data ins = fold (\<lambda>w d. push_bit 1 d OR drop_bit (mdio_bit k) w) ins data"

lemma shift_separate_in:
  "n \<le> length ins \<Longrightarrow> \<exists>evs. shift_separate k SMI_READ n t data ins
      = (shift_in k data (take n ins), evs, drop n ins) \<and>
    (\<forall>m es. edges k True m (evs @ es)
       = (if n = 0 then [] else m # replicate (n - 1) None) @ edges k True (if n = 0 then m else None) es)"
proof (induction n arbitrary: t data ins)
  case 0
  then show ?case by (simp add: bit_minus_1_iff shift_in_def)
next
  case (Suc n)
  obtain x xs where ins: "ins = x # xs" using Suc.prems by (cases ins) auto
  obtain evs where e: "shift_separate k SMI_READ n (t + 60) (push_bit 1 data OR drop_bit (mdio_bit k) x) xs
      = (shift_in k (push_bit 1 data OR drop_bit (mdio_bit k) x) (take n xs), evs, drop n xs)"
    "\<And>m es. edges k True m (evs @ es)
       = (if n = 0 then [] else m # replicate (n - 1) None) @ edges k True (if n = 0 then m else None) es"
    using Suc.IH [of xs "t + 60" "push_bit 1 data OR drop_bit (mdio_bit k) x"] Suc.prems ins by auto
  let ?E = "Mdc_out (t + 30) 0 # Mdc_out (t + 60) (- 1) # Mdio_in # evs"
  show ?case
  proof (intro exI conjI allI)
    show "shift_separate k True (Suc n) t data ins
        = (shift_in k data (take (Suc n) ins), ?E, drop (Suc n) ins)"
      using e(1) by (simp add: ins shift_in_def)
    show "edges k True m (?E @ es) = (if Suc n = 0 then [] else m # replicate (Suc n - 1) None)
        @ edges k True (if Suc n = 0 then m else None) es" for m es
      by (cases n) (simp_all add: e(2) bit_minus_1_iff)
  qed
qed

subsection \<open>Frames\<close>

text \<open>Clause 22 of IEEE 802.3: preamble, start, operation, address, register.\<close>

definition mdio_header :: "bool \<Rightarrow> nat \<Rightarrow> nat \<Rightarrow> bool list" where
  "mdio_header read phy reg =
     replicate 32 True @ [False, True] @ (if read then [True, False] else [False, True])
     @ bits_msb 5 (of_nat phy) @ bits_msb 5 (of_nat reg)"

lemma bits_msb_32: "bits_msb 32 0xffffffff = replicate 32 True"
  by code_simp

lemma bits_msb_cong: "(\<And>i. i < n \<Longrightarrow> bit v i = bit w i) \<Longrightarrow> bits_msb n v = bits_msb n w"
  by (induction n) simp_all

lemma bits_msb_append: "bits_msb (m + n) w = bits_msb m (drop_bit n w) @ bits_msb n w"
  by (induction m) (simp_all add: bit_simps add.commute)

lemma small_bits: "(x :: nat) < 2 ^ n \<Longrightarrow> n \<le> i \<Longrightarrow> \<not> bit x i"
  by (metis bit_take_bit_iff not_less take_bit_nat_eq_self)

lemma bits_msb_join:
  assumes "b < 2 ^ n" "m + n \<le> 32"
  shows "bits_msb (m + n) (push_bit n a OR of_nat b) = bits_msb m a @ bits_msb n (of_nat b)"
  unfolding bits_msb_append
  using assms small_bits [OF assms(1)] trans_le_add1 [of n n]
  by (intro arg_cong2 [where f = append] bits_msb_cong) (auto simp: bit_simps)

lemma header_bits:
  assumes "phy < 32" "reg < 32"
  shows "bits_msb 14 (push_bit 10 (if read then 6 else 5) OR push_bit 5 (of_nat phy) OR of_nat reg)
    = [False, True] @ (if read then [True, False] else [False, True])
      @ bits_msb 5 (of_nat phy) @ bits_msb 5 (of_nat reg)"
proof -
  let ?op = "if read then 6 else 5 :: word32"
  have "push_bit 10 ?op OR push_bit 5 (of_nat phy) OR of_nat reg
      = push_bit 5 (push_bit 5 ?op OR of_nat phy) OR of_nat reg"
    by (simp add: push_bit_or or.assoc)
  moreover have "bits_msb 14 (push_bit 5 (push_bit 5 ?op OR of_nat phy) OR of_nat reg)
      = bits_msb 9 (push_bit 5 ?op OR of_nat phy) @ bits_msb 5 (of_nat reg)"
    using bits_msb_join [of reg 5 9 "push_bit 5 ?op OR of_nat phy"] assms by simp
  moreover have "bits_msb 9 (push_bit 5 ?op OR of_nat phy) = bits_msb 4 ?op @ bits_msb 5 (of_nat phy)"
    using bits_msb_join [of phy 5 4 ?op] assms by simp
  moreover have "bits_msb 4 ?op = [False, True] @ (if read then [True, False] else [False, True])"
  proof -
    have "bits_msb 4 6 = [False, True, True, False]" "bits_msb 4 5 = [False, True, False, True]"
      by code_simp+
    then show ?thesis by simp
  qed
  ultimately show ?thesis by simp
qed

text \<open>The wire during an access, and the word that a read returns.\<close>

lemma smi_bit_shift_out:
  assumes "separate_ports k smi"
  shows "\<exists>evs. smi_bit_shift k smi data n SMI_WRITE t ins = (data, evs, ins) \<and>
    (\<forall>m es. edges k True m (evs @ es)
       = map Some (bits_msb n data) @ edges k True (if n = 0 then m else Some (bit data 0)) es)"
proof -
  obtain evs where "shift_separate k SMI_WRITE n t data ins = (data, evs, ins)"
    "\<forall>m es. edges k True m (evs @ es)
       = map Some (bits_msb n data) @ edges k True (if n = 0 then m else Some (bit data 0)) es"
    using shift_separate_out [of k n t data ins] assms by (auto simp: separate_ports_def)
  then show ?thesis
    using assms by (intro exI [of _ "Mdc_now (- 1) # evs"]) (auto simp: smi_bit_shift_def separate_ports_def)
qed

lemma smi_bit_shift_in:
  assumes "separate_ports k smi" "n \<le> length ins"
  shows "\<exists>evs. smi_bit_shift k smi data n SMI_READ t ins
      = (shift_in k data (take n ins), evs, drop n ins) \<and>
    (\<forall>m es. edges k True m (evs @ es)
       = (if n = 0 then [] else m # replicate (n - 1) None) @ edges k True (if n = 0 then m else None) es)"
proof -
  obtain evs where "shift_separate k SMI_READ n t data ins
      = (shift_in k data (take n ins), evs, drop n ins)"
    "\<forall>m es. edges k True m (evs @ es)
       = (if n = 0 then [] else m # replicate (n - 1) None) @ edges k True (if n = 0 then m else None) es"
    using shift_separate_in [OF assms(2), of k t data] by blast
  then show ?thesis
    using assms by (intro exI [of _ "Mdc_now (- 1) # evs"]) (auto simp: smi_bit_shift_def separate_ports_def)
qed

lemma smi_reg_write:
  assumes k: "separate_ports k smi" and phy: "phy_address smi = int phy" "phy < 32" "reg < 32"
  obtains evs where "smi_reg k smi reg val SMI_WRITE ts ins = (val, evs, ins)"
    "edges k True m evs = map Some (mdio_header False phy reg @ [True, False] @ bits_msb 16 val)"
proof -
  obtain t0 t1 t2 t3 where ts: "ts = (t0, t1, t2, t3)" by (cases ts) auto
  let ?c = "push_bit 10 5 OR push_bit 5 (of_nat phy) OR of_nat reg :: word32"
  note out = smi_bit_shift_out [OF k]
  obtain e0 where e0: "smi_bit_shift k smi 0xffffffff 32 False t0 ins = (0xffffffff, e0, ins)"
    "\<And>m es. edges k True m (e0 @ es) = map Some (bits_msb 32 0xffffffff) @ edges k True (Some True) es"
    using out [of "0xffffffff" 32 t0 ins] by (auto simp: bit_minus_1_iff)
  obtain e1 where e1: "smi_bit_shift k smi ?c 14 False t1 ins = (?c, e1, ins)"
    "\<And>m es. edges k True m (e1 @ es) = map Some (bits_msb 14 ?c) @ edges k True (Some (bit ?c 0)) es"
    using out [of ?c 14 t1 ins] by auto
  obtain e2 where e2: "smi_bit_shift k smi 2 2 False t2 ins = (2, e2, ins)"
    "\<And>m es. edges k True m (e2 @ es) = map Some (bits_msb 2 2) @ edges k True (Some (bit (2 :: word32) 0)) es"
    using out [of 2 2 t2 ins] by auto
  obtain e3 where e3: "smi_bit_shift k smi val 16 False t3 ins = (val, e3, ins)"
    "\<And>m es. edges k True m (e3 @ es) = map Some (bits_msb 16 val) @ edges k True (Some (bit val 0)) es"
    using out [of val 16 t3 ins] by auto
  have b2: "bits_msb 2 2 = [True, False]" by code_simp
  show ?thesis
  proof
    show "smi_reg k smi reg val False ts ins = (val, e0 @ e1 @ e2 @ e3, ins)"
      using e0(1) e1(1) e2(1) e3(1) phy by (simp add: smi_reg_def ts)
    show "edges k True m (e0 @ e1 @ e2 @ e3)
        = map Some (mdio_header False phy reg @ [True, False] @ bits_msb 16 val)"
      using e3(2) [of _ "[]"] header_bits [of phy reg False] phy
      by (simp add: e0(2) e1(2) e2(2) b2 bits_msb_32 mdio_header_def del: bits_msb.simps)
  qed
qed

lemma smi_reg_read:
  assumes k: "separate_ports k smi" and phy: "phy_address smi = int phy" "phy < 32" "reg < 32"
    and ins: "18 \<le> length ins"
  obtains evs where "smi_reg k smi reg val SMI_READ ts ins
      = (shift_in k val (take 16 (drop 2 ins)), evs, drop 18 ins)"
    "edges k True m evs = map Some (mdio_header True phy reg) @ Some (bit (of_nat reg :: word32) 0) # replicate 17 None"
proof -
  obtain t0 t1 t2 t3 where ts: "ts = (t0, t1, t2, t3)" by (cases ts) auto
  let ?c = "push_bit 10 6 OR push_bit 5 (of_nat phy) OR of_nat reg :: word32"
  note out = smi_bit_shift_out [OF k]
  obtain e0 where e0: "smi_bit_shift k smi 0xffffffff 32 False t0 ins = (0xffffffff, e0, ins)"
    "\<And>m es. edges k True m (e0 @ es) = map Some (bits_msb 32 0xffffffff) @ edges k True (Some True) es"
    using out [of "0xffffffff" 32 t0 ins] by (auto simp: bit_minus_1_iff)
  obtain e1 where e1: "smi_bit_shift k smi ?c 14 False t1 ins = (?c, e1, ins)"
    "\<And>m es. edges k True m (e1 @ es) = map Some (bits_msb 14 ?c) @ edges k True (Some (bit ?c 0)) es"
    using out [of ?c 14 t1 ins] by auto
  obtain e2 where e2: "smi_bit_shift k smi 2 2 True t2 ins = (shift_in k 2 (take 2 ins), e2, drop 2 ins)"
    "\<And>m es. edges k True m (e2 @ es) = [m, None] @ edges k True None es"
    using smi_bit_shift_in [OF k, of 2 ins 2 t2] ins by auto
  obtain e3 where e3: "smi_bit_shift k smi val 16 True t3 (drop 2 ins)
      = (shift_in k val (take 16 (drop 2 ins)), e3, drop 18 ins)"
    "\<And>m es. edges k True m (e3 @ es) = m # replicate 15 None @ edges k True None es"
  proof -
    have l: "16 \<le> length (drop 2 ins)" using ins by simp
    show ?thesis using smi_bit_shift_in [OF k l, of val t3] that by auto
  qed
  have c0: "bit ?c 0 = bit (of_nat reg :: word32) 0" by (simp add: bit_simps)
  show ?thesis
  proof
    show "smi_reg k smi reg val True ts ins
        = (shift_in k val (take 16 (drop 2 ins)), e0 @ e1 @ e2 @ e3, drop 18 ins)"
      using e0(1) e1(1) e2(1) e3(1) phy by (simp add: smi_reg_def ts)
    have r: "[Some b, None] @ None # replicate 15 None = Some b # replicate 17 (None :: bool option)" for b
      by (simp add: numeral_eq_Suc)
    have "edges k True m (e0 @ e1 @ e2 @ e3)
        = map Some (bits_msb 32 0xffffffff) @ map Some (bits_msb 14 ?c)
          @ [Some (bit ?c 0), None] @ None # replicate 15 None"
      using e3(2) [of None "[]"] by (simp only: e0(2) e1(2) e2(2) append_Nil2 edges.simps)
    also have "\<dots> = map Some (mdio_header True phy reg) @ Some (bit (of_nat reg :: word32) 0) # replicate 17 None"
      using header_bits [of phy reg True] phy unfolding r c0
      by (simp add: bits_msb_32 mdio_header_def del: bits_msb.simps)
    finally show "edges k True m (e0 @ e1 @ e2 @ e3)
        = map Some (mdio_header True phy reg) @ Some (bit (of_nat reg :: word32) 0) # replicate 17 None" .
  qed
qed

subsection \<open>A PHY on the bus\<close>

text \<open>
  What clause 22 asks of a PHY: it decodes the header, answers a read with a released bit, a zero
  and the register, and stores the data of a write. Nothing else on the bus drives the line,
  which is pulled up.
\<close>

definition msb_value :: "bool list \<Rightarrow> nat" where
  "msb_value bs = foldl (\<lambda>n b. 2 * n + of_bool b) 0 bs"

definition header_for :: "bool \<Rightarrow> nat \<Rightarrow> bool list \<Rightarrow> nat option" where
  "header_for read phy hdr =
     (if hdr = mdio_header read (msb_value (take 5 (drop 36 hdr))) (msb_value (take 5 (drop 41 hdr)))
         \<and> msb_value (take 5 (drop 36 hdr)) = phy
      then Some (msb_value (take 5 (drop 41 hdr))) else None)"

definition pulled_up :: "bool option \<Rightarrow> bool" where
  "pulled_up x = (x \<noteq> Some False)"

type_synonym phy_regs = "nat \<Rightarrow> 16 word"

definition phy_answer :: "nat \<Rightarrow> phy_regs \<Rightarrow> bool option list \<Rightarrow> bool list" where
  "phy_answer phy regs line =
     (case header_for True phy (map pulled_up (take 46 line)) of
        None \<Rightarrow> replicate 18 True
      | Some reg \<Rightarrow> [True, False] @ bits_msb 16 (ucast (regs reg)))"

definition phy_store :: "nat \<Rightarrow> phy_regs \<Rightarrow> bool option list \<Rightarrow> phy_regs" where
  "phy_store phy regs line =
     (case header_for False phy (map pulled_up (take 46 line)) of
        None \<Rightarrow> regs
      | Some reg \<Rightarrow> regs(reg := of_nat (msb_value (map pulled_up (take 16 (drop 48 line))))))"

text \<open>
  An access with the PHY at address \<open>phy\<close> on the wires. The header does not depend on what is
  read, so the answer is computed from a first run whose inputs are all zero. A port word carries
  the data line in bit \<open>mdio_bit\<close>.
\<close>

definition port_word :: "smi_config \<Rightarrow> bool \<Rightarrow> word32" where
  "port_word k b = push_bit (mdio_bit k) (of_bool b)"

definition bus_access ::
  "smi_config \<Rightarrow> smi_interface_t \<Rightarrow> int \<times> int \<times> int \<times> int \<Rightarrow> nat \<Rightarrow> phy_regs smi_access" where
  "bus_access k smi ts phy reg val inning regs =
     (let (_, evs, _) = smi_reg k smi reg val inning ts (replicate 18 0);
          answer = phy_answer phy regs (edges k True None evs);
          (r, evs, _) = smi_reg k smi reg val inning ts (map (port_word k) answer)
      in (r, phy_store phy regs (edges k True None evs)))"

lemma msb_value_append: "msb_value (bs @ [b]) = 2 * msb_value bs + of_bool b"
  by (simp add: msb_value_def)

lemma bits_msb_Suc_snoc: "bits_msb (Suc n) w = bits_msb n (drop_bit 1 w) @ [bit w 0]"
  using bits_msb_append [of n 1 w] by simp

lemma msb_value_bits: "msb_value (bits_msb n w) = unat w mod 2 ^ n"
proof (induction n arbitrary: w)
  case 0
  then show ?case by (simp add: msb_value_def)
next
  case (Suc n)
  have u: "unat (drop_bit 1 w) = unat w div 2" by (simp only: unat_drop_bit_eq) (simp add: drop_bit_eq_div)
  have "bit w 0 = bit (unat w) 0" by (simp add: bit_unsigned_iff)
  then have b: "of_bool (bit w 0) = unat w mod 2" by (simp only: bit_0 mod_2_eq_odd)
  show ?case
    unfolding bits_msb_Suc_snoc msb_value_append Suc u b
    using mod_mult2_eq [of "unat w" 2 "2 ^ n"] by (simp add: mult.commute)
qed

lemma header_for_header:
  assumes "phy < 32" "reg < 32"
  shows "header_for read phy (mdio_header read' phy reg) = (if read = read' then Some reg else None)"
proof -
  have v: "msb_value (bits_msb 5 (of_nat x)) = x" if "x < 32" for x
    using that unfolding msb_value_bits by (simp add: unat_of_nat take_bit_nat_eq_self)
  have "take 5 (drop 36 (mdio_header read' phy reg)) = bits_msb 5 (of_nat phy)"
    "take 5 (drop 41 (mdio_header read' phy reg)) = bits_msb 5 (of_nat reg)"
    by (simp_all add: mdio_header_def del: bits_msb.simps)
  moreover have "mdio_header read phy reg = mdio_header read' phy reg \<longleftrightarrow> read = read'"
    by (cases read; cases read') (simp_all add: mdio_header_def)
  ultimately show ?thesis using v assms by (auto simp: header_for_def)
qed

lemma shift_in_answer:
  assumes "mdio_bit k < 32"
  shows "shift_in k 0 (map (port_word k) bs) = of_nat (msb_value bs)"
proof (induction bs rule: rev_induct)
  case Nil
  then show ?case by (simp add: shift_in_def msb_value_def)
next
  case (snoc b bs)
  have d: "drop_bit (mdio_bit k) (port_word k b) = of_bool b"
    using assms by (intro bit_word_eqI) (auto simp: port_word_def bit_simps)
  have o: "push_bit 1 d OR 1 = 2 * d + 1" for d :: word32
  proof -
    have "push_bit 1 d OR 1 = push_bit 1 d + 1"
      by (rule disjunctive_add [symmetric]) (simp only: bit_push_bit_iff bit_1_iff, arith)
    then show ?thesis by (simp add: mult.commute)
  qed
  show ?case
    unfolding msb_value_append using snoc o [of "of_nat (msb_value bs)"] d
    by (cases b) (simp_all add: shift_in_def mult.commute)
qed

lemma pulled_up_Some: "map pulled_up (map Some bs) = bs"
  by (induction bs) (simp_all add: pulled_up_def)

definition phy_wired :: "smi_config \<Rightarrow> smi_interface_t \<Rightarrow> nat \<Rightarrow> bool" where
  "phy_wired k smi phy \<longleftrightarrow> separate_ports k smi \<and> phy_address smi = int phy \<and> phy < 32"

lemma length_mdio_header [simp]: "length (mdio_header read phy reg) = 46"
  by (simp add: mdio_header_def)

lemma bus_access_read:
  assumes "phy_wired k smi phy" "reg < 32"
  shows "bus_access k smi ts phy reg 0 SMI_READ regs = (ucast (regs reg), regs)"
proof -
  have k: "separate_ports k smi" and phy: "phy_address smi = int phy" "phy < 32"
    using assms by (simp_all add: phy_wired_def)
  obtain e0 where e0: "smi_reg k smi reg 0 True ts (replicate 18 0)
      = (shift_in k 0 (take 16 (drop 2 (replicate 18 0))), e0, [])"
    "edges k True None e0 = map Some (mdio_header True phy reg)
      @ Some (bit (of_nat reg :: word32) 0) # replicate 17 None"
    using smi_reg_read [OF k phy assms(2), of "replicate 18 0" 0 ts None] by auto
  have h: "header_for True phy (map pulled_up (take 46 (edges k True None e0))) = Some reg"
    using phy assms(2) by (simp add: e0(2) pulled_up_Some header_for_header del: map_map)
  let ?ans = "[True, False] @ bits_msb 16 (ucast (regs reg))"
  have ans: "phy_answer phy regs (edges k True None e0) = ?ans"
    by (simp add: phy_answer_def h)
  obtain e1 where e1: "smi_reg k smi reg 0 True ts (map (port_word k) ?ans)
      = (shift_in k 0 (take 16 (drop 2 (map (port_word k) ?ans))), e1, drop 18 (map (port_word k) ?ans))"
    "edges k True None e1 = map Some (mdio_header True phy reg)
      @ Some (bit (of_nat reg :: word32) 0) # replicate 17 None"
    using smi_reg_read [OF k phy assms(2), of "map (port_word k) ?ans" 0 ts None] by auto
  have "take 16 (drop 2 (map (port_word k) ?ans)) = map (port_word k) (bits_msb 16 (ucast (regs reg)))"
    by (simp del: bits_msb.simps)
  moreover have "(of_nat (msb_value (bits_msb 16 (ucast (regs reg)))) :: word32) = ucast (regs reg)"
  proof -
    have "unat (ucast (regs reg) :: word32) = unat (regs reg)"
      using unsigned_less [of "regs reg", where 'a = nat]
      by (simp add: unsigned_ucast_eq take_bit_nat_eq_self)
    then show ?thesis
      using unsigned_less [of "regs reg", where 'a = nat] unfolding msb_value_bits by simp
  qed
  ultimately have r: "shift_in k 0 (take 16 (drop 2 (map (port_word k) ?ans))) = ucast (regs reg)"
    using shift_in_answer [of k] k by (simp only: separate_ports_def)
  have "header_for False phy (map pulled_up (take 46 (edges k True None e1))) = None"
    using phy assms(2) by (simp add: e1(2) pulled_up_Some header_for_header del: map_map)
  then have "phy_store phy regs (edges k True None e1) = regs"
    by (simp add: phy_store_def)
  then show ?thesis
    by (simp only: bus_access_def e0(1) Let_def split_conv ans e1(1) r)
qed

lemma bus_access_write:
  assumes "phy_wired k smi phy" "reg < 32"
  shows "snd (bus_access k smi ts phy reg val SMI_WRITE regs) = regs(reg := ucast val)"
proof -
  have k: "separate_ports k smi" and phy: "phy_address smi = int phy" "phy < 32"
    using assms by (simp_all add: phy_wired_def)
  have e: "\<exists>evs. smi_reg k smi reg val False ts ins = (val, evs, ins) \<and>
      edges k True None evs = map Some (mdio_header False phy reg @ [True, False] @ bits_msb 16 val)" for ins
    using smi_reg_write [OF k phy assms(2), of val ts ins None] by metis
  have "phy_store phy regs (map Some (mdio_header False phy reg @ [True, False] @ bits_msb 16 val))
      = regs(reg := ucast val)"
  proof -
    let ?line = "map Some (mdio_header False phy reg @ [True, False] @ bits_msb 16 val)"
    have "header_for False phy (map pulled_up (take 46 ?line)) = Some reg"
      using phy assms(2) by (simp add: pulled_up_Some header_for_header del: map_map)
    moreover have "map pulled_up (take 16 (drop 48 ?line)) = bits_msb 16 val"
      by (simp add: pulled_up_Some del: map_map bits_msb.simps)
    moreover have "(of_nat (msb_value (bits_msb 16 val)) :: 16 word) = ucast val"
    proof -
      have "(of_nat (unat val mod 2 ^ 16) :: 16 word) = of_nat (unat val)"
        by (simp only: word_of_nat_eq_iff take_bit_eq_mod) simp
      then show ?thesis unfolding msb_value_bits by simp
    qed
    ultimately show ?thesis by (simp add: phy_store_def del: bits_msb.simps)
  qed
  then show ?thesis
    using e [of "replicate 18 0"] e
    by (auto simp: bus_access_def Let_def split_beta) (metis fst_conv snd_conv)
qed

subsection \<open>Registers through the bus\<close>

lemma bit_flag: "bit (flag m) n \<longleftrightarrow> n = m \<and> m < 32"
  by (auto simp: flag_def bit_simps bit_1_iff)

lemma bit_advert_mask: "bit (0xfc1f :: int) n \<longleftrightarrow> n < 5 \<or> 10 \<le> n \<and> n < 16"
proof -
  have "(0xfc1f :: int) = mask 5 OR push_bit 10 (mask 6)" by code_simp
  then show ?thesis by (simp only: bit_simps bit_mask_iff) auto
qed

text \<open>
  What the functions on registers rely on: a read returns the register and changes nothing, a
  write replaces the low 16 bits of one register.
\<close>

locale mdio_bus =
  fixes wired :: bool
    and acc :: "nat \<Rightarrow> word32 \<Rightarrow> bool \<Rightarrow> 's \<Rightarrow> word32 \<times> 's"
    and content :: "'s \<Rightarrow> nat \<Rightarrow> 16 word"
  assumes reg_read: "wired \<Longrightarrow> reg < 32 \<Longrightarrow> acc reg 0 True s = (ucast (content s reg), s)"
    and reg_write: "wired \<Longrightarrow> reg < 32 \<Longrightarrow> content (snd (acc reg v False s)) = (content s)(reg := ucast v)"
begin

lemma write_bit:
  "wired \<Longrightarrow> reg < 32 \<Longrightarrow> n < 16 \<Longrightarrow>
     bit (content (snd (acc reg v False s)) r) n = (if r = reg then bit v n else bit (content s r) n)"
  by (simp add: reg_write bit_ucast_iff)

lemma loopback_bits:
  "wired \<Longrightarrow> n < 16 \<Longrightarrow> bit (content (eth_phy_loopback acc enable s) r) n =
     (if r = 0 \<and> n = 14 then enable else if r = 0 \<and> n = 12 then \<not> enable
      else bit (content s r) n)"
  by (auto simp: eth_phy_loopback_def reg_read write_bit split_beta Let_def bit_flag bit_and_iff bit_or_iff
      bit_not_iff bit_ucast_iff)

lemma noauto_bits:
  "wired \<Longrightarrow> n < 16 \<Longrightarrow> bit (content (eth_phy_config_noauto acc eth100 s) r) n =
     (if r = 0 \<and> n = 8 then True else if r = 0 \<and> n = 12 then False
      else if r = 0 \<and> n = 13 then eth100 else bit (content s r) n)"
  by (auto simp: eth_phy_config_noauto_def reg_read write_bit split_beta Let_def bit_flag bit_and_iff bit_or_iff
      bit_not_iff bit_ucast_iff)

lemma config_bits:
  "wired \<Longrightarrow> n < 16 \<Longrightarrow> bit (content (eth_phy_config acc eth100 s) r) n =
     (if r = 4 \<and> 5 \<le> n \<and> n \<le> 9 then n = (if eth100 then 8 else 6)
      else if r = 0 \<and> (n = 12 \<or> n = 9) then True else bit (content s r) n)"
  by (auto simp: eth_phy_config_def reg_read write_bit split_beta Let_def bit_flag bit_advert_mask bit_and_iff
      bit_or_iff bit_not_iff bit_ucast_iff)

lemma link_state: "wired \<Longrightarrow>
    smi_check_link_state acc s = (of_bool (bit (content s 1) 2), s)"
proof -
  have "drop_bit 2 w AND 1 = of_bool (bit w 2)" for w :: word32
    by (rule bit_word_eqI) (auto simp: bit_simps bit_1_iff numeral_2_eq_2)
  then show "wired \<Longrightarrow> smi_check_link_state acc s = (of_bool (bit (content s 1) 2), s)"
    by (simp add: smi_check_link_state_def reg_read split_beta bit_ucast_iff)
qed

lemma phy_id: "wired \<Longrightarrow> eth_phy_id acc s
    = (push_bit 16 (drop_bit 10 (ucast (content s 3))) OR ucast (content s 2), s)"
  by (simp add: eth_phy_id_def reg_read split_beta)

end

interpretation mdio: mdio_bus "phy_wired k smi phy" "bus_access k smi ts phy" "\<lambda>regs. regs"
  for k smi phy ts
  by unfold_locales (simp_all add: bus_access_read bus_access_write)

subsection \<open>Properties\<close>

lemma smi_reg_frame_parts:
  assumes "phy_wired k smi phy" "reg < 32" "length answer = 18"
  shows "edges k True None (fst (snd (smi_reg k smi reg val SMI_WRITE ts ins)))
      = map Some (mdio_header False phy reg @ [True, False] @ bits_msb 16 val)"
    "take 46 (edges k True None (fst (snd (smi_reg k smi reg 0 SMI_READ ts (map (port_word k) answer)))))
      = map Some (mdio_header True phy reg)"
    "drop 47 (edges k True None (fst (snd (smi_reg k smi reg 0 SMI_READ ts (map (port_word k) answer)))))
      = replicate 17 None"
    "fst (smi_reg k smi reg 0 SMI_READ ts (map (port_word k) answer)) = of_nat (msb_value (drop 2 answer))"
proof -
  have k: "separate_ports k smi" and phy: "phy_address smi = int phy" "phy < 32"
    using assms by (simp_all add: phy_wired_def)
  obtain evs where "smi_reg k smi reg val False ts ins = (val, evs, ins)"
    "edges k True None evs = map Some (mdio_header False phy reg @ [True, False] @ bits_msb 16 val)"
    using smi_reg_write [OF k phy assms(2)] by metis
  then show "edges k True None (fst (snd (smi_reg k smi reg val SMI_WRITE ts ins)))
      = map Some (mdio_header False phy reg @ [True, False] @ bits_msb 16 val)"
    by simp
  obtain e where e: "smi_reg k smi reg 0 True ts (map (port_word k) answer)
      = (shift_in k 0 (take 16 (drop 2 (map (port_word k) answer))), e, drop 18 (map (port_word k) answer))"
    "edges k True None e = map Some (mdio_header True phy reg)
      @ Some (bit (of_nat reg :: word32) 0) # replicate 17 None"
    using smi_reg_read [OF k phy assms(2), of "map (port_word k) answer" 0 ts None] assms(3) by auto
  show "take 46 (edges k True None (fst (snd (smi_reg k smi reg 0 SMI_READ ts (map (port_word k) answer)))))
      = map Some (mdio_header True phy reg)"
    "drop 47 (edges k True None (fst (snd (smi_reg k smi reg 0 SMI_READ ts (map (port_word k) answer)))))
      = replicate 17 None"
    by (simp_all add: e)
  have "take 16 (drop 2 (map (port_word k) answer)) = map (port_word k) (drop 2 answer)"
    using assms(3) by (simp add: drop_map)
  then show "fst (smi_reg k smi reg 0 SMI_READ ts (map (port_word k) answer))
      = of_nat (msb_value (drop 2 answer))"
    using shift_in_answer [of k] k by (simp add: e separate_ports_def)
qed

text \<open>C34: With separate ports, \<open>smi_reg\<close> puts the management frame of IEEE 802.3 clause 22 on the
wire: at the rising clock edges a write drives the preamble of 32 ones, the start and operation
codes, the PHY and register addresses, the turnaround and the 16 data bits, and a read drives
the same header, then releases the line and returns the 16 sampled bits after the turnaround,
most significant first.\<close>

theorem smi_reg_frame:
  assumes "phy_wired k smi phy" "reg < 32" "length answer = 18"
  shows "edges k True None (fst (snd (smi_reg k smi reg val SMI_WRITE ts ins)))
      = map Some (mdio_header False phy reg @ [True, False] @ bits_msb 16 val) \<and>
    take 46 (edges k True None (fst (snd (smi_reg k smi reg 0 SMI_READ ts (map (port_word k) answer)))))
      = map Some (mdio_header True phy reg) \<and>
    drop 47 (edges k True None (fst (snd (smi_reg k smi reg 0 SMI_READ ts (map (port_word k) answer)))))
      = replicate 17 None \<and>
    fst (smi_reg k smi reg 0 SMI_READ ts (map (port_word k) answer)) = of_nat (msb_value (drop 2 answer))"
  by (intro conjI smi_reg_frame_parts [OF assms])

definition default_smi :: smi_config where
  "default_smi = smi_configuration False None None None None False"

lemma default_smi_wired: "phy < 32 \<Longrightarrow> phy_wired default_smi \<lparr>phy_address = int phy\<rparr> phy"
  by (simp add: phy_wired_def separate_ports_def default_smi_def smi_configuration_def Let_def)

theorem smi_reg_frame_witness:
  "fst (smi_reg default_smi \<lparr>phy_address = 31\<rparr> 1 0 SMI_READ (0, 0, 0, 0)
     (map (port_word default_smi) (True # False # replicate 15 False @ [True]))) = 1"
  using smi_reg_frame [OF default_smi_wired [of 31], of 1 "True # False # replicate 15 False @ [True]"
      0 "(0, 0, 0, 0)" "[]"]
  by (simp add: msb_value_def replicate_eqI numeral_eq_Suc)

lemma phy_register_bits_parts:
  assumes w: "phy_wired k smi phy" and n: "n < 16"
    and acc: "acc = bus_access k smi ts phy"
  shows "bit (eth_phy_config acc eth100 regs r) n =
      (if r = 4 \<and> 5 \<le> n \<and> n \<le> 9 then n = (if eth100 then 8 else 6)
       else if r = 0 \<and> (n = 12 \<or> n = 9) then True else bit (regs r) n)"
    "bit (eth_phy_config_noauto acc eth100 regs r) n =
      (if r = 0 \<and> n = 8 then True else if r = 0 \<and> n = 12 then False
       else if r = 0 \<and> n = 13 then eth100 else bit (regs r) n)"
    "bit (eth_phy_loopback acc enable regs r) n =
      (if r = 0 \<and> n = 14 then enable else if r = 0 \<and> n = 12 then \<not> enable else bit (regs r) n)"
    "smi_check_link_state acc regs = (of_bool (bit (regs 1) 2), regs)"
  unfolding acc
  using mdio.config_bits [OF w n] mdio.noauto_bits [OF w n] mdio.loopback_bits [OF w n]
    mdio.link_state [OF w] by simp_all

text \<open>C35: The configuration functions change exactly the register bits they should, on a PHY that
follows clause 22, through the frames on the wire. \<open>eth_phy_config\<close> advertises only 100BASE-TX
or only 10BASE-T full duplex and enables and restarts auto-negotiation; \<open>eth_phy_config_noauto\<close>
selects full duplex, no auto-negotiation and the speed; \<open>eth_phy_loopback\<close> turns loopback on and
auto-negotiation off or the reverse. Every other bit of every register is unchanged.
\<open>smi_check_link_state\<close> returns bit 2 of the status register.\<close>

theorem phy_register_bits:
  assumes "phy_wired k smi phy" "n < 16" "acc = bus_access k smi ts phy"
  shows "bit (eth_phy_config acc eth100 regs r) n =
      (if r = 4 \<and> 5 \<le> n \<and> n \<le> 9 then n = (if eth100 then 8 else 6)
       else if r = 0 \<and> (n = 12 \<or> n = 9) then True else bit (regs r) n) \<and>
    bit (eth_phy_config_noauto acc eth100 regs r) n =
      (if r = 0 \<and> n = 8 then True else if r = 0 \<and> n = 12 then False
       else if r = 0 \<and> n = 13 then eth100 else bit (regs r) n) \<and>
    bit (eth_phy_loopback acc enable regs r) n =
      (if r = 0 \<and> n = 14 then enable else if r = 0 \<and> n = 12 then \<not> enable else bit (regs r) n) \<and>
    smi_check_link_state acc regs = (of_bool (bit (regs 1) 2), regs)"
  by (intro conjI phy_register_bits_parts [OF assms])

theorem phy_register_bits_witness:
  "\<not> bit (eth_phy_loopback (bus_access default_smi \<lparr>phy_address = int 0\<rparr> (0, 0, 0, 0) 0) True (\<lambda>_. 0x3100) 0) 12"
  using phy_register_bits [OF default_smi_wired [of 0] _ refl, of 12 "(0, 0, 0, 0)" True "\<lambda>_. 0x3100" 0]
  by simp

text \<open>
  \<open>smi.h\<close> calls the result of \<open>eth_phy_id\<close> the 32-bit identifier. It is the organisation's
  identifier only: the model and revision in the low ten bits of the second register do not
  reach it.
\<close>

lemma eth_phy_id_ignores_model:
  assumes "phy_wired k smi phy" "regs' 2 = regs 2" "\<And>n. 10 \<le> n \<Longrightarrow> bit (regs' 3) n = bit (regs 3) n"
  shows "fst (eth_phy_id (bus_access k smi ts phy) regs') = fst (eth_phy_id (bus_access k smi ts phy) regs)"
proof -
  have "drop_bit 10 (ucast (regs' 3)) = (drop_bit 10 (ucast (regs 3)) :: word32)"
    by (rule bit_word_eqI) (simp add: bit_simps assms(3))
  then show ?thesis using mdio.phy_id [OF assms(1)] assms(2) by simp
qed

lemma eth_phy_id_same_for_two_models:
  "fst (eth_phy_id (bus_access default_smi \<lparr>phy_address = int 0\<rparr> (0, 0, 0, 0) 0) ((\<lambda>_. 0)(3 := 1)))
     = fst (eth_phy_id (bus_access default_smi \<lparr>phy_address = int 0\<rparr> (0, 0, 0, 0) 0) (\<lambda>_. 0))"
  by (rule eth_phy_id_ignores_model [OF default_smi_wired]) (auto simp: bit_1_iff)

end
