(* ===== verification/Rx_Server.thy ===== *)
theory Rx_Server
  imports Packet_Data Mii_Queue Ethernet_Filter Link_Status
begin

text \<open>
  The receive server \<open>ethernet_rx_server.xc\<close>: it gives each filtered packet to the clients whose
  mask selects it, keeps the packet until the last of them has taken it, and answers their
  commands. One turn of its loop is either a command of a client or, when there is none, a look
  at the pools and at the link status. What the server sends on a channel is a list of tokens.
\<close>

subsection \<open>Channels\<close>

text \<open>
  \<open>Ct_end\<close>: the control token \<open>XS1_CT_END\<close>. \<open>Out_word\<close> and \<open>Out_char\<close>: a word and a
  byte outside a transaction. \<open>Slave\<close>: a transaction in which the server sends the items.
\<close>

datatype chan_item = Word_item word32 | Char_item byte

datatype chan_out = Ct_end | Out_word word32 | Slave "chan_item list"

type_synonym outputs = "(nat \<times> chan_out) list"

subsection \<open>State\<close>

record link_layer_status_t =
  dropped_pkt_cnt :: word32
  notified :: bool
  max_queue_size :: int
  cl_rdIndex :: nat
  cl_wrIndex :: nat
  cl_fifo :: "addr list"
  wants_status_updates :: int

record rx_server =
  custom_filter_mask :: "word32 list"
  link_status :: "link_layer_status_t list"
  rdptr_hp :: "addr list"
  rdptr_lp :: "addr list"

text \<open>What a turn reads from its surroundings: the timer, the tile and the counters.\<close>

record rx_env =
  env_timer_offset_req :: bool
  env_tile_id :: word32
  env_now :: word32
  env_mii_dropped :: word32
  env_filter_counts :: filter_counts

definition STATUS_PACKET_LEN :: word32 where
  "STATUS_PACKET_LEN = - 1"

definition ETHERNET_RX_PHY_TIMER_OFFSET :: word32 where
  "ETHERNET_RX_PHY_TIMER_OFFSET = - 48"

definition update_client :: "nat \<Rightarrow> (link_layer_status_t \<Rightarrow> link_layer_status_t) \<Rightarrow> rx_server \<Rightarrow> rx_server" where
  "update_client i f v = v\<lparr>link_status := (link_status v)[i := f (link_status v ! i)]\<rparr>"

definition init_client :: "mac_config \<Rightarrow> link_layer_status_t \<Rightarrow> link_layer_status_t" where
  "init_client c l =
     l\<lparr>dropped_pkt_cnt := 0, max_queue_size := int (num_mii_rx_buf c), cl_rdIndex := 0,
       cl_wrIndex := 0, notified := False, wants_status_updates := 0\<rparr>"

definition rx_server_init ::
  "mac_config \<Rightarrow> ram \<Rightarrow> addr list \<Rightarrow> addr list \<Rightarrow> nat \<Rightarrow> rx_server \<Rightarrow> rx_server" where
  "rx_server_init c s rxmem_hp rxmem_lp num_link v =
     fold (\<lambda>i v. (update_client i (init_client c) v)
                   \<lparr>custom_filter_mask := (custom_filter_mask v)[i := 0]\<rparr>) [0..<num_link]
       (v\<lparr>rdptr_hp := (if rx_hp_queue c
                       then map (\<lambda>p. mii_init_my_rdptr s (rxmem_hp ! p)) [0..<num_master_ports c]
                       else rdptr_hp v),
          rdptr_lp := map (\<lambda>p. mii_init_my_rdptr s (rxmem_lp ! p)) [0..<num_ports c]\<rparr>)"

subsection \<open>Commands of the clients\<close>

definition is_frame_req :: "ethernet_protocol_t \<Rightarrow> bool" where
  "is_frame_req cmd \<longleftrightarrow> cmd = ETHERNET_RX_FRAME_REQ \<or> cmd = ETHERNET_RX_TYPE_PAYLOAD_REQ \<or>
     cmd = ETHERNET_RX_FRAME_REQ_OFFSET2"

text \<open>
  The select handler. The two words of a request are its kind and its command; \<open>arg\<close> is the word
  that follows a setting.
\<close>

definition service_link_cmd ::
  "mac_config \<Rightarrow> rx_env \<Rightarrow> nat \<Rightarrow> bool \<Rightarrow> ethernet_protocol_t \<Rightarrow> word32 \<Rightarrow> rx_server \<Rightarrow>
     rx_server \<times> chan_out list" where
  "service_link_cmd c env i is_cmd cmd arg v =
     (let noted = notified (link_status v ! i);
          ack = (if \<not> noted \<or> \<not> is_cmd then [Ct_end] else []);
          renotify = (noted \<and> \<not> is_frame_req cmd);
          (v, reply) =
            (case cmd of
               ETHERNET_RX_CUSTOM_FILTER_SET \<Rightarrow>
                 (v\<lparr>custom_filter_mask := (custom_filter_mask v)[i := arg]\<rparr>, [])
             | ETHERNET_RX_OVERFLOW_CNT_REQ \<Rightarrow>
                 (v, if count_packets c then [Out_word (dropped_pkt_cnt (link_status v ! i))] else [])
             | ETHERNET_RX_OVERFLOW_MII_CNT_REQ \<Rightarrow>
                 (v, if count_packets c then
                       let (address, filter, bad_length, bad_crc) =
                             ethernet_get_filter_counts (env_filter_counts env)
                       in map Out_word [env_mii_dropped env, bad_length, address, filter, bad_crc]
                     else [])
             | ETHERNET_RX_DROP_PACKETS_SET \<Rightarrow>
                 (update_client i (\<lambda>l. l\<lparr>max_queue_size :=
                    (if arg \<noteq> 0 then 1 else int (num_mii_rx_buf c))\<rparr>) v, [])
             | ETHERNET_RX_QUEUE_SIZE_SET \<Rightarrow>
                 (update_client i (\<lambda>l. l\<lparr>max_queue_size := sint arg\<rparr>) v, [])
             | ETHERNET_RX_WANTS_STATUS_UPDATES_SET \<Rightarrow>
                 (update_client i (\<lambda>l. l\<lparr>wants_status_updates := sint arg\<rparr>) v, [])
             | ETHERNET_RX_TILE_TIMER_OFFSET_REQ \<Rightarrow>
                 (v, if env_timer_offset_req env
                     then [Out_word (env_tile_id env), Out_word (env_now env)] else [])
             | _ \<Rightarrow> (v, []))
      in (v, ack @ [Ct_end] @ reply @ (if renotify then [Ct_end] else [])))"

subsection \<open>Sending a packet to a client\<close>

text \<open>
  The number of words sent: \<open>i\<close> starts at 3 for a payload request, 0 otherwise, and runs while
  it is less than \<open>(length + 3) >> 2\<close>. The data pointer starts at the first word in any case.
\<close>

definition first_word :: "ethernet_protocol_t \<Rightarrow> nat" where
  "first_word cmd =
     (if cmd = ETHERNET_RX_FRAME_REQ \<or> cmd = ETHERNET_RX_FRAME_REQ_OFFSET2 then 0 else 3)"

definition word_count :: "word32 \<Rightarrow> nat" where
  "word_count len = nat ((sint len + 3) div 4)"

definition mac_rx_send_frame1 :: "ram \<Rightarrow> addr \<Rightarrow> ethernet_protocol_t \<Rightarrow> chan_out" where
  "mac_rx_send_frame1 s p cmd =
     (let dptr = mii_packet_get_data_ptr p;
          wrap_ptr = mii_packet_get_wrap_ptr s p;
          i = first_word cmd;
          len = mii_packet_get_length s p;
          head = [Word_item (mii_packet_get_src_port s p), Word_item (len - 4 * of_nat i),
                  Word_item (mii_packet_get_user_data s p)];
          ws = load_words s wrap_ptr dptr (word_count len - i);
          time = Word_item (mii_packet_get_timestamp s p + ETHERNET_RX_PHY_TIMER_OFFSET)
      in if cmd = ETHERNET_RX_FRAME_REQ_OFFSET2
         then Slave (head @ [Char_item 0, Char_item 0] @ map (Word_item \<circ> byterev) ws
                       @ [Char_item 0, Char_item 0, time])
         else Slave (head @ map Word_item ws @ [time]))"

definition send_status_packet :: "word32 \<Rightarrow> word32 \<Rightarrow> chan_out" where
  "send_status_packet src_port status =
     Slave [Word_item src_port, Word_item STATUS_PACKET_LEN, Word_item 0, Word_item status]"

text \<open>A data request: a pending status comes first, then the oldest packet of the client.\<close>

definition serve_frame_req ::
  "mac_config \<Rightarrow> link_status_t \<Rightarrow> nat \<Rightarrow> ethernet_protocol_t \<Rightarrow> rx_server \<Rightarrow> ram \<Rightarrow>
     (rx_server \<times> ram \<times> chan_out list) option" where
  "serve_frame_req c links i cmd v s =
     (let l = link_status v ! i; rd = cl_rdIndex l; wr = cl_wrIndex l
      in if wants_status_updates l = 2 then
           let status = send_status_packet 0 (word_of_int (ethernet_get_link_status 0 links));
               v = update_client i (\<lambda>l. l\<lparr>wants_status_updates := 1\<rparr>) v
           in if rd \<noteq> wr then Some (v, s, [status, Ct_end])
              else Some (update_client i (\<lambda>l. l\<lparr>notified := False\<rparr>) v, s, [status])
         else if rd \<noteq> wr then
           let buf = cl_fifo l ! rd;
               new_rd = ring_next (num_mii_rx_buf c) rd;
               frame = mac_rx_send_frame1 s buf cmd;
               (remaining, s) = get_and_dec_transmit_count s buf
           in (case (if remaining = 0 then mii_free s buf else Some s) of
                 None \<Rightarrow> None
               | Some s \<Rightarrow>
                   let v = update_client i (\<lambda>l. l\<lparr>cl_rdIndex := new_rd\<rparr>) v
                   in if new_rd \<noteq> wr then Some (v, s, [frame, Ct_end])
                      else Some (update_client i (\<lambda>l. l\<lparr>notified := False\<rparr>) v, s, [frame]))
         else Some (v, s, []))"

text \<open>The client case of the loop.\<close>

definition rx_command ::
  "mac_config \<Rightarrow> rx_env \<Rightarrow> link_status_t \<Rightarrow> nat \<Rightarrow> bool \<Rightarrow> ethernet_protocol_t \<Rightarrow> word32 \<Rightarrow>
     rx_server \<Rightarrow> ram \<Rightarrow> (rx_server \<times> ram \<times> outputs) option" where
  "rx_command c env links i is_cmd cmd arg v s =
     (let (v, outs) = service_link_cmd c env i is_cmd cmd arg v
      in if is_frame_req cmd then
           (case serve_frame_req c links i cmd v s of
              None \<Rightarrow> None
            | Some (v, s, reply) \<Rightarrow> Some (v, s, map (Pair i) (outs @ reply)))
         else Some (v, s, map (Pair i) outs))"

subsection \<open>Distributing a packet\<close>

text \<open>One client of the loop in \<open>process_received_frame\<close>.\<close>

definition offer_packet ::
  "mac_config \<Rightarrow> word32 \<Rightarrow> addr \<Rightarrow> nat \<Rightarrow> rx_server \<times> nat \<times> outputs \<Rightarrow> rx_server \<times> nat \<times> outputs"
  where
  "offer_packet c result buf i = (\<lambda>(v, tcount, outs).
     (if custom_filter_mask v ! i AND result \<noteq> 0 then
        let l = link_status v ! i;
            new_wr = ring_next (num_mii_rx_buf c) (cl_wrIndex l);
            queue_size = int (cl_wrIndex l) - int (cl_rdIndex l);
            queue_size = (if queue_size < 0 then queue_size + int (num_mii_rx_buf c) else queue_size)
        in if queue_size < max_queue_size l \<and> new_wr \<noteq> cl_rdIndex l then
             (update_client i (\<lambda>l. l\<lparr>cl_fifo := (cl_fifo l)[cl_wrIndex l := buf],
                                     cl_wrIndex := new_wr, notified := True\<rparr>) v,
              tcount + 1, outs @ (if notified l then [] else [(i, Ct_end)]))
           else
             (update_client i (\<lambda>l. l\<lparr>dropped_pkt_cnt := dropped_pkt_cnt l + 1\<rparr>) v, tcount, outs)
      else (v, tcount, outs)))"

definition process_received_frame ::
  "mac_config \<Rightarrow> addr \<Rightarrow> nat \<Rightarrow> rx_server \<Rightarrow> ram \<Rightarrow> (rx_server \<times> ram \<times> outputs) option" where
  "process_received_frame c buf n v s =
     (let result = mii_packet_get_filter_result s buf;
          (v, tcount, outs) =
            (if result \<noteq> 0 then fold (offer_packet c result buf) [0..<n] (v, 0, []) else (v, 0, []));
          forward = (result \<noteq> 0 \<and> port_forwarding c \<and> result AND MII_FILTER_FORWARD_TO_OTHER_PORTS \<noteq> 0);
          tcount = (if forward then tcount + 1 else tcount);
          s = (if forward then mii_packet_set_forwarding s buf 0xFFFFFFFF else s)
      in if tcount = 0
         then map_option (\<lambda>s. (v, s, outs)) (mii_free s buf)
         else Some (v, mii_packet_set_tcount s buf (of_nat tcount - 1), outs))"

text \<open>
  The scan of one group of pools, with the \<open>break\<close> after the first packet found; the flag selects
  the high priority pools.
\<close>

fun poll_pools ::
  "mac_config \<Rightarrow> nat \<Rightarrow> bool \<Rightarrow> addr list \<Rightarrow> nat list \<Rightarrow> rx_server \<Rightarrow> ram \<Rightarrow>
     (rx_server \<times> ram \<times> outputs) option" where
  "poll_pools c n hp rxmem [] v s = Some (v, s, [])"
| "poll_pools c n hp rxmem (p # ps) v s =
     (let rd = (if hp then rdptr_hp v ! p else rdptr_lp v ! p);
          buf = mii_get_my_next_buf s (rxmem ! p) rd
      in if buf \<noteq> 0 \<and> mii_packet_get_stage s buf = 1 then
           let rd = mii_update_my_rdptr s (rxmem ! p) rd;
               v = (if hp then v\<lparr>rdptr_hp := (rdptr_hp v)[p := rd]\<rparr>
                    else v\<lparr>rdptr_lp := (rdptr_lp v)[p := rd]\<rparr>)
           in process_received_frame c buf n v s
         else poll_pools c n hp rxmem ps v s)"

text \<open>Link status: every client that asked for updates has one pending and is notified.\<close>

definition status_to_client :: "nat \<Rightarrow> rx_server \<times> outputs \<Rightarrow> rx_server \<times> outputs" where
  "status_to_client i = (\<lambda>(v, outs).
     (if wants_status_updates (link_status v ! i) \<noteq> 0 then
        (update_client i (\<lambda>l. l\<lparr>wants_status_updates := 2\<rparr>) v,
         outs @ (if notified (link_status v ! i) then [] else [(i, Ct_end)]))
      else (v, outs)))"

definition status_of_port ::
  "nat \<Rightarrow> nat \<Rightarrow> rx_server \<times> link_status_t \<times> outputs \<Rightarrow> rx_server \<times> link_status_t \<times> outputs" where
  "status_of_port n p = (\<lambda>(v, links, outs).
     (let (changed, links) = ethernet_link_status_notification p links
      in if changed \<noteq> 0 then
           let (v, outs) = fold status_to_client [0..<n] (v, outs) in (v, links, outs)
         else (v, links, outs)))"

text \<open>The default case of the loop.\<close>

definition rx_poll ::
  "mac_config \<Rightarrow> addr list \<Rightarrow> addr list \<Rightarrow> nat \<Rightarrow> rx_server \<Rightarrow> ram \<Rightarrow> link_status_t \<Rightarrow>
     (rx_server \<times> ram \<times> link_status_t \<times> outputs) option" where
  "rx_poll c rxmem_hp rxmem_lp n v s links =
     (case (if rx_hp_queue c then poll_pools c n True rxmem_hp [0..<num_master_ports c] v s
            else Some (v, s, [])) of
        None \<Rightarrow> None
      | Some (v, s, o1) \<Rightarrow>
          (case poll_pools c n False rxmem_lp [0..<num_ports c] v s of
             None \<Rightarrow> None
           | Some (v, s, o2) \<Rightarrow>
               let (v, links, o3) = fold (status_of_port n) [0..<num_master_ports c] (v, links, [])
               in Some (v, s, links, o1 @ o2 @ o3)))"

end
