(* ===== verification/Rx_Client.thy ===== *)
theory Rx_Client
  imports Rx_Server
begin

text \<open>
  The receiving end of the server's transactions, \<open>ethernet_unified_get_data\<close> and the functions
  that call it (\<open>ethernet_rx_client.xc\<close>). A channel carries bytes, a word most significant byte
  first, so the two ends can use words and bytes differently, as they do for the offset variant.

  The caller's array \<open>Buf\<close> is the memory from its first byte on: the function is not given the
  array's size and is compiled with \<open>#pragma unsafe arrays\<close>, so a store behind the end of the array
  is made, in whatever lies there.
\<close>

type_synonym memory_at = "nat \<Rightarrow> byte"

fun item_bytes :: "chan_item \<Rightarrow> byte list" where
  "item_bytes (Word_item w) = rev (bytes_of_word w)"
| "item_bytes (Char_item b) = [b]"

fun transaction_bytes :: "chan_out \<Rightarrow> byte list" where
  "transaction_bytes (Slave items) = concat (map item_bytes items)"
| "transaction_bytes _ = []"

definition input_word :: "byte list \<Rightarrow> word32 \<times> byte list" where
  "input_word bs = (word_of_bytes (bs ! 3) (bs ! 2) (bs ! 1) (bs ! 0), drop 4 bs)"

subsection \<open>The client's loop\<close>

text \<open>
  One word: its four bytes go to \<open>Buf\<close> while the position is below the byte count and below the
  caller's limit \<open>n\<close>, which is compared as an unsigned number.
\<close>

definition put_word :: "nat \<Rightarrow> nat \<Rightarrow> word32 \<Rightarrow> memory_at \<times> nat \<Rightarrow> memory_at \<times> nat" where
  "put_word rxByteCnt n rxData =
     fold (\<lambda>k (Buf, j). (if j < rxByteCnt \<and> j < n then Buf(j := word_byte rxData k) else Buf, j + 1))
       [0..<4]"

fun get_words ::
  "bool \<Rightarrow> nat \<Rightarrow> nat \<Rightarrow> nat \<Rightarrow> memory_at \<times> nat \<Rightarrow> byte list \<Rightarrow> memory_at \<times> byte list" where
  "get_words offset2 rxByteCnt n 0 (Buf, j) bs = (Buf, bs)"
| "get_words offset2 rxByteCnt n (Suc t) (Buf, j) bs =
     (let (rxData, bs) = input_word bs;
          rxData = (if offset2 then byterev rxData else rxData)
      in get_words offset2 rxByteCnt n t (put_word rxByteCnt n rxData (Buf, j)) bs)"

record rx_result =
  rx_buffer :: memory_at
  rx_rxTime :: word32
  rx_src_port :: word32
  rx_user_data :: word32
  rx_byte_count :: word32
  rx_rest :: "byte list"

definition ethernet_unified_get_data ::
  "ethernet_protocol_t \<Rightarrow> word32 \<Rightarrow> memory_at \<Rightarrow> word32 \<Rightarrow> byte list \<Rightarrow> rx_result" where
  "ethernet_unified_get_data Cmd n Buf rxTime bs =
     (let (src_port, bs) = input_word bs;
          (rxByteCnt, bs) = input_word bs;
          (user_data, bs) = input_word bs
      in if rxByteCnt = STATUS_PACKET_LEN then
           let (status, bs) = input_word bs
           in \<lparr>rx_buffer = Buf(0 := ucast status), rx_rxTime = rxTime, rx_src_port = src_port,
               rx_user_data = user_data, rx_byte_count = rxByteCnt, rx_rest = bs\<rparr>
         else
           let offset2 = (Cmd = ETHERNET_RX_FRAME_REQ_OFFSET2);
               rxByteCnt = (if offset2 then rxByteCnt + 4 else rxByteCnt);
               transferCnt = unat (drop_bit 2 (rxByteCnt + 3));
               (Buf, bs) = get_words offset2 (unat rxByteCnt) (unat n) transferCnt (Buf, 0) bs;
               (rxTime, bs) = input_word bs
           in \<lparr>rx_buffer = Buf, rx_rxTime = rxTime, rx_src_port = src_port,
               rx_user_data = user_data, rx_byte_count = rxByteCnt, rx_rest = bs\<rparr>)"

text \<open>The functions of the interface; \<open>-1\<close> is no limit.\<close>

definition mac_rx_full :: "memory_at \<Rightarrow> byte list \<Rightarrow> memory_at \<times> word32 \<times> word32" where
  "mac_rx_full Buf bs =
     (let r = ethernet_unified_get_data ETHERNET_RX_FRAME_REQ (- 1) Buf 0 bs
      in (rx_buffer r, rx_byte_count r, rx_src_port r))"

definition mac_rx_offset2 :: "memory_at \<Rightarrow> byte list \<Rightarrow> memory_at \<times> word32 \<times> word32 \<times> word32" where
  "mac_rx_offset2 Buf bs =
     (let r = ethernet_unified_get_data ETHERNET_RX_FRAME_REQ_OFFSET2 (- 1) Buf 0 bs
      in (rx_buffer r, rx_byte_count r, rx_user_data r, rx_src_port r))"

definition safe_mac_rx_full :: "word32 \<Rightarrow> memory_at \<Rightarrow> byte list \<Rightarrow> memory_at \<times> word32 \<times> word32" where
  "safe_mac_rx_full n Buf bs =
     (let r = ethernet_unified_get_data ETHERNET_RX_FRAME_REQ n Buf 0 bs
      in (rx_buffer r, rx_byte_count r, rx_src_port r))"

definition mac_rx_timed :: "memory_at \<Rightarrow> word32 \<Rightarrow> byte list \<Rightarrow> memory_at \<times> word32 \<times> word32 \<times> word32" where
  "mac_rx_timed Buf rxTime bs =
     (let r = ethernet_unified_get_data ETHERNET_RX_FRAME_REQ (- 1) Buf rxTime bs
      in (rx_buffer r, rx_byte_count r, rx_rxTime r, rx_src_port r))"

definition safe_mac_rx_timed ::
  "word32 \<Rightarrow> memory_at \<Rightarrow> word32 \<Rightarrow> byte list \<Rightarrow> memory_at \<times> word32 \<times> word32 \<times> word32" where
  "safe_mac_rx_timed n Buf rxTime bs =
     (let r = ethernet_unified_get_data ETHERNET_RX_FRAME_REQ n Buf rxTime bs
      in (rx_buffer r, rx_byte_count r, rx_rxTime r, rx_src_port r))"

subsection \<open>What the loop stores\<close>

lemma bytes_of_word_4: "bytes_of_word w = [word_byte w 0, word_byte w 1, word_byte w 2, word_byte w 3]"
  by (simp add: bytes_of_word_def)

lemma input_word_item [simp]: "input_word (rev (bytes_of_word w) @ bs) = (w, bs)"
  by (simp add: input_word_def bytes_of_word_4 numeral_3_eq_3 numeral_2_eq_2)
    (simp flip: numeral_3_eq_3 numeral_2_eq_2)

lemma bytes_of_word_byterev: "bytes_of_word (byterev w) = rev (bytes_of_word w)"
  by (simp add: bytes_of_word_4)

definition put_bytes :: "nat \<Rightarrow> byte list \<Rightarrow> memory_at \<times> nat \<Rightarrow> memory_at \<times> nat" where
  "put_bytes lim = fold (\<lambda>b (Buf, j). (if j < lim then Buf(j := b) else Buf, j + 1))"

lemma put_word_bytes: "put_word cnt n w = put_bytes (min cnt n) (bytes_of_word w)"
  by (simp add: put_word_def put_bytes_def bytes_of_word_4 fun_eq_iff numeral_eq_Suc upt_rec)

lemma put_bytes_append: "put_bytes lim (xs @ ys) x = put_bytes lim ys (put_bytes lim xs x)"
  by (simp add: put_bytes_def)

lemma put_bytes_nth:
  "snd (put_bytes lim bs (Buf, j)) = j + length bs \<and>
   fst (put_bytes lim bs (Buf, j)) k
      = (if j \<le> k \<and> k < j + length bs \<and> k < lim then bs ! (k - j) else Buf k)"
proof (induction bs arbitrary: Buf j)
  case Nil
  then show ?case by (auto simp: put_bytes_def)
next
  case (Cons b bs)
  let ?B = "if j < lim then Buf(j := b) else Buf"
  have "put_bytes lim (b # bs) (Buf, j) = put_bytes lim bs (?B, Suc j)"
    by (simp add: put_bytes_def)
  then show ?case
    using Cons [of ?B "Suc j"] by (auto simp: nth_Cons' Suc_le_eq)
qed

lemma get_words_stream:
  "get_words offset2 cnt n (length ws) (Buf, j) (concat (map (rev \<circ> bytes_of_word) ws) @ rest)
     = (fst (put_bytes (min cnt n)
          (concat (map (\<lambda>w. bytes_of_word (if offset2 then byterev w else w)) ws)) (Buf, j)), rest)"
proof (induction ws arbitrary: Buf j)
  case Nil
  then show ?case by (simp add: put_bytes_def)
next
  case (Cons w ws)
  obtain B k where "put_bytes (min cnt n) (bytes_of_word (if offset2 then byterev w else w)) (Buf, j) = (B, k)"
    by fastforce
  then show ?case
    using Cons [of B k] by (simp add: put_word_bytes put_bytes_append)
qed

lemma chunk_words:
  "length bs = 4 * t \<Longrightarrow> \<exists>ws. length ws = t \<and> bs = concat (map (rev \<circ> bytes_of_word) ws)"
proof (induction t arbitrary: bs)
  case 0
  then show ?case by simp
next
  case (Suc t)
  have "bs \<noteq> []" using Suc.prems by auto
  obtain a b c d es where bs: "bs = a # b # c # d # es"
    using Suc.prems by (auto simp: length_Suc_conv numeral_eq_Suc)
  then have "length es = 4 * t" using Suc.prems by simp
  then obtain ws where ws: "length ws = t" "es = concat (map (rev \<circ> bytes_of_word) ws)"
    using Suc.IH [of es] by blast
  have w: "rev (bytes_of_word (word_of_bytes d c b a)) = [a, b, c, d]"
    by (simp add: bytes_of_word_4 flip: numeral_2_eq_2 numeral_3_eq_3)
  have "bs = concat (map (rev \<circ> bytes_of_word) (word_of_bytes d c b a # ws))"
    using ws(2) by (simp only: bs list.map concat.simps comp_apply w) simp
  then show ?case
    using ws(1) by (intro exI [of _ "word_of_bytes d c b a # ws"]) (simp add: comp_def)
qed

text \<open>The offset variant stores the bytes of the channel in the order they arrive.\<close>

lemma get_words_offset2:
  assumes "length bs = 4 * t"
  shows "get_words True cnt n t (Buf, j) (bs @ rest) = (fst (put_bytes (min cnt n) bs (Buf, j)), rest)"
proof -
  obtain ws where ws: "length ws = t" "bs = concat (map (rev \<circ> bytes_of_word) ws)"
    using chunk_words [OF assms] by blast
  then show ?thesis
    using get_words_stream [of True cnt n ws Buf j rest] by (simp add: bytes_of_word_byterev comp_def)
qed

subsection \<open>The transactions meet\<close>

text \<open>A packet of \<open>len\<close> bytes at header \<open>h\<close>, and its data bytes including those after the end.\<close>

definition holds_packet :: "ram \<Rightarrow> addr \<Rightarrow> addr \<Rightarrow> nat \<Rightarrow> bool" where
  "holds_packet s mp h len \<longleftrightarrow>
     packet_room s mp h ((len + 3) div 4) \<and> hdr_info s h = mp \<and>
     mii_packet_get_length s (buf_of_hdr h) = of_nat len \<and> 12 \<le> len \<and> len < 2 ^ 30"

definition packet_bytes :: "ram \<Rightarrow> addr \<Rightarrow> nat \<Rightarrow> byte list" where
  "packet_bytes s buf len = concat (map bytes_of_word (packet_words s buf ((len + 3) div 4)))"

lemma word_count_of_nat: "len < 2 ^ 30 \<Longrightarrow> word_count (of_nat len) = (len + 3) div 4"
proof -
  assume len: "len < 2 ^ 30"
  have "sint (of_nat len :: word32) = int len"
    using sint_of_ptr [of "int len"] len by simp
  then show ?thesis by (simp add: word_count_def nat_div_distrib nat_add_distrib)
qed

lemma transfer_count: "len < 2 ^ 31 \<Longrightarrow> unat (drop_bit 2 (of_nat len + 3 :: word32)) = (len + 3) div 4"
proof -
  assume len: "len < 2 ^ 31"
  have "(of_nat len + 3 :: word32) = of_nat (len + 3)" by simp
  moreover have "unat (of_nat (len + 3) :: word32) = len + 3"
    using len by (subst unat_of_nat) (simp add: take_bit_nat_eq_self)
  ultimately show ?thesis by (simp only: unat_drop_bit_eq) (simp add: drop_bit_eq_div)
qed

lemma unat_small: "len < 2 ^ 31 \<Longrightarrow> unat (of_nat len :: word32) = len"
  by (simp add: unat_of_nat take_bit_nat_eq_self)

lemma not_status_len: "len < 2 ^ 31 \<Longrightarrow> (of_nat len :: word32) \<noteq> STATUS_PACKET_LEN"
proof
  assume "len < 2 ^ 31" "(of_nat len :: word32) = STATUS_PACKET_LEN"
  then have "len = unat (- 1 :: word32)" by (metis STATUS_PACKET_LEN_def unat_small)
  then show False using \<open>len < 2 ^ 31\<close> by (simp add: unsigned_minus_1_eq_mask mask_eq_exp_minus_1)
qed

lemma frame_sent:
  assumes p: "holds_packet s mp h len" and cmd: "cmd \<noteq> ETHERNET_RX_FRAME_REQ_OFFSET2"
  shows "transaction_bytes (mac_rx_send_frame1 s (buf_of_hdr h) cmd)
    = rev (bytes_of_word (mii_packet_get_src_port s (buf_of_hdr h)))
      @ rev (bytes_of_word (of_nat (len - 4 * first_word cmd)))
      @ rev (bytes_of_word (mii_packet_get_user_data s (buf_of_hdr h)))
      @ concat (map (rev \<circ> bytes_of_word) (packet_words s (buf_of_hdr h) ((len + 3) div 4 - first_word cmd)))
      @ rev (bytes_of_word (mii_packet_get_timestamp s (buf_of_hdr h) + ETHERNET_RX_PHY_TIMER_OFFSET))"
proof -
  let ?m = "(len + 3) div 4 - first_word cmd"
  have "packet_room s mp h ?m" "hdr_info s h = mp"
    using p packet_room_mono by (auto simp: holds_packet_def)
  then have "load_words s (mii_packet_get_wrap_ptr s (buf_of_hdr h)) (mii_packet_get_data_ptr (buf_of_hdr h)) ?m
      = packet_words s (buf_of_hdr h) ?m"
    by (rule load_words_packet)
  moreover have "word_count (mii_packet_get_length s (buf_of_hdr h)) = (len + 3) div 4"
    using p by (simp add: holds_packet_def word_count_of_nat)
  moreover have "mii_packet_get_length s (buf_of_hdr h) - 4 * of_nat (first_word cmd)
      = of_nat (len - 4 * first_word cmd)"
    using p by (auto simp: holds_packet_def first_word_def)
  ultimately show ?thesis
    using cmd by (simp add: mac_rx_send_frame1_def Let_def comp_def)
qed

lemma unified_get_data_frame:
  assumes "cnt \<noteq> STATUS_PACKET_LEN"
    and "cnt' = (if Cmd = ETHERNET_RX_FRAME_REQ_OFFSET2 then cnt + 4 else cnt)"
    and "get_words (Cmd = ETHERNET_RX_FRAME_REQ_OFFSET2) (unat cnt') (unat n)
           (unat (drop_bit 2 (cnt' + 3))) (Buf, 0) bs = (B, rev (bytes_of_word time))"
  shows "ethernet_unified_get_data Cmd n Buf t (rev (bytes_of_word src) @ rev (bytes_of_word cnt)
      @ rev (bytes_of_word user) @ bs)
    = \<lparr>rx_buffer = B, rx_rxTime = time, rx_src_port = src, rx_user_data = user,
       rx_byte_count = cnt', rx_rest = []\<rparr>"
  using assms(1) input_word_item [of time "[]"]
  by (simp add: ethernet_unified_get_data_def Let_def assms(2) [symmetric] assms(3))

lemma frame_received:
  assumes p: "holds_packet s mp h len" and cmd: "cmd \<noteq> ETHERNET_RX_FRAME_REQ_OFFSET2"
    and r: "r = ethernet_unified_get_data cmd n Buf t
      (transaction_bytes (mac_rx_send_frame1 s (buf_of_hdr h) cmd))"
  shows "rx_byte_count r = of_nat (len - 4 * first_word cmd)"
    "rx_src_port r = mii_packet_get_src_port s (buf_of_hdr h)"
    "rx_user_data r = mii_packet_get_user_data s (buf_of_hdr h)"
    "rx_rxTime r = mii_packet_get_timestamp s (buf_of_hdr h) - 48"
    "rx_rest r = []"
    "\<And>k. rx_buffer r k
      = (if k < len - 4 * first_word cmd \<and> k < unat n then packet_bytes s (buf_of_hdr h) len ! k else Buf k)"
proof -
  let ?c = "len - 4 * first_word cmd" and ?m = "(len + 3) div 4 - first_word cmd"
  let ?ws = "packet_words s (buf_of_hdr h) ?m"
  let ?data = "concat (map bytes_of_word ?ws)"
  have len: "12 \<le> len" "len < 2 ^ 30" and f: "first_word cmd \<le> 3"
    using p by (auto simp: holds_packet_def first_word_def)
  have c: "?c < 2 ^ 31" using len by simp
  have t: "(?c + 3) div 4 = ?m"
  proof -
    have "len + 3 = (?c + 3) + first_word cmd * 4" using len f by simp
    then have "(len + 3) div 4 = (?c + 3) div 4 + first_word cmd" by simp
    then show ?thesis by simp
  qed
  have "get_words False ?c (unat n) ?m (Buf, 0) (concat (map (rev \<circ> bytes_of_word) ?ws) @ rest)
      = (fst (put_bytes (min ?c (unat n)) ?data (Buf, 0)), rest)" for rest
    using get_words_stream [of False ?c "unat n" ?ws Buf 0 rest] by (simp add: packet_words_def)
  note gw = this
  have R: "r = \<lparr>rx_buffer = fst (put_bytes (min ?c (unat n)) ?data (Buf, 0)),
      rx_rxTime = mii_packet_get_timestamp s (buf_of_hdr h) + ETHERNET_RX_PHY_TIMER_OFFSET,
      rx_src_port = mii_packet_get_src_port s (buf_of_hdr h),
      rx_user_data = mii_packet_get_user_data s (buf_of_hdr h),
      rx_byte_count = of_nat ?c, rx_rest = []\<rparr>"
    unfolding r frame_sent [OF p cmd]
  proof (rule unified_get_data_frame)
    show "of_nat ?c \<noteq> STATUS_PACKET_LEN" by (rule not_status_len [OF c])
    show "(of_nat ?c :: word32) = (if cmd = ETHERNET_RX_FRAME_REQ_OFFSET2 then of_nat ?c + 4 else of_nat ?c)"
      using cmd by (simp only: if_False)
    show "get_words (cmd = ETHERNET_RX_FRAME_REQ_OFFSET2) (unat (of_nat ?c :: word32)) (unat n)
        (unat (drop_bit 2 (of_nat ?c + 3 :: word32))) (Buf, 0)
        (concat (map (rev \<circ> bytes_of_word) ?ws)
          @ rev (bytes_of_word (mii_packet_get_timestamp s (buf_of_hdr h) + ETHERNET_RX_PHY_TIMER_OFFSET)))
      = (fst (put_bytes (min ?c (unat n)) ?data (Buf, 0)),
         rev (bytes_of_word (mii_packet_get_timestamp s (buf_of_hdr h) + ETHERNET_RX_PHY_TIMER_OFFSET)))"
      unfolding transfer_count [OF c] unat_small [OF c] t using cmd gw by (simp only: simp_thms)
  qed
  then show "rx_byte_count r = of_nat ?c" "rx_src_port r = mii_packet_get_src_port s (buf_of_hdr h)"
    "rx_user_data r = mii_packet_get_user_data s (buf_of_hdr h)"
    "rx_rxTime r = mii_packet_get_timestamp s (buf_of_hdr h) - 48" "rx_rest r = []"
    by (simp_all add: ETHERNET_RX_PHY_TIMER_OFFSET_def)
  have l: "length ?data = 4 * ?m" by (simp add: length_concat_same [where n = 4] packet_words_def)
  have d: "?data ! k = packet_bytes s (buf_of_hdr h) len ! k" if "k < 4 * ?m" for k
  proof -
    have "(len + 3) div 4 = ?m + first_word cmd"
      using len f div_le_mono [of 12 "len + 3" 4] by simp
    then have "packet_words s (buf_of_hdr h) ((len + 3) div 4)
        = ?ws @ map (\<lambda>j. mii_packet_get_data s (buf_of_hdr h) (int j)) [?m..<?m + first_word cmd]"
      using upt_add_eq_append [of 0 ?m "first_word cmd"] by (simp only: packet_words_def map_append)
    then show ?thesis using that l by (simp add: packet_bytes_def nth_append)
  qed
  show "rx_buffer r k
      = (if k < ?c \<and> k < unat n then packet_bytes s (buf_of_hdr h) len ! k else Buf k)" for k
  proof -
    have "?c \<le> 4 * ((?c + 3) div 4)" by linarith
    then have "?c \<le> 4 * ?m" by (simp only: t)
    then show ?thesis
      using put_bytes_nth [of "min ?c (unat n)" ?data Buf 0] d l by (auto simp: R)
  qed
qed

lemma rev_bytes_byterev: "rev (bytes_of_word (byterev w)) = bytes_of_word w"
  by (simp add: bytes_of_word_byterev)

lemma frame_sent_offset2:
  assumes p: "holds_packet s mp h len"
  shows "transaction_bytes (mac_rx_send_frame1 s (buf_of_hdr h) ETHERNET_RX_FRAME_REQ_OFFSET2)
    = rev (bytes_of_word (mii_packet_get_src_port s (buf_of_hdr h)))
      @ rev (bytes_of_word (of_nat len))
      @ rev (bytes_of_word (mii_packet_get_user_data s (buf_of_hdr h)))
      @ ([0, 0] @ packet_bytes s (buf_of_hdr h) len @ [0, 0])
      @ rev (bytes_of_word (mii_packet_get_timestamp s (buf_of_hdr h) + ETHERNET_RX_PHY_TIMER_OFFSET))"
proof -
  have "packet_room s mp h ((len + 3) div 4)" "hdr_info s h = mp"
    using p by (simp_all add: holds_packet_def)
  then have "load_words s (mii_packet_get_wrap_ptr s (buf_of_hdr h)) (mii_packet_get_data_ptr (buf_of_hdr h))
      ((len + 3) div 4) = packet_words s (buf_of_hdr h) ((len + 3) div 4)"
    by (rule load_words_packet)
  moreover have "word_count (mii_packet_get_length s (buf_of_hdr h)) = (len + 3) div 4"
    "mii_packet_get_length s (buf_of_hdr h) = of_nat len"
    using p by (simp_all add: holds_packet_def word_count_of_nat)
  ultimately show ?thesis
    by (simp add: mac_rx_send_frame1_def Let_def comp_def first_word_def packet_bytes_def
        rev_bytes_byterev)
qed

lemma length_packet_bytes: "length (packet_bytes s buf len) = 4 * ((len + 3) div 4)"
  by (simp add: packet_bytes_def length_concat_same [where n = 4] packet_words_def)

lemma frame_received_offset2:
  assumes p: "holds_packet s mp h len"
    and r: "r = ethernet_unified_get_data ETHERNET_RX_FRAME_REQ_OFFSET2 n Buf t
      (transaction_bytes (mac_rx_send_frame1 s (buf_of_hdr h) ETHERNET_RX_FRAME_REQ_OFFSET2))"
  shows "rx_byte_count r = of_nat (len + 4)" "rx_rest r = []"
    "rx_rxTime r = mii_packet_get_timestamp s (buf_of_hdr h) - 48"
    "\<And>k. rx_buffer r k
      = (if k < len + 4 \<and> k < unat n then ([0, 0] @ packet_bytes s (buf_of_hdr h) len @ [0, 0]) ! k
         else Buf k)"
proof -
  let ?data = "[0, 0] @ packet_bytes s (buf_of_hdr h) len @ [0, 0]"
  have len: "12 \<le> len" "len < 2 ^ 30" using p by (simp_all add: holds_packet_def)
  have c: "len + 4 < 2 ^ 31" "len < 2 ^ 31" using len by simp_all
  have l: "length ?data = 4 * ((len + 4 + 3) div 4)"
  proof -
    have "len + 4 + 3 = (len + 3) + 1 * 4" by simp
    then have "(len + 4 + 3) div 4 = (len + 3) div 4 + 1" by simp
    then show ?thesis by (simp add: length_packet_bytes)
  qed
  have gw: "get_words True (len + 4) (unat n) ((len + 4 + 3) div 4) (Buf, 0) (?data @ rest)
      = (fst (put_bytes (min (len + 4) (unat n)) ?data (Buf, 0)), rest)" for rest
    by (rule get_words_offset2 [OF l])
  have R: "r = \<lparr>rx_buffer = fst (put_bytes (min (len + 4) (unat n)) ?data (Buf, 0)),
      rx_rxTime = mii_packet_get_timestamp s (buf_of_hdr h) + ETHERNET_RX_PHY_TIMER_OFFSET,
      rx_src_port = mii_packet_get_src_port s (buf_of_hdr h),
      rx_user_data = mii_packet_get_user_data s (buf_of_hdr h),
      rx_byte_count = of_nat (len + 4), rx_rest = []\<rparr>"
    unfolding r frame_sent_offset2 [OF p]
  proof (rule unified_get_data_frame)
    show "of_nat len \<noteq> STATUS_PACKET_LEN" by (rule not_status_len [OF c(2)])
    show "(of_nat (len + 4) :: word32) = (if ETHERNET_RX_FRAME_REQ_OFFSET2 = ETHERNET_RX_FRAME_REQ_OFFSET2
        then of_nat len + 4 else of_nat len)" by simp
    show "get_words (ETHERNET_RX_FRAME_REQ_OFFSET2 = ETHERNET_RX_FRAME_REQ_OFFSET2)
        (unat (of_nat (len + 4) :: word32)) (unat n) (unat (drop_bit 2 (of_nat (len + 4) + 3 :: word32)))
        (Buf, 0) (?data @ rev (bytes_of_word (mii_packet_get_timestamp s (buf_of_hdr h)
          + ETHERNET_RX_PHY_TIMER_OFFSET)))
      = (fst (put_bytes (min (len + 4) (unat n)) ?data (Buf, 0)),
         rev (bytes_of_word (mii_packet_get_timestamp s (buf_of_hdr h) + ETHERNET_RX_PHY_TIMER_OFFSET)))"
      unfolding transfer_count [OF c(1)] unat_small [OF c(1)] using gw by (simp only: simp_thms)
  qed
  then show "rx_byte_count r = of_nat (len + 4)" "rx_rest r = []"
    "rx_rxTime r = mii_packet_get_timestamp s (buf_of_hdr h) - 48"
    by (simp_all add: ETHERNET_RX_PHY_TIMER_OFFSET_def)
  show "rx_buffer r k = (if k < len + 4 \<and> k < unat n then ?data ! k else Buf k)" for k
  proof -
    have "len + 4 \<le> length ?data" unfolding l by linarith
    then show ?thesis
      using put_bytes_nth [of "min (len + 4) (unat n)" ?data Buf 0] by (simp only: R rx_result.simps) auto
  qed
qed

subsection \<open>Properties\<close>

text \<open>C28: What the server sends for a packet, the client stores. For a packet of any length up to its
room, wrapped in its pool or not, a frame request gives the client the length, port, user data
and corrected receive time of the packet, and stores exactly the packet's bytes, in order from the
start of the caller's array, up to the caller's limit \<open>n\<close>, and nothing else; the two ends agree on
the number of bytes in the transaction. The offset variant stores two zero bytes, the packet's
bytes and two more bytes, and returns a length that is 4 more than the packet's. The size of the
caller's array is not known to the code: where it is smaller than the packet and the limit, the
rest of the packet is stored behind it.\<close>

theorem client_receives_packet:
  assumes p: "holds_packet s mp h len"
    and r: "r = ethernet_unified_get_data ETHERNET_RX_FRAME_REQ n Buf t
      (transaction_bytes (mac_rx_send_frame1 s (buf_of_hdr h) ETHERNET_RX_FRAME_REQ))"
    and r2: "r2 = ethernet_unified_get_data ETHERNET_RX_FRAME_REQ_OFFSET2 n Buf t
      (transaction_bytes (mac_rx_send_frame1 s (buf_of_hdr h) ETHERNET_RX_FRAME_REQ_OFFSET2))"
  shows "rx_byte_count r = of_nat len \<and> rx_src_port r = mii_packet_get_src_port s (buf_of_hdr h) \<and>
      rx_user_data r = mii_packet_get_user_data s (buf_of_hdr h) \<and>
      rx_rxTime r = mii_packet_get_timestamp s (buf_of_hdr h) - 48 \<and> rx_rest r = [] \<and>
    (\<forall>k. rx_buffer r k
      = (if k < len \<and> k < unat n then packet_bytes s (buf_of_hdr h) len ! k else Buf k)) \<and>
    rx_byte_count r2 = of_nat (len + 4) \<and> rx_rest r2 = [] \<and>
    (\<forall>k. rx_buffer r2 k
      = (if k < len + 4 \<and> k < unat n then ([0, 0] @ packet_bytes s (buf_of_hdr h) len @ [0, 0]) ! k
         else Buf k))"
proof -
  have f: "first_word ETHERNET_RX_FRAME_REQ = 0" by (simp add: first_word_def)
  show ?thesis
    using frame_received [OF p _ r, unfolded f] frame_received_offset2 [OF p r2] by simp
qed

text \<open>
  An array shorter than the packet is overrun: with no limit, as in \<open>mac_rx\<close>, every byte of the
  packet is stored, those that lie behind the array too.
\<close>

lemma short_array_overrun:
  assumes p: "holds_packet s mp h len" and k: "k < len"
  shows "fst (mac_rx_full Buf
      (transaction_bytes (mac_rx_send_frame1 s (buf_of_hdr h) ETHERNET_RX_FRAME_REQ))) k
    = packet_bytes s (buf_of_hdr h) len ! k"
proof -
  have f: "first_word ETHERNET_RX_FRAME_REQ = 0" by (simp add: first_word_def)
  have "k < unat (- 1 :: word32)"
    using p k by (auto simp: holds_packet_def unsigned_minus_1_eq_mask mask_eq_exp_minus_1)
  then show ?thesis
    using frame_received(6) [OF p _ refl, of ETHERNET_RX_FRAME_REQ "- 1" Buf 0 k, unfolded f] k
    by (simp add: mac_rx_full_def Let_def)
qed

text \<open>
  A payload request should strip the two addresses. The count does, the data does not: the server
  starts at word 3 in the count but at the first word in the buffer, so the client gets the first
  bytes of the frame, addresses included, and never its last twelve.
\<close>

lemma payload_request_delivers_header:
  assumes p: "holds_packet s mp h len"
    and r: "r = ethernet_unified_get_data ETHERNET_RX_TYPE_PAYLOAD_REQ (- 1) Buf t
      (transaction_bytes (mac_rx_send_frame1 s (buf_of_hdr h) ETHERNET_RX_TYPE_PAYLOAD_REQ))"
    and k: "k < len - 12"
  shows "rx_byte_count r = of_nat (len - 12) \<and> rx_buffer r k = packet_bytes s (buf_of_hdr h) len ! k"
proof -
  have f: "first_word ETHERNET_RX_TYPE_PAYLOAD_REQ = 3" by (simp add: first_word_def)
  have "k < unat (- 1 :: word32)"
    using p k by (auto simp: holds_packet_def unsigned_minus_1_eq_mask mask_eq_exp_minus_1)
  then show ?thesis
    using frame_received(1) [OF p _ r, unfolded f] frame_received(6) [OF p _ r, of k, unfolded f] k
    by simp
qed

definition example_delivery :: ram where
  "example_delivery = mii_packet_set_timestamp (mii_packet_set_length example_pool 1052 61) 1052 100"

lemma example_delivery_packet: "holds_packet example_delivery 1024 1044 61"
proof -
  have b: "buf_of_hdr 1044 = 1052" by (simp add: buf_of_hdr_def sizeof_malloc_hdr_def)
  have "packet_room example_delivery 1024 1044 16" "hdr_info example_delivery 1044 = 1024"
    "mii_packet_get_length example_delivery 1052 = 61"
    by code_simp+
  then show ?thesis by (simp add: holds_packet_def b)
qed

theorem client_receives_packet_witness:
  "rx_byte_count (ethernet_unified_get_data ETHERNET_RX_FRAME_REQ 60 (\<lambda>_. 7) 0
      (transaction_bytes (mac_rx_send_frame1 example_delivery (buf_of_hdr 1044) ETHERNET_RX_FRAME_REQ))) = 61 \<and>
   rx_buffer (ethernet_unified_get_data ETHERNET_RX_FRAME_REQ 60 (\<lambda>_. 7) 0
      (transaction_bytes (mac_rx_send_frame1 example_delivery (buf_of_hdr 1044) ETHERNET_RX_FRAME_REQ))) 60 = 7"
  using client_receives_packet [OF example_delivery_packet refl refl, of 60 "\<lambda>_. 7" 0]
  by simp

end
