(* ===== verification/Rx_Server_Refs.thy ===== *)
theory Rx_Server_Refs
  imports Rx_Server
begin

text \<open>
  Shared ownership of packets in the receive server. A packet may wait in the queues of several
  clients; its transmit counter holds the number of those queues minus one, and the client that
  takes it last frees it. The invariant \<open>rx_refs_inv\<close> says that no packet is freed while it
  waits in a queue, and that every packet the server has looked at is either freed or waits in
  some queue. It is kept by every turn of the server and by the producers of packets, for builds
  with one port and without the high priority queue.
\<close>

subsection \<open>The queues of the clients\<close>

definition client_list :: "rx_server \<Rightarrow> nat \<Rightarrow> addr list" where
  "client_list v i =
     (let l = link_status v ! i in ring_list (cl_fifo l) (cl_rdIndex l) (cl_wrIndex l))"

definition refs :: "nat \<Rightarrow> rx_server \<Rightarrow> addr \<Rightarrow> nat" where
  "refs n v buf = (\<Sum>i<n. count_list (client_list v i) buf)"

definition client_wf :: "mac_config \<Rightarrow> link_layer_status_t \<Rightarrow> bool" where
  "client_wf c l \<longleftrightarrow> length (cl_fifo l) = num_mii_rx_buf c \<and>
     cl_rdIndex l < num_mii_rx_buf c \<and> cl_wrIndex l < num_mii_rx_buf c"

definition server_wf :: "mac_config \<Rightarrow> nat \<Rightarrow> rx_server \<Rightarrow> bool" where
  "server_wf c n v \<longleftrightarrow> n \<le> length (link_status v) \<and> (\<forall>i < n. client_wf c (link_status v ! i))"

text \<open>The part of the state that the queues are in.\<close>

definition queues :: "rx_server \<Rightarrow> (addr list \<times> nat \<times> nat) list" where
  "queues v = map (\<lambda>l. (cl_fifo l, cl_rdIndex l, cl_wrIndex l)) (link_status v)"

lemma length_update_client [simp]: "length (link_status (update_client i f v)) = length (link_status v)"
  by (simp add: update_client_def)

lemma update_client_nth:
  "i < length (link_status v) \<Longrightarrow>
     link_status (update_client i f v) ! j = (if i = j then f (link_status v ! i) else link_status v ! j)"
  by (simp add: update_client_def nth_list_update)

lemma update_client_fields [simp]:
  "custom_filter_mask (update_client i f v) = custom_filter_mask v"
  "rdptr_lp (update_client i f v) = rdptr_lp v" "rdptr_hp (update_client i f v) = rdptr_hp v"
  by (simp_all add: update_client_def)

lemma queues_update:
  assumes "\<And>l. cl_fifo (f l) = cl_fifo l" "\<And>l. cl_rdIndex (f l) = cl_rdIndex l"
    "\<And>l. cl_wrIndex (f l) = cl_wrIndex l"
  shows "queues (update_client i f v) = queues v"
proof -
  let ?g = "\<lambda>l. (cl_fifo l, cl_rdIndex l, cl_wrIndex l)"
  have "queues (update_client i f v) = (map ?g (link_status v))[i := ?g (f (link_status v ! i))]"
    by (simp add: queues_def update_client_def map_update)
  also have "\<dots> = map ?g (link_status v)"
    by (cases "i < length (link_status v)") (simp_all add: assms list_update_same_conv list_update_beyond)
  finally show ?thesis by (simp add: queues_def)
qed

lemma queues_other_fields [simp]:
  "queues (v\<lparr>custom_filter_mask := m\<rparr>) = queues v" "queues (v\<lparr>rdptr_lp := r\<rparr>) = queues v"
  by (simp_all add: queues_def)

lemma queues_wf: "queues v' = queues v \<Longrightarrow> server_wf c n v' = server_wf c n v"
proof -
  assume q: "queues v' = queues v"
  have l: "length (link_status v') = length (link_status v)"
    using arg_cong [OF q, of length] by (simp add: queues_def)
  have "(cl_fifo (link_status v' ! i), cl_rdIndex (link_status v' ! i), cl_wrIndex (link_status v' ! i))
      = (cl_fifo (link_status v ! i), cl_rdIndex (link_status v ! i), cl_wrIndex (link_status v ! i))"
    if "i < length (link_status v)" for i
    using arg_cong [OF q, of "\<lambda>xs. xs ! i"] that l by (simp add: queues_def)
  then show ?thesis using l by (auto simp: server_wf_def client_wf_def)
qed

lemma queues_refs:
  assumes q: "queues v' = queues v" and n: "n \<le> length (link_status v)"
  shows "refs n v' = refs n v"
proof -
  have l: "length (link_status v') = length (link_status v)"
    using arg_cong [OF q, of length] by (simp add: queues_def)
  have "client_list v' i = client_list v i" if "i < n" for i
    using arg_cong [OF q, of "\<lambda>xs. xs ! i"] that n l by (simp add: queues_def client_list_def Let_def)
  then show ?thesis by (simp add: refs_def fun_eq_iff)
qed

lemma refs_update:
  assumes i: "i < n" "n \<le> length (link_status v)"
  shows "refs n (update_client i f v) buf + count_list (client_list v i) buf
    = refs n v buf + count_list (client_list (update_client i f v) i) buf"
proof -
  have "client_list (update_client i f v) j = client_list v j" if "j \<noteq> i" for j
    using that i by (simp add: client_list_def update_client_nth)
  then have "(\<Sum>j\<in>{..<n} - {i}. count_list (client_list (update_client i f v) j) buf)
      = (\<Sum>j\<in>{..<n} - {i}. count_list (client_list v j) buf)"
    by (intro sum.cong) auto
  then show ?thesis
    using sum.remove [of "{..<n}" i "\<lambda>j. count_list (client_list v j) buf"]
      sum.remove [of "{..<n}" i "\<lambda>j. count_list (client_list (update_client i f v) j) buf"] i
    by (simp add: refs_def)
qed

subsection \<open>Offering and taking\<close>

lemma offer_packet_refs:
  assumes wf: "server_wf c n v" and i: "i < n" and o: "offer_packet c result buf i (v, t, outs) = (v', t', outs')"
  shows "server_wf c n v'" "rdptr_lp v' = rdptr_lp v" "custom_filter_mask v' = custom_filter_mask v"
    "refs n v' b + (if b = buf then t else 0) = refs n v b + (if b = buf then t' else 0)" "t \<le> t'" "t' \<le> t + 1"
proof -
  let ?l = "link_status v ! i"
  have n: "n \<le> length (link_status v)" and l: "client_wf c ?l"
    using wf i by (simp_all add: server_wf_def)
  consider (drop) f where "v' = update_client i f v" "t' = t" "queues v' = queues v"
    | (same) "v' = v" "t' = t"
    | (put) f where "v' = update_client i f v" "t' = t + 1"
        "f = (\<lambda>l. l\<lparr>cl_fifo := (cl_fifo l)[cl_wrIndex l := buf],
                   cl_wrIndex := ring_next (num_mii_rx_buf c) (cl_wrIndex ?l), notified := True\<rparr>)"
        "ring_next (num_mii_rx_buf c) (cl_wrIndex ?l) \<noteq> cl_rdIndex ?l"
    using o by (auto simp: offer_packet_def Let_def queues_update split: if_splits)
  then have "server_wf c n v' \<and> rdptr_lp v' = rdptr_lp v \<and> custom_filter_mask v' = custom_filter_mask v \<and>
      refs n v' b + (if b = buf then t else 0) = refs n v b + (if b = buf then t' else 0) \<and> t \<le> t' \<and> t' \<le> t + 1"
  proof cases
    case drop
    then show ?thesis using queues_refs [OF drop(3) n] queues_wf [OF drop(3)] wf by simp
  next
    case same
    then show ?thesis using wf by simp
  next
    case (put f)
    have w: "client_wf c (f ?l)"
      using l by (simp add: client_wf_def put)
    have "client_list v' i = client_list v i @ [buf]"
      using ring_list_put [of "cl_rdIndex ?l" "cl_fifo ?l" "cl_wrIndex ?l" buf] l put(4) i n
      by (simp add: client_list_def put(1,3) update_client_nth Let_def client_wf_def)
    then have "refs n v' b + count_list (client_list v i) b
        = refs n v b + (count_list (client_list v i) b + (if b = buf then 1 else 0))"
      using refs_update [OF i n, of f b] by (simp add: put(1))
    moreover have "server_wf c n v'"
      using wf w i n by (auto simp: server_wf_def put(1) update_client_nth)
    ultimately show ?thesis by (simp add: put(1,2))
  qed
  then show "server_wf c n v'" "rdptr_lp v' = rdptr_lp v" "custom_filter_mask v' = custom_filter_mask v"
    "refs n v' b + (if b = buf then t else 0) = refs n v b + (if b = buf then t' else 0)" "t \<le> t'" "t' \<le> t + 1"
    by simp_all
qed

lemma offer_all_refs:
  assumes "server_wf c n v" "k \<le> n"
    and "fold (offer_packet c result buf) [0..<k] (v, 0, []) = (v', t', outs')"
  shows "server_wf c n v' \<and> rdptr_lp v' = rdptr_lp v \<and> t' \<le> k \<and>
    (\<forall>b. refs n v' b = refs n v b + (if b = buf then t' else 0))"
  using assms(2,3)
proof (induction k arbitrary: v' t' outs')
  case 0
  then show ?case using assms(1) by simp
next
  case (Suc k)
  obtain w t outs where w: "fold (offer_packet c result buf) [0..<k] (v, 0, []) = (w, t, outs)"
    by (metis prod_cases3)
  have IH: "server_wf c n w" "rdptr_lp w = rdptr_lp v" "t \<le> k"
    "\<And>b. refs n w b = refs n v b + (if b = buf then t else 0)"
    using Suc.IH [OF _ w] Suc.prems(1) by simp_all
  have o: "offer_packet c result buf k (w, t, outs) = (v', t', outs')"
    using Suc.prems(2) w by simp
  note step = offer_packet_refs [OF IH(1) _ o]
  have k: "k < n" using Suc.prems(1) by simp
  have "refs n v' b = refs n v b + (if b = buf then t' else 0)" for b
    using step(4) [OF k, of b] IH(4) [of b] by (auto split: if_splits)
  then show ?case using step(1,2,5,6) [OF k] IH(2,3) by simp
qed

lemma take_packet_refs:
  assumes wf: "server_wf c n v" and i: "i < n"
    and ne: "cl_rdIndex (link_status v ! i) \<noteq> cl_wrIndex (link_status v ! i)"
    and v': "v' = update_client i (\<lambda>l. l\<lparr>cl_rdIndex := ring_next (num_mii_rx_buf c) (cl_rdIndex (link_status v ! i))\<rparr>) v"
    and buf: "buf = cl_fifo (link_status v ! i) ! cl_rdIndex (link_status v ! i)"
  shows "server_wf c n v'" "client_list v i = buf # client_list v' i"
    "refs n v b = refs n v' b + (if b = buf then 1 else 0)"
proof -
  let ?l = "link_status v ! i"
  have n: "n \<le> length (link_status v)" and l: "client_wf c ?l"
    using wf i by (simp_all add: server_wf_def)
  show "server_wf c n v'"
    using wf l i n by (auto simp: server_wf_def v' update_client_nth client_wf_def)
  show cl: "client_list v i = buf # client_list v' i"
    using ring_list_get [of "cl_rdIndex ?l" "cl_fifo ?l" "cl_wrIndex ?l"] l ne i n
    by (simp add: client_list_def v' update_client_nth Let_def client_wf_def buf)
  show "refs n v b = refs n v' b + (if b = buf then 1 else 0)"
    using refs_update [OF i n, of "\<lambda>l. l\<lparr>cl_rdIndex := ring_next (num_mii_rx_buf c) (cl_rdIndex ?l)\<rparr>" b]
    by (auto simp: cl v' [symmetric] split: if_splits)
qed

subsection \<open>The invariant\<close>

text \<open>
  The pool's queue is \<open>vis @ unv\<close>: the packets the server has looked at, then those it has not.
  Its read pointer stands at the first of the second part.
\<close>

definition tcount_of :: "ram \<Rightarrow> addr \<Rightarrow> word32" where
  "tcount_of s h = mii_packet_get_tcount s (buf_of_hdr h)"

definition rx_refs_inv ::
  "mac_config \<Rightarrow> nat \<Rightarrow> addr \<Rightarrow> pool_queue \<Rightarrow> pool_queue \<Rightarrow> rx_server \<Rightarrow> ram \<Rightarrow> bool" where
  "rx_refs_inv c n mp vis unv v s \<longleftrightarrow>
     server_wf c n v \<and> pool_inv s mp (vis @ unv) \<and> (\<forall>x \<in> set unv. \<not> snd x) \<and>
     length (rdptr_lp v) = 1 \<and> rdptr_lp v ! 0 = hd (map fst unv @ [wrptr (pools s mp)]) \<and>
     (\<forall>h f. (h, f) \<in> set vis \<longrightarrow> f \<or> 0 < refs n v (buf_of_hdr h)) \<and>
     (\<forall>buf. 0 < refs n v buf \<longrightarrow>
        (\<exists>h. buf = buf_of_hdr h \<and> (h, False) \<in> set vis \<and>
             tcount_of s h = of_nat (refs n v buf) - 1 \<and> refs n v buf < 2 ^ 32))"

lemma rx_refs_invD:
  assumes "rx_refs_inv c n mp vis unv v s"
  shows "server_wf c n v" "pool_inv s mp (vis @ unv)" "\<forall>x \<in> set unv. \<not> snd x"
    "length (rdptr_lp v) = 1" "rdptr_lp v ! 0 = hd (map fst unv @ [wrptr (pools s mp)])"
    "(h, f) \<in> set vis \<Longrightarrow> f \<or> 0 < refs n v (buf_of_hdr h)"
    "0 < refs n v buf \<Longrightarrow> \<exists>h. buf = buf_of_hdr h \<and> (h, False) \<in> set vis \<and>
       tcount_of s h = of_nat (refs n v buf) - 1 \<and> refs n v buf < 2 ^ 32"
  using assms unfolding rx_refs_inv_def by (elim conjE, (assumption | simp only: | metis)+)

lemma buf_of_hdr_inj [simp]: "buf_of_hdr g = buf_of_hdr h \<longleftrightarrow> g = h"
  by (simp add: buf_of_hdr_def)

lemma free_spec_prefix:
  assumes "h \<notin> fst ` set unv" "\<forall>x \<in> set unv. \<not> snd x"
  shows "free_spec h (vis @ unv) = dropWhile snd (toggle h vis) @ unv"
proof -
  have "toggle h (vis @ unv) = toggle h vis @ toggle h unv" by (simp add: toggle_def)
  also have "toggle h unv = unv" using assms(1) by (intro toggle_not_in) simp
  finally have t: "toggle h (vis @ unv) = toggle h vis @ unv" .
  have u: "dropWhile snd unv = unv" using assms(2) by (cases unv) auto
  show ?thesis
  proof (cases "\<exists>x \<in> set (toggle h vis). \<not> snd x")
    case True
    then show ?thesis by (auto simp: free_spec_def t dropWhile_append1)
  next
    case False
    then have "dropWhile snd (toggle h vis @ unv) = dropWhile snd unv"
      by (intro dropWhile_append2) auto
    moreover have "dropWhile snd (toggle h vis) = []"
      using False by (simp add: dropWhile_eq_Nil_conv)
    ultimately show ?thesis by (simp add: free_spec_def t u)
  qed
qed

lemma mem_dropWhile_unflagged: "(h, False) \<in> set q \<Longrightarrow> (h, False) \<in> set (dropWhile snd q)"
  by (induction q) auto

lemma mem_toggle:
  "distinct (map fst q) \<Longrightarrow> (h, False) \<in> set q \<Longrightarrow>
     (g, f) \<in> set (toggle h q) \<longleftrightarrow> (if g = h then f else (g, f) \<in> set q)"
proof (induction q)
  case Nil
  then show ?case by simp
next
  case (Cons x q)
  obtain a b where x: "x = (a, b)" by (cases x)
  show ?case
  proof (cases "a = h")
    case True
    then have "h \<notin> fst ` set q" "\<not> b" using Cons.prems by (force simp: x)+
    moreover then have "toggle h q = q" by (intro toggle_not_in) simp
    ultimately show ?thesis using True by (force simp: x toggle_Cons)
  next
    case False
    then show ?thesis using Cons by (auto simp: x toggle_Cons)
  qed
qed

text \<open>A field of a packet is apart from the headers of all packets.\<close>

lemma field_not_header:
  assumes "pool_inv s mp q" "g \<in> fst ` set q" "h \<in> fst ` set q"
  shows "buf_of_hdr g + 4 * BUF_OFFSET f \<noteq> h"
proof (cases "g = h")
  case True
  then show ?thesis using BUF_OFFSET_range [of f] by (simp add: buf_of_hdr_def sizeof_malloc_hdr_def)
next
  case False
  then have "48 \<le> \<bar>g - h\<bar>" using pool_wf_apart [OF pool_inv_wf [OF assms(1)] assms(2,3)] by simp
  then show ?thesis
    using BUF_OFFSET_range [of f] by (auto simp: buf_of_hdr_def sizeof_malloc_hdr_def BUF_DATA_OFFSET_def)
qed

lemma mii_free_field:
  assumes "pool_inv s mp q" "h \<in> fst ` set q" "mii_free s (buf_of_hdr h) = Some s'" "g \<in> fst ` set q"
  shows "mii_packet_get f s' (buf_of_hdr g) = mii_packet_get f s (buf_of_hdr g)"
  unfolding mii_packet_get_def
  using field_not_header [OF assms(1,4)] by (intro mii_free_frame(5) [OF assms(1-3)]) fastforce

lemma field_set_other:
  assumes "pool_inv s mp q" "g \<in> fst ` set q" "h \<in> fst ` set q" "g \<noteq> h"
  shows "mii_packet_get f (mii_packet_set f' s (buf_of_hdr h) x) (buf_of_hdr g)
    = mii_packet_get f s (buf_of_hdr g)"
proof -
  have "48 \<le> \<bar>g - h\<bar>"
    using pool_wf_apart [OF pool_inv_wf [OF assms(1)] assms(2,3,4)] .
  then show ?thesis
    using BUF_OFFSET_range [of f] BUF_OFFSET_range [of f']
    unfolding mii_packet_get_def
    by (intro ldw_packet_set) (auto simp: buf_of_hdr_def BUF_DATA_OFFSET_def)
qed

text \<open>
  The step both ways of releasing a packet share: it is free of references, and the last reference
  frees it.
\<close>

lemma release_packet:
  assumes wf: "server_wf c n v" and inv: "pool_inv s mp (vis @ unv)" and u: "\<forall>x \<in> set unv. \<not> snd x"
    and rd: "length (rdptr_lp v) = 1" "rdptr_lp v ! 0 = hd (map fst unv @ [wrptr (pools s mp)])"
    and h: "(h, False) \<in> set vis" and h0: "refs n v (buf_of_hdr h) = 0"
    and leak: "\<And>g f. (g, f) \<in> set vis \<Longrightarrow> g \<noteq> h \<Longrightarrow> f \<or> 0 < refs n v (buf_of_hdr g)"
    and live: "\<And>buf. 0 < refs n v buf \<Longrightarrow> (\<exists>g. buf = buf_of_hdr g \<and> (g, False) \<in> set vis \<and>
             tcount_of s g = of_nat (refs n v buf) - 1 \<and> refs n v buf < 2 ^ 32)"
  shows "\<exists>s' vis'. mii_free s (buf_of_hdr h) = Some s' \<and> rx_refs_inv c n mp vis' unv v s'"
proof -
  have hq: "h \<in> fst ` set (vis @ unv)" using h by force
  obtain s' where s': "mii_free s (buf_of_hdr h) = Some s'" "pool_inv s' mp (free_spec h (vis @ unv))"
    using mii_free_refines [OF inv hq] by blast
  have d: "distinct (map fst (vis @ unv))"
    using pool_wf_distinct [OF pool_inv_wf [OF inv]] by simp
  then have hu: "h \<notin> fst ` set unv" using h by force
  let ?vis = "dropWhile snd (toggle h vis)"
  have m: "(g, f) \<in> set (toggle h vis) \<longleftrightarrow> (if g = h then f else (g, f) \<in> set vis)" for g f
    using mem_toggle [of vis h g f] d h by simp
  have "rx_refs_inv c n mp ?vis unv v s'"
    unfolding rx_refs_inv_def
  proof (intro conjI)
    show "server_wf c n v" "\<forall>x \<in> set unv. \<not> snd x" "length (rdptr_lp v) = 1" by fact+
    show "pool_inv s' mp (?vis @ unv)"
      using s'(2) by (simp add: free_spec_prefix [OF hu u])
    show "rdptr_lp v ! 0 = hd (map fst unv @ [wrptr (pools s' mp)])"
      using rd mii_free_frame(1) [OF inv hq s'(1)] by simp
    show "\<forall>g f. (g, f) \<in> set ?vis \<longrightarrow> f \<or> 0 < refs n v (buf_of_hdr g)"
    proof -
      have "f \<or> 0 < refs n v (buf_of_hdr g)" if gf: "(g, f) \<in> set ?vis" for g f
      proof -
        have "(g, f) \<in> set (toggle h vis)" using set_dropWhileD [OF gf] by blast
        then show ?thesis using m [of g f] leak [of g f] by (auto split: if_splits)
      qed
      then show ?thesis by blast
    qed
    show "\<forall>buf. 0 < refs n v buf \<longrightarrow> (\<exists>g. buf = buf_of_hdr g \<and> (g, False) \<in> set ?vis \<and>
        tcount_of s' g = of_nat (refs n v buf) - 1 \<and> refs n v buf < 2 ^ 32)"
    proof (intro allI impI)
      fix buf assume b: "0 < refs n v buf"
      then obtain g where g: "buf = buf_of_hdr g" "(g, False) \<in> set vis"
        "tcount_of s g = of_nat (refs n v buf) - 1" "refs n v buf < 2 ^ 32"
        using live by blast
      have "g \<noteq> h" using b h0 g(1) by auto
      then have "(g, False) \<in> set ?vis" using m g(2) by (simp add: mem_dropWhile_unflagged)
      moreover have "tcount_of s' g = tcount_of s g"
        unfolding tcount_of_def using g(2) by (intro mii_free_field [OF inv hq s'(1)]) force
      ultimately show "\<exists>g. buf = buf_of_hdr g \<and> (g, False) \<in> set ?vis \<and>
          tcount_of s' g = of_nat (refs n v buf) - 1 \<and> refs n v buf < 2 ^ 32"
        using g by auto
    qed
  qed
  then show ?thesis using s'(1) by blast
qed

subsection \<open>The turns of the server\<close>

text \<open>Turns that do not touch the queues.\<close>

lemma rx_refs_inv_queues:
  assumes "rx_refs_inv c n mp vis unv v s" "queues v' = queues v" "rdptr_lp v' = rdptr_lp v"
  shows "rx_refs_inv c n mp vis unv v' s"
proof -
  have "refs n v' = refs n v"
    using assms by (intro queues_refs) (auto simp: rx_refs_inv_def server_wf_def)
  then show ?thesis
    using assms queues_wf [OF assms(2)] by (simp add: rx_refs_inv_def)
qed

lemma service_link_cmd_queues:
  "service_link_cmd c env i is_cmd cmd arg v = (v', outs) \<Longrightarrow> queues v' = queues v \<and> rdptr_lp v' = rdptr_lp v"
  by (cases cmd) (auto simp: service_link_cmd_def Let_def queues_update split: prod.splits if_splits)

lemma status_to_client_queues:
  "status_to_client i (v, outs) = (v', outs') \<Longrightarrow> queues v' = queues v \<and> rdptr_lp v' = rdptr_lp v"
  by (auto simp: status_to_client_def queues_update split: if_splits)

lemma status_to_clients_queues:
  "fold status_to_client is (v, outs) = (v', outs') \<Longrightarrow> queues v' = queues v \<and> rdptr_lp v' = rdptr_lp v"
proof (induction "is" arbitrary: v outs)
  case Nil
  then show ?case by simp
next
  case (Cons i "is")
  obtain w o1 where w: "status_to_client i (v, outs) = (w, o1)" by fastforce
  then show ?case
    using Cons.IH [of w o1] Cons.prems status_to_client_queues [OF w] by simp
qed

lemma status_of_ports_queues:
  "fold (status_of_port n) ps (v, links, outs) = (v', links', outs') \<Longrightarrow>
     queues v' = queues v \<and> rdptr_lp v' = rdptr_lp v"
proof (induction ps arbitrary: v links outs)
  case Nil
  then show ?case by simp
next
  case (Cons p ps)
  obtain w l o1 where w: "status_of_port n p (v, links, outs) = (w, l, o1)"
    by (metis prod_cases3)
  then have "queues w = queues v \<and> rdptr_lp w = rdptr_lp v"
    using status_to_clients_queues [of "[0..<n]" v outs]
    by (auto simp: status_of_port_def Let_def split: prod.splits if_splits)
  then show ?case using Cons.IH [of w l o1] Cons.prems w by simp
qed

lemma serve_frame_req_inv:
  assumes inv: "rx_refs_inv c n mp vis unv v s" and i: "i < n"
  shows "\<exists>v' s' outs vis'. serve_frame_req c links i cmd v s = Some (v', s', outs)
    \<and> rx_refs_inv c n mp vis' unv v' s'"
proof -
  let ?l = "link_status v ! i"
  let ?done = "update_client i (\<lambda>l. l\<lparr>notified := False\<rparr>)"
  have done_inv: "rx_refs_inv c n mp vis' unv (?done w) s'" if "rx_refs_inv c n mp vis' unv w s'" for w s' vis'
    using that by (rule rx_refs_inv_queues) (simp_all add: queues_update)
  show ?thesis
  proof (cases "wants_status_updates ?l = 2 \<or> cl_rdIndex ?l = cl_wrIndex ?l")
    case True
    have w: "rx_refs_inv c n mp vis unv (update_client i (\<lambda>l. l\<lparr>wants_status_updates := 1\<rparr>) v) s"
      using inv by (rule rx_refs_inv_queues) (simp_all add: queues_update)
    show ?thesis
      using True inv w done_inv [OF w] by (auto simp: serve_frame_req_def Let_def)
  next
    case False
    let ?buf = "cl_fifo ?l ! cl_rdIndex ?l"
    let ?w = "update_client i (\<lambda>l. l\<lparr>cl_rdIndex := ring_next (num_mii_rx_buf c) (cl_rdIndex ?l)\<rparr>) v"
    note wf = rx_refs_invD(1) [OF inv] and pool = rx_refs_invD(2) [OF inv]
      and u = rx_refs_invD(3) [OF inv] and rd = rx_refs_invD(4,5) [OF inv]
      and leak = rx_refs_invD(6) [OF inv] and live = rx_refs_invD(7) [OF inv]
    have ne: "cl_rdIndex ?l \<noteq> cl_wrIndex ?l" using False by simp
    note take = take_packet_refs [OF wf i ne refl refl]
    have wfw: "server_wf c n ?w" and r: "\<And>b. refs n v b = refs n ?w b + (if b = ?buf then 1 else 0)"
      by (rule take(1), rule take(3))
    obtain h where h: "?buf = buf_of_hdr h" "(h, False) \<in> set vis"
      "tcount_of s h = of_nat (refs n v ?buf) - 1" "refs n v ?buf < 2 ^ 32"
      using live [of ?buf] r [of ?buf] by auto
    have tc: "mii_packet_get_tcount s ?buf = of_nat (refs n ?w ?buf)"
      using h(1,3) r [of ?buf] by (simp add: tcount_of_def)
    have "\<exists>s' vis'. (case get_and_dec_transmit_count s ?buf of (remaining, s) \<Rightarrow>
        if remaining = 0 then mii_free s ?buf else Some s) = Some s' \<and> rx_refs_inv c n mp vis' unv ?w s'"
    proof (cases "refs n ?w ?buf = 0")
      case True
      have "get_and_dec_transmit_count s ?buf = (0, s)"
        using tc True by (simp add: get_and_dec_transmit_count_def Let_def)
      moreover have "\<exists>s' vis'. mii_free s (buf_of_hdr h) = Some s' \<and> rx_refs_inv c n mp vis' unv ?w s'"
      proof (rule release_packet [OF wfw pool u _ _ h(2)])
        show "length (rdptr_lp ?w) = 1" "rdptr_lp ?w ! 0 = hd (map fst unv @ [wrptr (pools s mp)])"
          using rd by simp_all
        show "refs n ?w (buf_of_hdr h) = 0" using True h(1) by simp
        show "f \<or> 0 < refs n ?w (buf_of_hdr g)" if "(g, f) \<in> set vis" "g \<noteq> h" for g f
          using leak [OF that(1)] r [of "buf_of_hdr g"] that(2) h(1) by simp
        show "\<exists>g. buf = buf_of_hdr g \<and> (g, False) \<in> set vis \<and> tcount_of s g = of_nat (refs n ?w buf) - 1
            \<and> refs n ?w buf < 2 ^ 32" if "0 < refs n ?w buf" for buf
          using live [of buf] r [of buf] that True by auto
      qed
      ultimately show ?thesis using h(1) by simp
    next
      case False
      have small: "refs n ?w ?buf < 2 ^ 32" using h(4) r [of ?buf] by simp
      then have nz: "(of_nat (refs n ?w ?buf) :: word32) \<noteq> 0"
        using False by (simp add: word_of_nat_eq_0_iff nat_dvd_not_less)
      let ?s = "mii_packet_set_tcount s ?buf (of_nat (refs n ?w ?buf) - 1)"
      have g: "get_and_dec_transmit_count s ?buf = (of_nat (refs n ?w ?buf), ?s)"
        using tc nz by (simp add: get_and_dec_transmit_count_def Let_def)
      have hq: "h \<in> fst ` set (vis @ unv)" using h(2) by force
      have "rx_refs_inv c n mp vis unv ?w ?s"
        unfolding rx_refs_inv_def
      proof (intro conjI)
        show "server_wf c n ?w" "\<forall>x \<in> set unv. \<not> snd x" by fact+
        show "length (rdptr_lp ?w) = 1" using rd by simp
        show "pool_inv ?s mp (vis @ unv)" unfolding h(1) by (rule field_pool_inv [OF pool hq])
        show "rdptr_lp ?w ! 0 = hd (map fst unv @ [wrptr (pools ?s mp)])" using rd by simp
        show "\<forall>g f. (g, f) \<in> set vis \<longrightarrow> f \<or> 0 < refs n ?w (buf_of_hdr g)"
        proof -
          have "f \<or> 0 < refs n ?w (buf_of_hdr g)" if "(g, f) \<in> set vis" for g f
            using that leak [of g f] r [of "buf_of_hdr g"] False h(1) by (auto split: if_splits)
          then show ?thesis by blast
        qed
        show "\<forall>buf. 0 < refs n ?w buf \<longrightarrow> (\<exists>g. buf = buf_of_hdr g \<and> (g, False) \<in> set vis \<and>
            tcount_of ?s g = of_nat (refs n ?w buf) - 1 \<and> refs n ?w buf < 2 ^ 32)"
        proof (intro allI impI)
          fix buf assume b: "0 < refs n ?w buf"
          then obtain g where g: "buf = buf_of_hdr g" "(g, False) \<in> set vis"
            "tcount_of s g = of_nat (refs n v buf) - 1" "refs n v buf < 2 ^ 32"
            using live [of buf] r [of buf] by auto
          show "\<exists>g. buf = buf_of_hdr g \<and> (g, False) \<in> set vis \<and>
            tcount_of ?s g = of_nat (refs n ?w buf) - 1 \<and> refs n ?w buf < 2 ^ 32"
          proof (cases "g = h")
            case True
            then have "tcount_of ?s g = of_nat (refs n ?w buf) - 1"
              using h(1) g(1) by (simp add: tcount_of_def)
            then show ?thesis using g r [of buf] by auto
          next
            case False
            have "tcount_of ?s g = tcount_of s g"
              unfolding tcount_of_def h(1) using g(2) False
              by (intro field_set_other [OF pool _ hq]) force+
            then show ?thesis using g r [of buf] False h(1) by auto
          qed
        qed
      qed
      then show ?thesis using g nz by auto
    qed
    then obtain s' vis' where s': "(case get_and_dec_transmit_count s ?buf of (remaining, s) \<Rightarrow>
        if remaining = 0 then mii_free s ?buf else Some s) = Some s'" "rx_refs_inv c n mp vis' unv ?w s'"
      by blast
    show ?thesis
      using False s' done_inv [OF s'(2)]
      by (auto simp: serve_frame_req_def Let_def split: prod.splits)
  qed
qed

lemma process_received_frame_inv:
  assumes inv: "rx_refs_inv c n mp vis ((h, False) # unv) v s" and nf: "\<not> port_forwarding c" and n: "n < 2 ^ 32"
    and v': "v' = v\<lparr>rdptr_lp := (rdptr_lp v)[0 := mii_update_my_rdptr s mp (rdptr_lp v ! 0)]\<rparr>"
  shows "\<exists>w s' outs vis'. process_received_frame c (buf_of_hdr h) n v' s = Some (w, s', outs)
    \<and> rx_refs_inv c n mp vis' unv w s'"
proof -
  let ?buf = "buf_of_hdr h" and ?q = "vis @ (h, False) # unv" and ?vis = "vis @ [(h, False)]"
  note wf = rx_refs_invD(1) [OF inv] and pool = rx_refs_invD(2) [OF inv]
    and u = rx_refs_invD(3) [OF inv] and rd = rx_refs_invD(4,5) [OF inv]
    and leak = rx_refs_invD(6) [OF inv] and live = rx_refs_invD(7) [OF inv]
  have pool': "pool_inv s mp (?vis @ unv)" using pool by simp
  have u': "\<forall>x \<in> set unv. \<not> snd x" using u by simp
  have d: "distinct (map fst ?q)" using pool_wf_distinct [OF pool_inv_wf [OF pool]] by simp
  have hq: "h \<in> fst ` set (?vis @ unv)" by simp
  have q: "queues v' = queues v" by (simp add: v')
  have wf': "server_wf c n v'" using wf queues_wf [OF q] by simp
  have r: "refs n v' = refs n v" using queues_refs [OF q] wf by (simp add: server_wf_def)
  have r0: "refs n v ?buf = 0"
  proof (rule ccontr)
    assume "refs n v ?buf \<noteq> 0"
    then have "(h, False) \<in> set vis" using live [of ?buf] by auto
    then show False using d by force
  qed
  have rd': "length (rdptr_lp v') = 1" "rdptr_lp v' ! 0 = hd (map fst unv @ [wrptr (pools s mp)])"
  proof -
    have "mii_update_my_rdptr s mp h = (map fst ?q @ [wrptr (pools s mp)]) ! Suc (length vis)"
      using mii_my_rdptr_walk(2) [OF pool, of "length vis"] by simp
    also have "\<dots> = hd (map fst unv @ [wrptr (pools s mp)])"
      by (cases unv) (simp_all add: nth_append)
    finally show "rdptr_lp v' ! 0 = hd (map fst unv @ [wrptr (pools s mp)])" using rd by (simp add: v')
    show "length (rdptr_lp v') = 1" using rd by (simp add: v')
  qed
  obtain w t outs where o: "(if mii_packet_get_filter_result s ?buf \<noteq> 0
      then fold (offer_packet c (mii_packet_get_filter_result s ?buf) ?buf) [0..<n] (v', 0, [])
      else (v', 0, [])) = (w, t, outs)" by (metis prod_cases3)
  have w: "server_wf c n w" "rdptr_lp w = rdptr_lp v'" "t \<le> n"
    "\<And>b. refs n w b = refs n v b + (if b = ?buf then t else 0)"
    using offer_all_refs [OF wf' le_refl, of "mii_packet_get_filter_result s ?buf" ?buf w t outs] o wf' r
    by (auto split: if_splits)
  have p: "process_received_frame c ?buf n v' s =
      (if t = 0 then map_option (\<lambda>s. (w, s, outs)) (mii_free s ?buf)
       else Some (w, mii_packet_set_tcount s ?buf (of_nat t - 1), outs))"
    unfolding process_received_frame_def Let_def o using nf by simp
  have leak': "f \<or> 0 < refs n w (buf_of_hdr g)" if "(g, f) \<in> set ?vis" "g \<noteq> h" for g f
    using that leak [of g f] w(4) [of "buf_of_hdr g"] by auto
  have live': "\<exists>g. buf = buf_of_hdr g \<and> (g, False) \<in> set vis \<and> g \<noteq> h \<and>
      tcount_of s g = of_nat (refs n w buf) - 1 \<and> refs n w buf < 2 ^ 32"
    if b: "0 < refs n w buf" "buf \<noteq> ?buf" for buf
  proof -
    have "refs n w buf = refs n v buf" using w(4) [of buf] b(2) by simp
    then obtain g where "buf = buf_of_hdr g" "(g, False) \<in> set vis"
      "tcount_of s g = of_nat (refs n w buf) - 1" "refs n w buf < 2 ^ 32"
      using live [of buf] b(1) by auto
    then show ?thesis using b(2) by auto
  qed
  show ?thesis
  proof (cases "t = 0")
    case True
    have "\<exists>s' vis'. mii_free s (buf_of_hdr h) = Some s' \<and> rx_refs_inv c n mp vis' unv w s'"
    proof (rule release_packet [OF w(1) pool' u' _ _ _ _ leak'])
      show "length (rdptr_lp w) = 1" "rdptr_lp w ! 0 = hd (map fst unv @ [wrptr (pools s mp)])"
        using rd' by (simp_all add: w(2))
      show "(h, False) \<in> set ?vis" by simp
      show "refs n w (buf_of_hdr h) = 0" using w(4) [of ?buf] r0 True by simp
      then have ne: "buf \<noteq> ?buf" if "0 < refs n w buf" for buf using that by auto
      show "\<exists>g. buf = buf_of_hdr g \<and> (g, False) \<in> set ?vis \<and> tcount_of s g = of_nat (refs n w buf) - 1
          \<and> refs n w buf < 2 ^ 32" if "0 < refs n w buf" for buf
        using live' [OF that ne [OF that]] by auto
    qed
    then show ?thesis using p True by auto
  next
    case False
    let ?s = "mii_packet_set_tcount s ?buf (of_nat t - 1)"
    have rb: "refs n w ?buf = t" using w(4) [of ?buf] r0 by simp
    have "rx_refs_inv c n mp ?vis unv w ?s"
      unfolding rx_refs_inv_def
    proof (intro conjI)
      show "server_wf c n w" by (rule w(1))
      show "\<forall>x \<in> set unv. \<not> snd x" by (rule u')
      show "pool_inv ?s mp (?vis @ unv)" by (rule field_pool_inv [OF pool' hq])
      show "length (rdptr_lp w) = 1" "rdptr_lp w ! 0 = hd (map fst unv @ [wrptr (pools ?s mp)])"
        using rd' by (simp_all add: w(2))
      show "\<forall>g f. (g, f) \<in> set ?vis \<longrightarrow> f \<or> 0 < refs n w (buf_of_hdr g)"
      proof (intro allI impI)
        fix g f assume "(g, f) \<in> set ?vis"
        then show "f \<or> 0 < refs n w (buf_of_hdr g)"
          using leak' [of g f] rb False by (cases "g = h") auto
      qed
      show "\<forall>buf. 0 < refs n w buf \<longrightarrow> (\<exists>g. buf = buf_of_hdr g \<and> (g, False) \<in> set ?vis \<and>
          tcount_of ?s g = of_nat (refs n w buf) - 1 \<and> refs n w buf < 2 ^ 32)"
      proof (intro allI impI)
        fix buf assume b: "0 < refs n w buf"
        show "\<exists>g. buf = buf_of_hdr g \<and> (g, False) \<in> set ?vis \<and>
          tcount_of ?s g = of_nat (refs n w buf) - 1 \<and> refs n w buf < 2 ^ 32"
        proof (cases "buf = ?buf")
          case True
          have "tcount_of ?s h = of_nat t - 1" by (simp add: tcount_of_def)
          then show ?thesis using True rb w(3) n by auto
        next
          case False
          obtain g where g: "buf = buf_of_hdr g" "(g, False) \<in> set vis" "g \<noteq> h"
            "tcount_of s g = of_nat (refs n w buf) - 1" "refs n w buf < 2 ^ 32"
            using live' [OF b False] by blast
          have "tcount_of ?s g = tcount_of s g"
            unfolding tcount_of_def using g(2,3) by (intro field_set_other [OF pool' _ hq]) force+
          then show ?thesis using g by auto
        qed
      qed
    qed
    then show ?thesis using p False by auto
  qed
qed

lemma mii_get_my_next_buf_pos:
  "pool_inv s mp q \<Longrightarrow> h \<in> fst ` set q \<Longrightarrow> buf_of_hdr h \<noteq> 0"
  using mempool.inv_nonneg [of s mp q h] by (simp add: buf_of_hdr_def sizeof_malloc_hdr_def)

lemma rx_poll_inv:
  assumes inv: "rx_refs_inv c n mp vis unv v s" and n: "n < 2 ^ 32"
    and c: "num_ports c = 1" "\<not> rx_hp_queue c"
  shows "\<exists>v' s' links' outs vis' unv'. rx_poll c rxmem_hp [mp] n v s links = Some (v', s', links', outs)
    \<and> rx_refs_inv c n mp vis' unv' v' s'"
proof -
  note pool = rx_refs_invD(2) [OF inv] and rd = rx_refs_invD(4,5) [OF inv]
  have nf: "\<not> port_forwarding c" using c(1) by (simp add: port_forwarding_def)
  have "\<exists>w s' outs vis' unv'. poll_pools c n False [mp] [0] v s = Some (w, s', outs)
      \<and> rx_refs_inv c n mp vis' unv' w s'"
  proof (cases unv)
    case Nil
    then have "mii_get_my_next_buf s mp (rdptr_lp v ! 0) = 0"
      using rd mii_my_rdptr_at_end by simp
    then show ?thesis using inv by auto
  next
    case (Cons x unv')
    obtain h where x: "x = (h, False)"
      using rx_refs_invD(3) [OF inv] by (cases x) (auto simp: Cons)
    have nx: "mii_get_my_next_buf s mp (rdptr_lp v ! 0) = buf_of_hdr h"
      using mii_my_rdptr_walk(1) [OF pool, of "length vis"] rd by (simp add: Cons x)
    show ?thesis
    proof (cases "mii_packet_get_stage s (buf_of_hdr h) = 1")
      case True
      have "buf_of_hdr h \<noteq> 0"
        by (rule mii_get_my_next_buf_pos [OF pool]) (simp add: Cons x)
      then have "poll_pools c n False [mp] [0] v s = process_received_frame c (buf_of_hdr h) n
          (v\<lparr>rdptr_lp := (rdptr_lp v)[0 := mii_update_my_rdptr s mp (rdptr_lp v ! 0)]\<rparr>) s"
        using True nx by simp
      then show ?thesis
        using process_received_frame_inv [OF _ nf n refl, of mp vis h unv' v s] inv
        by (fastforce simp: Cons x)
    next
      case False
      then show ?thesis using inv nx by auto
    qed
  qed
  then obtain w s' o1 vis' unv' where p: "poll_pools c n False [mp] [0] v s = Some (w, s', o1)"
    "rx_refs_inv c n mp vis' unv' w s'" by blast
  obtain w' links' o2 where f: "fold (status_of_port n) [0..<num_master_ports c] (w, links, []) = (w', links', o2)"
    by (metis prod_cases3)
  have "rx_refs_inv c n mp vis' unv' w' s'"
    using status_of_ports_queues [OF f] by (intro rx_refs_inv_queues [OF p(2)]) auto
  moreover have "[0..<num_ports c] = [0]" using c by simp
  then have "rx_poll c rxmem_hp [mp] n v s links = Some (w', s', links', o1 @ o2)"
    using p(1) f c(2) by (simp add: rx_poll_def del: poll_pools.simps)
  ultimately show ?thesis by blast
qed

lemma rx_command_inv:
  assumes inv: "rx_refs_inv c n mp vis unv v s" and i: "i < n"
  shows "\<exists>v' s' outs vis'. rx_command c env links i is_cmd cmd arg v s = Some (v', s', outs)
    \<and> rx_refs_inv c n mp vis' unv v' s'"
proof -
  obtain w outs where w: "service_link_cmd c env i is_cmd cmd arg v = (w, outs)" by fastforce
  have inv': "rx_refs_inv c n mp vis unv w s"
    using service_link_cmd_queues [OF w] by (intro rx_refs_inv_queues [OF inv]) auto
  obtain v' s' o2 vis' where "serve_frame_req c links i cmd w s = Some (v', s', o2)"
    "rx_refs_inv c n mp vis' unv v' s'"
    using serve_frame_req_inv [OF inv' i] by blast
  then have "rx_command c env links i is_cmd cmd arg v s =
      (if is_frame_req cmd then Some (v', s', map (Pair i) (outs @ o2))
       else Some (w, s, map (Pair i) outs))"
    by (simp add: rx_command_def w)
  then show ?thesis
    using inv' \<open>rx_refs_inv c n mp vis' unv v' s'\<close> by (cases "is_frame_req cmd") (simp; blast)+
qed

subsection \<open>The producers\<close>

text \<open>
  What the receive threads and the filter may do to the memory while the server runs: publish the
  packet at the write pointer, and write anything that is not the transmit counter of a published
  packet, as long as the pool stays well formed.
\<close>

definition producer_step :: "addr \<Rightarrow> pool_queue \<Rightarrow> ram \<Rightarrow> pool_queue \<Rightarrow> ram \<Rightarrow> bool" where
  "producer_step mp q s q' s' \<longleftrightarrow>
     pool_inv s' mp q' \<and>
     (q' = q \<and> wrptr (pools s' mp) = wrptr (pools s mp) \<or> q' = q @ [(wrptr (pools s mp), False)]) \<and>
     (\<forall>h \<in> fst ` set q. tcount_of s' h = tcount_of s h)"

text \<open>The steps of the receive thread and the filter are of this kind.\<close>

lemma mii_commit_producer_step:
  assumes inv: "pool_inv s mp q" and w: "w = wrptr (pools s mp)" and i: "hdr_info s w = mp"
    and e: "pool_start (pools s mp) \<le> e" "e < pool_end (pools s mp)" "4 dvd e"
    and room: "off (pools s mp) w + 48 \<le> off (pools s mp) e" "off (pools s mp) w + 48 \<le> pool_len (pools s mp)"
    and c: "mii_commit c s (buf_of_hdr w) e = (1, s')"
  shows "producer_step mp q s (commit_spec w q) s'"
proof -
  have "pool_inv s' mp (commit_spec w q)"
    using mii_commit_refines [OF inv w i e room(1) c] by (auto split: if_splits)
  moreover have "tcount_of s' h = tcount_of s h" if h: "h \<in> fst ` set q" for h
  proof -
    have "48 \<le> \<bar>h - w\<bar>"
      using off_wr_inner [OF pool_inv_wf [OF inv] _ h] room w by simp
    then show ?thesis
      using c by (auto simp: mii_commit_def Let_def tcount_of_def mii_packet_get_def mii_packet_set_def
          buf_of_hdr_def hdr_of_buf_def sizeof_malloc_hdr_def split: if_splits)
  qed
  ultimately show ?thesis by (simp add: producer_step_def commit_spec_def w)
qed

lemma field_producer_step:
  assumes inv: "pool_inv s mp q" and h: "h \<in> fst ` set q" and f: "f \<noteq> F_tcount"
  shows "producer_step mp q s q (mii_packet_set f s (buf_of_hdr h) x)"
proof -
  have "tcount_of (mii_packet_set f s (buf_of_hdr h) x) g = tcount_of s g" if "g \<in> fst ` set q" for g
    using field_set_other [OF inv that h, of F_tcount f x] f
    by (cases "g = h") (simp_all add: tcount_of_def)
  then show ?thesis using field_pool_inv [OF inv h] by (simp add: producer_step_def)
qed

text \<open>The packets of a pool are determined by the memory.\<close>

lemma chain_unique:
  "chain s mp p q w \<Longrightarrow> chain s mp p q' w \<Longrightarrow> w \<notin> fst ` set q \<Longrightarrow> w \<notin> fst ` set q' \<Longrightarrow> q = q'"
proof (induction q arbitrary: p q')
  case Nil
  then show ?case by (cases q') (auto simp: image_iff)
next
  case (Cons x q)
  obtain h f where x: "x = (h, f)" by (cases x)
  have "q' \<noteq> []" using Cons.prems x by auto
  then obtain y r where y: "q' = y # r" by (cases q') auto
  obtain g d where y': "y = (g, d)" by (cases y)
  have "x = y" using Cons.prems(1,2) by (simp add: x y y')
  moreover have "q = r"
    by (rule Cons.IH [of "\<bar>hdr_next s h\<bar>"]) (use Cons.prems x y y' in simp_all)
  ultimately show ?case by (simp add: y)
qed

lemma pool_wf_wr_fresh: "pool_wf s mp q \<Longrightarrow> wrptr (pools s mp) \<notin> fst ` set q"
  using pool_wf_distinct [of s mp q] by simp

lemma pool_inv_unique:
  assumes "pool_inv s mp q" "pool_inv s mp q'"
  shows "q = q'"
  by (rule chain_unique [OF pool_wf_chain pool_wf_chain pool_wf_wr_fresh pool_wf_wr_fresh])
    (rule pool_inv_wf [OF assms(1)] pool_inv_wf [OF assms(2)])+

lemma producer_step_inv:
  assumes inv: "rx_refs_inv c n mp vis unv v s" and p: "producer_step mp (vis @ unv) s q' s'"
  shows "\<exists>unv'. rx_refs_inv c n mp vis unv' v s'"
proof -
  note inv' = rx_refs_invD [OF inv]
  have t: "tcount_of s' h = tcount_of s h" if "(h, False) \<in> set vis" for h
    using p that by (force simp: producer_step_def)
  have keep: "rx_refs_inv c n mp vis u v s'"
    if "q' = vis @ u" "\<forall>x \<in> set u. \<not> snd x" "rdptr_lp v ! 0 = hd (map fst u @ [wrptr (pools s' mp)])" for u
    unfolding rx_refs_inv_def
    using inv'(1,4,6,7) that p t by (auto simp: producer_step_def) (metis t)+
  consider "q' = vis @ unv" "wrptr (pools s' mp) = wrptr (pools s mp)"
    | "q' = vis @ unv @ [(wrptr (pools s mp), False)]"
    using p by (auto simp: producer_step_def)
  then show ?thesis
  proof cases
    case 1
    then show ?thesis using keep [of unv] inv'(3,5) by auto
  next
    case 2
    have "rdptr_lp v ! 0 = hd (map fst (unv @ [(wrptr (pools s mp), False)]) @ [wrptr (pools s' mp)])"
      using inv'(5) by (cases unv) simp_all
    then show ?thesis using keep [of "unv @ [(wrptr (pools s mp), False)]"] 2 inv'(3) by auto
  qed
qed

subsection \<open>Runs of the server\<close>

type_synonym rx_config = "rx_server \<times> ram \<times> link_status_t"

text \<open>
  The server from its start: it answers commands of its \<open>n\<close> clients, or looks at the pool when
  there is none, while the producers work on the memory and the transmit server updates the
  link status.
\<close>

inductive rx_server_run :: "mac_config \<Rightarrow> nat \<Rightarrow> addr \<Rightarrow> rx_config \<Rightarrow> rx_config \<Rightarrow> bool"
  for c :: mac_config and n :: nat and mp :: addr and start :: rx_config where
  start: "rx_server_run c n mp start start"
| command: "rx_server_run c n mp start (v, s, links) \<Longrightarrow> i < n \<Longrightarrow>
     rx_command c env links i is_cmd cmd arg v s = Some (v', s', outs) \<Longrightarrow>
     rx_server_run c n mp start (v', s', links)"
| poll: "rx_server_run c n mp start (v, s, links) \<Longrightarrow>
     rx_poll c [] [mp] n v s links = Some (v', s', links', outs) \<Longrightarrow>
     rx_server_run c n mp start (v', s', links')"
| produce: "rx_server_run c n mp start (v, s, links) \<Longrightarrow> pool_inv s mp q \<Longrightarrow>
     producer_step mp q s q' s' \<Longrightarrow> rx_server_run c n mp start (v, s', links)"
| link: "rx_server_run c n mp start (v, s, links) \<Longrightarrow>
     rx_server_run c n mp start (v, s, ethernet_update_link_status p st links)"

lemma rx_server_run_inv:
  assumes run: "rx_server_run c n mp (v0, s0, l0) (v, s, links)"
    and i: "rx_refs_inv c n mp vis unv v0 s0"
    and n: "n < 2 ^ 32" and c: "num_ports c = 1" "\<not> rx_hp_queue c"
  shows "\<exists>vis unv. rx_refs_inv c n mp vis unv v s"
  using run
proof (induction "(v, s, links)" arbitrary: v s links)
  case start
  then show ?case using i by blast
next
  case (command v s links i env is_cmd cmd arg v' s' outs)
  then show ?case by (metis rx_command_inv option.inject prod.inject)
next
  case (poll v s links v' s' links' outs)
  then obtain vis unv where "rx_refs_inv c n mp vis unv v s" by blast
  from rx_poll_inv [OF this n c, of "[]" links] poll(3) show ?case by auto
next
  case (produce v s links q q' s')
  then obtain vis unv where inv: "rx_refs_inv c n mp vis unv v s" by blast
  have "q = vis @ unv"
    by (rule pool_inv_unique [OF produce(3) rx_refs_invD(2) [OF inv]])
  then show ?case using producer_step_inv [OF inv] produce(4) by blast
next
  case (link v s links p st)
  then show ?case by blast
qed

text \<open>At the start every queue is empty and the packets of the pool are all to be looked at.\<close>

definition fifos_ready :: "mac_config \<Rightarrow> rx_server \<Rightarrow> bool" where
  "fifos_ready c v \<longleftrightarrow> (\<forall>l \<in> set (link_status v). length (cl_fifo l) = num_mii_rx_buf c)"

lemma rx_server_init_links:
  assumes "v' = rx_server_init c s hp lp k v" "k \<le> length (link_status v)"
  shows "link_status v' = map (init_client c) (take k (link_status v)) @ drop k (link_status v) \<and>
    rdptr_lp v' = map (\<lambda>p. mii_init_my_rdptr s (lp ! p)) [0..<num_ports c]"
  using assms
proof (induction k arbitrary: v')
  case 0
  then show ?case by (simp add: rx_server_init_def)
next
  case (Suc k)
  let ?w = "rx_server_init c s hp lp k v"
  have v': "v' = (update_client k (init_client c) ?w)\<lparr>custom_filter_mask := (custom_filter_mask ?w)[k := 0]\<rparr>"
    using Suc.prems(1) by (simp add: rx_server_init_def)
  have k: "k < length (link_status v)" using Suc.prems(2) by simp
  have IH: "link_status ?w = map (init_client c) (take k (link_status v)) @ drop k (link_status v)"
    "rdptr_lp ?w = map (\<lambda>p. mii_init_my_rdptr s (lp ! p)) [0..<num_ports c]"
    using Suc.IH [OF refl] k by simp_all
  have "link_status v' = (link_status ?w)[k := init_client c (link_status ?w ! k)]"
    by (simp add: v' update_client_def)
  also have "\<dots> = map (init_client c) (take (Suc k) (link_status v)) @ drop (Suc k) (link_status v)"
    using k by (simp add: IH(1) nth_append list_update_append Cons_nth_drop_Suc [symmetric] take_Suc_conv_app_nth)
  finally show ?case using IH(2) by (simp add: v')
qed

lemma rx_server_init_inv:
  assumes inv: "pool_inv s mp q" and u: "\<forall>x \<in> set q. \<not> snd x"
    and v: "fifos_ready c v" "length (link_status v) = n" and b: "0 < num_mii_rx_buf c" and p: "num_ports c = 1"
  shows "rx_refs_inv c n mp [] q (rx_server_init c s [] [mp] n v) s"
proof -
  let ?v = "rx_server_init c s [] [mp] n v"
  have l: "link_status ?v = map (init_client c) (link_status v)" "rdptr_lp ?v = [mii_init_my_rdptr s mp]"
    using rx_server_init_links [OF refl, of n v c s "[]" "[mp]"] v(2) p by simp_all
  have wf: "server_wf c n ?v"
    using v b by (auto simp: server_wf_def client_wf_def l(1) fifos_ready_def init_client_def)
  have "client_list ?v i = []" if "i < n" for i
    using that v by (simp add: client_list_def l(1) init_client_def Let_def)
  then have r: "refs n ?v buf = 0" for buf by (simp add: refs_def)
  have "mii_init_my_rdptr s mp = hd (map fst q @ [wrptr (pools s mp)])"
    using chain_start [OF pool_wf_chain [OF pool_inv_wf [OF inv]]] by (simp add: mii_init_my_rdptr_def)
  then show ?thesis using wf inv u by (simp add: rx_refs_inv_def l(2) r)
qed

text \<open>C23: While the server of a build with one port and no high priority queue runs, with its
clients giving any commands, the receive threads and the filter publishing packets and the link
status changing at any moment: its next turn returns, whatever it is; every buffer that waits in
the queue of a client is a packet of the pool that has not been freed, and its transmit counter is
the number of queues it waits in minus one; and when no client waits for a packet and the server has
looked at every packet, the pool is empty, so no packet leaks.\<close>

theorem rx_server_refcount:
  assumes c: "num_ports c = 1" "\<not> rx_hp_queue c" "0 < num_mii_rx_buf c" and n: "n < 2 ^ 32"
    and pool: "pool_inv s0 mp q0" "\<forall>x \<in> set q0. \<not> snd x"
    and v0: "fifos_ready c v0" "length (link_status v0) = n"
    and run: "rx_server_run c n mp (rx_server_init c s0 [] [mp] n v0, s0, l0) (v, s, links)"
  shows "rx_poll c [] [mp] n v s links \<noteq> None \<and>
    (\<forall>env i is_cmd cmd arg. i < n \<longrightarrow> rx_command c env links i is_cmd cmd arg v s \<noteq> None) \<and>
    (\<exists>q. pool_inv s mp q \<and>
      (\<forall>i < n. \<forall>buf \<in> set (client_list v i). \<exists>h. buf = buf_of_hdr h \<and> (h, False) \<in> set q \<and>
         unat (mii_packet_get_tcount s buf) + 1 = refs n v buf) \<and>
      ((\<forall>i < n. client_list v i = []) \<and> rdptr_lp v ! 0 = wrptr (pools s mp) \<longrightarrow> q = []))"
proof -
  obtain vis unv where inv: "rx_refs_inv c n mp vis unv v s"
    using rx_server_run_inv [OF run rx_server_init_inv [OF pool v0 c(3,1)] n c(1,2)] by blast
  note I = rx_refs_invD [OF inv]
  have poll: "rx_poll c [] [mp] n v s links \<noteq> None"
    using rx_poll_inv [OF inv n c(1,2), of "[]" links] by force
  have cmd: "rx_command c env links i is_cmd cmd arg v s \<noteq> None" if "i < n" for env i is_cmd cmd arg
    using rx_command_inv [OF inv that, of env links is_cmd cmd arg] by force
  have live: "\<exists>h. buf = buf_of_hdr h \<and> (h, False) \<in> set (vis @ unv) \<and>
      unat (mii_packet_get_tcount s buf) + 1 = refs n v buf"
    if i: "i < n" and b: "buf \<in> set (client_list v i)" for i buf
  proof -
    have pos: "0 < refs n v buf"
      using i b by (auto simp: refs_def count_list_0_iff neq0_conv [symmetric] simp del: neq0_conv)
    obtain h where h: "buf = buf_of_hdr h" "(h, False) \<in> set vis"
      "tcount_of s h = of_nat (refs n v buf) - 1" "refs n v buf < 2 ^ 32"
      using I(7) [OF pos] by blast
    have "tcount_of s h = of_nat (refs n v buf - 1)"
      using h(3) pos by (simp add: of_nat_diff)
    then have "unat (mii_packet_get_tcount s buf) = refs n v buf - 1"
      using h(1,4) by (simp add: tcount_of_def unat_of_nat take_bit_nat_eq_self)
    then show ?thesis using h(1,2) pos by auto
  qed
  have none: "vis @ unv = []"
    if e: "\<forall>i < n. client_list v i = []" and r: "rdptr_lp v ! 0 = wrptr (pools s mp)"
  proof -
    have u: "unv = []"
      using I(5) r pool_wf_wr_fresh [OF pool_inv_wf [OF I(2)]] by (cases unv) auto
    have "refs n v buf = 0" for buf using e by (simp add: refs_def)
    then have f: "\<forall>x \<in> set vis. snd x" using I(6) by (metis prod.collapse less_irrefl)
    show ?thesis
    proof (cases vis)
      case Nil
      then show ?thesis by (simp add: u)
    next
      case (Cons x xs)
      then show ?thesis using f I(2) by (simp add: pool_inv_def)
    qed
  qed
  show ?thesis using poll cmd live none I(2) by blast
qed

text \<open>One client that selects with the mask 1; the three packets of the pool are classified.\<close>

definition example_client :: link_layer_status_t where
  "example_client =
     \<lparr>dropped_pkt_cnt = 0, notified = False, max_queue_size = 0, cl_rdIndex = 0, cl_wrIndex = 0,
      cl_fifo = replicate (num_mii_rx_buf default_config) 0, wants_status_updates = 0\<rparr>"

definition example_server :: rx_server where
  "example_server = \<lparr>custom_filter_mask = [0], link_status = [example_client], rdptr_hp = [], rdptr_lp = []\<rparr>"

definition example_env :: rx_env where
  "example_env = \<lparr>env_timer_offset_req = False, env_tile_id = 0, env_now = 0, env_mii_dropped = 0,
     env_filter_counts = \<lparr>ethernet_filtered_by_address = 0, ethernet_filtered_by_user_filter = 0,
       ethernet_filtered_by_length = 0, ethernet_filtered_by_bad_crc = 0\<rparr>\<rparr>"

definition example_classified :: ram where
  "example_classified = mii_packet_set_stage (mii_packet_set_filter_result example_pool 1052 1) 1052 1"

lemma example_start:
  "num_ports default_config = 1" "\<not> rx_hp_queue default_config" "0 < num_mii_rx_buf default_config"
  "fifos_ready default_config example_server" "length (link_status example_server) = 1"
  "\<forall>x \<in> set example_queue. \<not> snd x"
  by code_simp+

lemma example_classified_inv: "pool_inv example_classified 1024 example_queue"
proof -
  have b: "1052 = buf_of_hdr 1044" by (simp add: buf_of_hdr_def sizeof_malloc_hdr_def)
  have h: "1044 \<in> fst ` set example_queue" by (simp add: example_queue_def)
  show ?thesis
    unfolding example_classified_def b by (intro field_pool_inv example_pool_inv h)
qed

theorem rx_server_refcount_witness:
  "\<exists>v s outs. rx_poll default_config [] [1024] 1
       (fst (service_link_cmd default_config example_env 0 True ETHERNET_RX_CUSTOM_FILTER_SET 1
          (rx_server_init default_config example_classified [] [1024] 1 example_server)))
       example_classified (init_link_status default_config) = Some (v, s, init_link_status default_config, outs) \<and>
     client_list v 0 = [1052] \<and> mii_packet_get_tcount s 1052 = 0 \<and> refs 1 v 1052 = 1 \<and>
     rx_command default_config example_env (init_link_status default_config) 0 True ETHERNET_RX_FRAME_REQ 0 v s \<noteq> None"
proof -
  let ?c = default_config and ?l = "init_link_status default_config"
  let ?v0 = "rx_server_init ?c example_classified [] [1024] 1 example_server"
  let ?v1 = "fst (service_link_cmd ?c example_env 0 True ETHERNET_RX_CUSTOM_FILTER_SET 1 ?v0)"
  let ?start = "(?v0, example_classified, ?l)"
  have "rx_command ?c example_env ?l 0 True ETHERNET_RX_CUSTOM_FILTER_SET 1 ?v0 example_classified
      = Some (?v1, example_classified, map (Pair 0) (snd (service_link_cmd ?c example_env 0 True
          ETHERNET_RX_CUSTOM_FILTER_SET 1 ?v0)))"
    by (simp add: rx_command_def is_frame_req_def split: prod.split)
  then have run1: "rx_server_run ?c 1 1024 ?start (?v1, example_classified, ?l)"
    by (rule rx_server_run.command [OF rx_server_run.start zero_less_one])
  have "case rx_poll ?c [] [1024] 1 ?v1 example_classified ?l of None \<Rightarrow> False
      | Some (v, s, l, outs) \<Rightarrow> link_up l = [0] \<and> link_notify l = [0] \<and> client_list v 0 = [1052] \<and> refs 1 v 1052 = 1"
    by code_simp
  then obtain v s l outs where p: "rx_poll ?c [] [1024] 1 ?v1 example_classified ?l = Some (v, s, l, outs)"
    "link_up l = [0]" "link_notify l = [0]" "client_list v 0 = [1052]" "refs 1 v 1052 = 1"
    by (auto split: option.splits prod.splits)
  have l: "l = ?l"
    using p(2,3) by (cases l) (simp add: init_link_status_def default_config_def)
  have run2: "rx_server_run ?c 1 1024 ?start (v, s, ?l)"
    using rx_server_run.poll [OF run1 p(1)] by (simp add: l)
  note R = rx_server_refcount [OF example_start(1-3) _ example_classified_inv example_start(6,4,5) run2]
  have "mii_packet_get_tcount s 1052 = 0"
    using R p(4,5) by (auto simp: unat_eq_0)
  then show ?thesis using R p l by auto
qed

end
