(* ===== verification/Rx_Session.thy ===== *)
theory Rx_Session
  imports Rx_Client Rx_Server_Refs
begin

text \<open>
  The control tokens between the receive server and its clients. A notification is one \<open>END\<close> token;
  the same token answers the first half of a command when the client is already notified, and the
  server then notifies again after the command. The theory has the commands of
  \<open>ethernet_rx_client.xc\<close> and the request for data with the tokens on their way to the client, and
  shows that the two sides stay in step: no token is taken for another and none is left over.
\<close>

type_synonym link = "chan_out list \<times> rx_server"

subsection \<open>The client's calls\<close>

text \<open>\<open>chkct\<close>, \<open>inct\<close> and the input of words: \<open>None\<close> when something else is at the head of the channel.\<close>

fun await_end :: "chan_out list \<Rightarrow> chan_out list option" where
  "await_end (Ct_end # ts) = Some ts"
| "await_end _ = None"

fun input_words :: "nat \<Rightarrow> chan_out list \<Rightarrow> (word32 list \<times> chan_out list) option" where
  "input_words 0 ts = Some ([], ts)"
| "input_words (Suc k) (Out_word w # ts) = map_option (\<lambda>(ws, ts). (w # ws, ts)) (input_words k ts)"
| "input_words (Suc k) _ = None"

text \<open>What the server sends after the first half of a request, before it waits for the second.\<close>

definition link_ack :: "nat \<Rightarrow> bool \<Rightarrow> rx_server \<Rightarrow> chan_out list" where
  "link_ack i is_cmd v = (if \<not> notified (link_status v ! i) \<or> \<not> is_cmd then [Ct_end] else [])"

text \<open>
  A command with its argument and the number of words that the client reads. The first token must
  be there before the client sends the command, the second after it.
\<close>

definition send_cmd ::
  "mac_config \<Rightarrow> rx_env \<Rightarrow> nat \<Rightarrow> ethernet_protocol_t \<Rightarrow> word32 \<Rightarrow> nat \<Rightarrow> link \<Rightarrow> (word32 list \<times> link) option"
  where
  "send_cmd c env i cmd arg k = (\<lambda>(ts, v).
     (case await_end (ts @ link_ack i True v) of None \<Rightarrow> None
      | Some ts \<Rightarrow>
         (let (v', outs) = service_link_cmd c env i True cmd arg v
          in (case await_end (ts @ drop (length (link_ack i True v)) outs) of None \<Rightarrow> None
              | Some ts \<Rightarrow> map_option (\<lambda>(ws, ts). (ws, ts, v')) (input_words k ts)))))"

definition mac_set_drop_packets :: "mac_config \<Rightarrow> rx_env \<Rightarrow> nat \<Rightarrow> word32 \<Rightarrow> link \<Rightarrow> link option" where
  "mac_set_drop_packets c env i x l = map_option snd (send_cmd c env i ETHERNET_RX_DROP_PACKETS_SET x 0 l)"

definition mac_request_status_packets :: "mac_config \<Rightarrow> rx_env \<Rightarrow> nat \<Rightarrow> link \<Rightarrow> link option" where
  "mac_request_status_packets c env i l =
     map_option snd (send_cmd c env i ETHERNET_RX_WANTS_STATUS_UPDATES_SET 1 0 l)"

definition mac_set_queue_size :: "mac_config \<Rightarrow> rx_env \<Rightarrow> nat \<Rightarrow> word32 \<Rightarrow> link \<Rightarrow> link option" where
  "mac_set_queue_size c env i x l = map_option snd (send_cmd c env i ETHERNET_RX_QUEUE_SIZE_SET x 0 l)"

definition mac_set_custom_filter :: "mac_config \<Rightarrow> rx_env \<Rightarrow> nat \<Rightarrow> word32 \<Rightarrow> link \<Rightarrow> link option" where
  "mac_set_custom_filter c env i x l = map_option snd (send_cmd c env i ETHERNET_RX_CUSTOM_FILTER_SET x 0 l)"

text \<open>In a build that does not count packets the next two leave their arguments alone.\<close>

definition mac_get_link_counters ::
  "mac_config \<Rightarrow> rx_env \<Rightarrow> nat \<Rightarrow> word32 \<Rightarrow> link \<Rightarrow> (word32 \<times> link) option" where
  "mac_get_link_counters c env i dropped l =
     (if count_packets c
      then map_option (\<lambda>(ws, l). (ws ! 0, l)) (send_cmd c env i ETHERNET_RX_OVERFLOW_CNT_REQ 0 1 l)
      else Some (dropped, l))"

definition mac_get_global_counters ::
  "mac_config \<Rightarrow> rx_env \<Rightarrow> nat \<Rightarrow> word32 \<times> word32 \<times> word32 \<times> word32 \<times> word32 \<Rightarrow> link \<Rightarrow>
     ((word32 \<times> word32 \<times> word32 \<times> word32 \<times> word32) \<times> link) option" where
  "mac_get_global_counters c env i counters l =
     (if count_packets c
      then map_option (\<lambda>(ws, l). ((ws ! 0, ws ! 1, ws ! 2, ws ! 3, ws ! 4), l))
             (send_cmd c env i ETHERNET_RX_OVERFLOW_MII_CNT_REQ 0 5 l)
      else Some (counters, l))"

text \<open>\<open>tile\<close> is the client's tile and \<open>now\<close> its timer when the answer is there.\<close>

definition mac_get_tile_timer_offset ::
  "mac_config \<Rightarrow> rx_env \<Rightarrow> nat \<Rightarrow> word32 \<Rightarrow> word32 \<Rightarrow> link \<Rightarrow> (word32 \<times> link) option" where
  "mac_get_tile_timer_offset c env i tile now l =
     map_option (\<lambda>(ws, l). (if ws ! 0 \<noteq> tile then ws ! 1 - now - 3 else 0, l))
       (send_cmd c env i ETHERNET_RX_TILE_TIMER_OFFSET_REQ 0 2 l)"

text \<open>
  The start of \<open>ethernet_unified_get_data\<close>: the client waits for its notification, asks, and gets the
  transaction.
\<close>

fun transaction :: "chan_out list \<Rightarrow> (chan_out \<times> chan_out list) option" where
  "transaction (Slave items # ts) = Some (Slave items, ts)"
| "transaction _ = None"

definition request_data ::
  "mac_config \<Rightarrow> rx_env \<Rightarrow> link_status_t \<Rightarrow> nat \<Rightarrow> ethernet_protocol_t \<Rightarrow> link \<times> ram \<Rightarrow>
     (chan_out \<times> link \<times> ram) option" where
  "request_data c env links i Cmd = (\<lambda>((ts, v), s).
     (case await_end ts of None \<Rightarrow> None
      | Some ts \<Rightarrow>
         (case await_end (ts @ link_ack i False v) of None \<Rightarrow> None
          | Some ts \<Rightarrow>
             (case rx_command c env links i False Cmd 0 v s of None \<Rightarrow> None
              | Some (v', s', outs) \<Rightarrow>
                 (case await_end (ts @ drop (length (link_ack i False v)) (map snd outs)) of None \<Rightarrow> None
                  | Some ts \<Rightarrow> map_option (\<lambda>(t, ts). (t, (ts, v'), s')) (transaction ts))))))"

subsection \<open>What the server sends\<close>

definition cmd_reply :: "mac_config \<Rightarrow> rx_env \<Rightarrow> nat \<Rightarrow> ethernet_protocol_t \<Rightarrow> rx_server \<Rightarrow> word32 list" where
  "cmd_reply c env i cmd v =
     (let (address, filter, bad_length, bad_crc) = ethernet_get_filter_counts (env_filter_counts env)
      in if cmd = ETHERNET_RX_OVERFLOW_CNT_REQ \<and> count_packets c then [dropped_pkt_cnt (link_status v ! i)]
         else if cmd = ETHERNET_RX_OVERFLOW_MII_CNT_REQ \<and> count_packets c
         then [env_mii_dropped env, bad_length, address, filter, bad_crc]
         else if cmd = ETHERNET_RX_TILE_TIMER_OFFSET_REQ \<and> env_timer_offset_req env
         then [env_tile_id env, env_now env] else [])"

lemma service_link_cmd_sends:
  "snd (service_link_cmd c env i is_cmd cmd arg v) =
     link_ack i is_cmd v @ Ct_end # map Out_word (cmd_reply c env i cmd v) @
       (if notified (link_status v ! i) \<and> \<not> is_frame_req cmd then [Ct_end] else [])"
  by (cases cmd) (simp_all add: service_link_cmd_def link_ack_def cmd_reply_def is_frame_req_def Let_def
      split: prod.split)

lemma input_words_all [simp]: "input_words (length ws) (map Out_word ws @ ts) = Some (ws, ts)"
  by (induction ws) simp_all

lemmas input_words_only [simp] = input_words_all [where ts = "[]", simplified]

lemma await_end_append [simp]: "ts \<noteq> [] \<Longrightarrow> await_end (ts @ us) = map_option (\<lambda>r. r @ us) (await_end ts)"
  by (cases ts rule: await_end.cases) simp_all

text \<open>The tokens on their way to a client: its notification, if it is notified.\<close>

definition pending_tokens :: "nat \<Rightarrow> rx_server \<Rightarrow> chan_out list" where
  "pending_tokens i v = (if notified (link_status v ! i) then [Ct_end] else [])"

lemma send_cmd_in_step:
  assumes "\<not> is_frame_req cmd" "k = length (cmd_reply c env i cmd v)"
  shows "send_cmd c env i cmd arg k (pending_tokens i v, v) =
     Some (cmd_reply c env i cmd v, pending_tokens i v, fst (service_link_cmd c env i True cmd arg v))"
proof -
  obtain v' outs where o: "service_link_cmd c env i True cmd arg v = (v', outs)" by fastforce
  show ?thesis
    using assms service_link_cmd_sends [of c env i True cmd arg v]
    by (auto simp: send_cmd_def pending_tokens_def o link_ack_def)
qed

lemma service_frame_req:
  "is_frame_req cmd \<Longrightarrow> service_link_cmd c env i False cmd arg v = (v, [Ct_end, Ct_end])"
  by (auto simp: is_frame_req_def service_link_cmd_def)

lemma request_data_in_step:
  assumes f: "is_frame_req Cmd" and q: "cl_rdIndex (link_status v ! i) \<noteq> cl_wrIndex (link_status v ! i)"
    and n: "notified (link_status v ! i)" and w: "wants_status_updates (link_status v ! i) \<noteq> 2"
    and i: "i < length (link_status v)"
    and r: "rx_command c env links i False Cmd 0 v s = Some (v', s', outs)"
  shows "request_data c env links i Cmd ((pending_tokens i v, v), s) =
     Some (mac_rx_send_frame1 s (cl_fifo (link_status v ! i) ! cl_rdIndex (link_status v ! i)) Cmd,
           (pending_tokens i v', v'), s')"
proof -
  have t: "transaction (mac_rx_send_frame1 s b Cmd # ts) = Some (mac_rx_send_frame1 s b Cmd, ts)" for b ts
    by (simp add: mac_rx_send_frame1_def Let_def)
  show ?thesis
    using f q n w i r
    by (auto simp: t request_data_def pending_tokens_def link_ack_def rx_command_def service_frame_req
        serve_frame_req_def update_client_nth Let_def split: option.splits prod.splits if_splits)
qed

subsection \<open>Sessions\<close>

text \<open>The number of words that the client's function reads after a command.\<close>

definition cmd_words :: "mac_config \<Rightarrow> rx_env \<Rightarrow> ethernet_protocol_t \<Rightarrow> nat" where
  "cmd_words c env cmd =
     (if cmd = ETHERNET_RX_OVERFLOW_CNT_REQ \<and> count_packets c then 1
      else if cmd = ETHERNET_RX_OVERFLOW_MII_CNT_REQ \<and> count_packets c then 5
      else if cmd = ETHERNET_RX_TILE_TIMER_OFFSET_REQ \<and> env_timer_offset_req env then 2 else 0)"

lemma length_cmd_reply [simp]: "length (cmd_reply c env i cmd v) = cmd_words c env cmd"
  by (auto simp: cmd_reply_def cmd_words_def split: prod.split)

definition to_clients :: "outputs \<Rightarrow> (nat \<Rightarrow> chan_out list) \<Rightarrow> nat \<Rightarrow> chan_out list" where
  "to_clients outs chans j = chans j @ map snd (filter (\<lambda>p. fst p = j) outs)"

lemma to_clients_Nil [simp]: "to_clients [] chans = chans"
  by (simp add: to_clients_def fun_eq_iff)

lemma to_clients_append: "to_clients (a @ b) chans = to_clients b (to_clients a chans)"
  by (simp add: to_clients_def fun_eq_iff)

type_synonym session = "rx_server \<times> ram \<times> link_status_t \<times> (nat \<Rightarrow> chan_out list)"

text \<open>
  Runs of the server with \<open>n\<close> clients that use the functions above, except the request for status
  packets, while packets are produced and links change. The channels hold what a client has not
  read yet.
\<close>

inductive rx_session :: "mac_config \<Rightarrow> nat \<Rightarrow> addr \<Rightarrow> session \<Rightarrow> session \<Rightarrow> bool"
  for c :: mac_config and n :: nat and mp :: addr and start :: session where
  start: "rx_session c n mp start start"
| setting: "rx_session c n mp start (v, s, links, chans) \<Longrightarrow> i < n \<Longrightarrow>
     \<not> is_frame_req cmd \<Longrightarrow> cmd \<noteq> ETHERNET_RX_WANTS_STATUS_UPDATES_SET \<Longrightarrow>
     send_cmd c env i cmd arg (cmd_words c env cmd) (chans i, v) = Some (ws, ts, v') \<Longrightarrow>
     rx_session c n mp start (v', s, links, chans(i := ts))"
| data: "rx_session c n mp start (v, s, links, chans) \<Longrightarrow> i < n \<Longrightarrow> is_frame_req Cmd \<Longrightarrow>
     request_data c env links i Cmd ((chans i, v), s) = Some (t, (ts, v'), s') \<Longrightarrow>
     rx_session c n mp start (v', s', links, chans(i := ts))"
| poll: "rx_session c n mp start (v, s, links, chans) \<Longrightarrow>
     rx_poll c [] [mp] n v s links = Some (v', s', links', outs) \<Longrightarrow>
     rx_session c n mp start (v', s', links', to_clients outs chans)"
| produce: "rx_session c n mp start (v, s, links, chans) \<Longrightarrow> pool_inv s mp q \<Longrightarrow>
     producer_step mp q s q' s' \<Longrightarrow> rx_session c n mp start (v, s', links, chans)"
| link: "rx_session c n mp start (v, s, links, chans) \<Longrightarrow>
     rx_session c n mp start (v, s, ethernet_update_link_status p st links, chans)"

text \<open>A client is notified exactly when a packet waits for it, and the channel agrees.\<close>

definition client_in_step :: "link_layer_status_t \<Rightarrow> chan_out list \<Rightarrow> bool" where
  "client_in_step l ts \<longleftrightarrow> notified l = (cl_rdIndex l \<noteq> cl_wrIndex l) \<and> wants_status_updates l = 0 \<and>
     ts = (if notified l then [Ct_end] else [])"

definition in_step :: "nat \<Rightarrow> rx_server \<Rightarrow> (nat \<Rightarrow> chan_out list) \<Rightarrow> bool" where
  "in_step n v chans \<longleftrightarrow> n \<le> length (link_status v) \<and> (\<forall>i < n. client_in_step (link_status v ! i) (chans i))"

lemma in_step_pending: "in_step n v chans \<Longrightarrow> i < n \<Longrightarrow> chans i = pending_tokens i v"
  by (simp add: in_step_def client_in_step_def pending_tokens_def)

lemma service_link_cmd_link:
  assumes "cmd \<noteq> ETHERNET_RX_WANTS_STATUS_UPDATES_SET"
    and v': "v' = fst (service_link_cmd c env i is_cmd cmd arg v)" and i: "i < length (link_status v)"
  shows "length (link_status v') = length (link_status v)"
    "notified (link_status v' ! j) = notified (link_status v ! j)"
    "cl_rdIndex (link_status v' ! j) = cl_rdIndex (link_status v ! j)"
    "cl_wrIndex (link_status v' ! j) = cl_wrIndex (link_status v ! j)"
    "wants_status_updates (link_status v' ! j) = wants_status_updates (link_status v ! j)"
  using assms
  by (cases cmd; simp add: service_link_cmd_def update_client_nth Let_def split: prod.splits)+

lemma setting_in_step:
  assumes inv: "in_step n v chans" and i: "i < n" and cmd: "\<not> is_frame_req cmd"
    "cmd \<noteq> ETHERNET_RX_WANTS_STATUS_UPDATES_SET"
    and r: "send_cmd c env i cmd arg (cmd_words c env cmd) (chans i, v) = Some (ws, ts, v')"
  shows "in_step n v' (chans(i := ts))" "v' = fst (service_link_cmd c env i True cmd arg v)"
proof -
  have "send_cmd c env i cmd arg (cmd_words c env cmd) (pending_tokens i v, v) =
      Some (cmd_reply c env i cmd v, pending_tokens i v, fst (service_link_cmd c env i True cmd arg v))"
    by (rule send_cmd_in_step) (use cmd in simp_all)
  then have v': "v' = fst (service_link_cmd c env i True cmd arg v)" and ts: "ts = chans i"
    using r by (simp_all add: in_step_pending [OF inv i])
  show "v' = fst (service_link_cmd c env i True cmd arg v)" by (rule v')
  have "i < length (link_status v)" using inv i by (simp add: in_step_def)
  note L = service_link_cmd_link [OF cmd(2) v' this]
  show "in_step n v' (chans(i := ts))"
    using inv by (simp add: in_step_def client_in_step_def ts L)
qed

lemma data_in_step:
  assumes inv: "in_step n v chans" and i: "i < n" and f: "is_frame_req Cmd"
    and q: "cl_rdIndex (link_status v ! i) \<noteq> cl_wrIndex (link_status v ! i)"
    and r: "rx_command c env links i False Cmd 0 v s = Some (v', s', outs)"
  shows "request_data c env links i Cmd ((chans i, v), s) =
      Some (mac_rx_send_frame1 s (cl_fifo (link_status v ! i) ! cl_rdIndex (link_status v ! i)) Cmd,
            (pending_tokens i v', v'), s')"
    "in_step n v' (chans(i := pending_tokens i v'))"
proof -
  have l: "client_in_step (link_status v ! i) (chans i)" and n: "i < length (link_status v)"
    using inv i by (simp_all add: in_step_def)
  then have w: "notified (link_status v ! i)" "wants_status_updates (link_status v ! i) = 0"
    using q by (simp_all add: client_in_step_def)
  show "request_data c env links i Cmd ((chans i, v), s) =
      Some (mac_rx_send_frame1 s (cl_fifo (link_status v ! i) ! cl_rdIndex (link_status v ! i)) Cmd,
            (pending_tokens i v', v'), s')"
    unfolding in_step_pending [OF inv i]
    by (rule request_data_in_step [OF f q w(1) _ n r]) (simp add: w)
  show "in_step n v' (chans(i := pending_tokens i v'))"
    using r q w inv n
    by (auto simp: rx_command_def service_frame_req f serve_frame_req_def Let_def in_step_def client_in_step_def
        pending_tokens_def update_client_nth split: option.splits prod.splits if_splits)
qed

lemma offer_in_step:
  assumes "in_step n v chans" "i < n" "offer_packet c result buf i (v, t, outs) = (v', t', outs')"
  shows "\<exists>x. outs' = outs @ x \<and> in_step n v' (to_clients x chans)"
  using assms
  by (auto simp: offer_packet_def Let_def in_step_def client_in_step_def to_clients_def update_client_nth
      split: if_splits)

lemma offers_in_step:
  "in_step n v chans \<Longrightarrow> set js \<subseteq> {..<n} \<Longrightarrow> fold (offer_packet c result buf) js (v, t, outs) = (v', t', outs') \<Longrightarrow>
     \<exists>x. outs' = outs @ x \<and> in_step n v' (to_clients x chans)"
proof (induction js arbitrary: v t outs chans)
  case Nil
  then show ?case by auto
next
  case (Cons j js)
  obtain v1 t1 o1 where o: "offer_packet c result buf j (v, t, outs) = (v1, t1, o1)" by (metis prod_cases3)
  obtain x where x: "o1 = outs @ x" "in_step n v1 (to_clients x chans)"
    using offer_in_step [OF Cons.prems(1) _ o] Cons.prems(2) by auto
  then show ?case
    using Cons.IH [OF x(2), of t1 o1] Cons.prems(2,3) o by (force simp: to_clients_append)
qed

lemma received_in_step:
  assumes "in_step n v chans" "process_received_frame c buf n v s = Some (v', s', outs)"
  shows "in_step n v' (to_clients outs chans)"
proof -
  obtain w t o1 where w: "fold (offer_packet c (mii_packet_get_filter_result s buf) buf) [0..<n] (v, 0, []) = (w, t, o1)"
    by (metis prod_cases3)
  have "in_step n w (to_clients o1 chans)"
    using offers_in_step [OF assms(1) _ w] by (auto simp: subset_eq)
  then show ?thesis
    using assms w
    by (auto simp: process_received_frame_def Let_def split: if_splits prod.splits)
qed

lemma poll_pools_in_step:
  "in_step n v chans \<Longrightarrow> poll_pools c n False rxmem ps v s = Some (v', s', outs) \<Longrightarrow>
     in_step n v' (to_clients outs chans)"
proof (induction ps)
  case Nil
  then show ?case by auto
next
  case (Cons p ps)
  have m: "in_step n (v\<lparr>rdptr_lp := r\<rparr>) chans" for r
    using Cons.prems(1) by (simp add: in_step_def)
  show ?case
    using Cons received_in_step [OF m] by (auto simp: Let_def split: if_splits)
qed

lemma no_status:
  "in_step n v chans \<Longrightarrow> set js \<subseteq> {..<n} \<Longrightarrow> fold status_to_client js (v, outs) = (v, outs)"
  by (induction js) (auto simp: status_to_client_def in_step_def client_in_step_def)

lemma no_status_ports:
  "in_step n v chans \<Longrightarrow> \<exists>links'. fold (status_of_port n) ps (v, links, outs) = (v, links', outs)"
proof (induction ps arbitrary: links)
  case Nil
  then show ?case by simp
next
  case (Cons p ps)
  have "fold status_to_client [0..<n] (v, outs) = (v, outs)"
    by (rule no_status [OF Cons.prems]) auto
  then show ?case
    using Cons by (simp add: status_of_port_def Let_def split: prod.split)
qed

lemma poll_in_step:
  assumes inv: "in_step n v chans" and c: "\<not> rx_hp_queue c"
    and r: "rx_poll c [] [mp] n v s links = Some (v', s', links', outs)"
  shows "in_step n v' (to_clients outs chans)"
proof -
  obtain w t o2 where p: "poll_pools c n False [mp] [0..<num_ports c] v s = Some (w, t, o2)"
    using r c by (auto simp: rx_poll_def Let_def split: option.splits prod.splits)
  have w: "in_step n w (to_clients o2 chans)"
    by (rule poll_pools_in_step [OF inv p])
  obtain l where "fold (status_of_port n) [0..<num_master_ports c] (w, links, []) = (w, l, [])"
    using no_status_ports [OF w] by blast
  then have "v' = w" "outs = o2"
    using r c p by (simp_all add: rx_poll_def)
  then show ?thesis using w by simp
qed

lemma command_takes_packet:
  assumes wf: "server_wf c n v" and i: "i < n" and f: "is_frame_req Cmd"
    and q: "cl_rdIndex (link_status v ! i) \<noteq> cl_wrIndex (link_status v ! i)"
    and w: "wants_status_updates (link_status v ! i) \<noteq> 2"
    and r: "rx_command c env links i False Cmd 0 v s = Some (v', s', outs)"
  shows "client_list v i = cl_fifo (link_status v ! i) ! cl_rdIndex (link_status v ! i) # client_list v' i"
proof -
  let ?l = "link_status v ! i"
  have n: "i < length (link_status v)" and l: "client_wf c ?l"
    using wf i by (simp_all add: server_wf_def)
  have "cl_fifo (link_status v' ! i) = cl_fifo ?l"
    "cl_rdIndex (link_status v' ! i) = ring_next (num_mii_rx_buf c) (cl_rdIndex ?l)"
    "cl_wrIndex (link_status v' ! i) = cl_wrIndex ?l"
    using r q w n
    by (auto simp: rx_command_def service_frame_req f serve_frame_req_def Let_def update_client_nth
        split: option.splits prod.splits if_splits)
  then show ?thesis
    using ring_list_get [of "cl_rdIndex ?l" "cl_fifo ?l" "cl_wrIndex ?l"] l q
    by (simp add: client_list_def Let_def client_wf_def)
qed

lemma session_step:
  assumes "rx_session c n mp (v0, s0, l0, chans0) (v, s, links, chans)" "in_step n v0 chans0" "\<not> rx_hp_queue c"
  shows "in_step n v chans \<and> rx_server_run c n mp (v0, s0, l0) (v, s, links)"
  using assms(1)
proof (induction "(v, s, links, chans)" arbitrary: v s links chans)
  case start
  then show ?case using assms(2) by (simp add: rx_server_run.start)
next
  case (setting v s links chans i cmd env arg ws ts v')
  then have inv: "in_step n v chans" by simp
  note S = setting_in_step [OF inv setting(3-6)]
  have "rx_command c env links i True cmd arg v s =
      Some (v', s, map (Pair i) (snd (service_link_cmd c env i True cmd arg v)))"
    using S(2) setting(4) by (simp add: rx_command_def split: prod.split)
  then show ?case
    using S(1) setting(2,3) by (auto intro: rx_server_run.command)
next
  case (data v s links chans i Cmd env t ts v' s')
  then have inv: "in_step n v chans" by simp
  obtain ts' where "await_end (chans i) = Some ts'"
    using data(5) by (auto simp: request_data_def split: option.splits)
  then have q: "cl_rdIndex (link_status v ! i) \<noteq> cl_wrIndex (link_status v ! i)"
    using inv data(3) by (auto simp: in_step_def client_in_step_def split: if_splits)
  obtain w s1 outs where r: "rx_command c env links i False Cmd 0 v s = Some (w, s1, outs)"
    using data(5) by (auto simp: request_data_def split: option.splits)
  note D = data_in_step [OF inv data(3,4) q r]
  have "w = v'" "s1 = s'" "ts = pending_tokens i v'"
    using D(1) data(5) by auto
  then show ?case
    using D(2) r data(2,3) by (auto intro: rx_server_run.command)
next
  case (poll v s links chans v' s' links' outs)
  then show ?case
    using poll_in_step [OF _ assms(3) poll(3)] by (auto intro: rx_server_run.poll)
next
  case (produce v s links chans q q' s')
  then show ?case by (auto intro: rx_server_run.produce)
next
  case (link v s links chans p st)
  then show ?case by (auto intro: rx_server_run.link)
qed

lemma init_in_step:
  assumes "length (link_status v) = n"
  shows "in_step n (rx_server_init c s hp lp n v) (\<lambda>i. [])"
proof -
  have "link_status (rx_server_init c s hp lp n v) = map (init_client c) (link_status v)"
    using rx_server_init_links(1) [OF refl, of n v c s hp lp] assms by simp
  then show ?thesis
    using assms by (simp add: in_step_def client_in_step_def init_client_def)
qed

text \<open>C24: In every session of the receive server with its clients, of a build with one port and no
high priority queue: the channel to a client holds one token if a packet waits for the client and
nothing otherwise; a command other than the request for status packets is answered, at any moment,
with the words that belong to it and leaves the channel as it was; and a client for which packets
wait gets the oldest of them when it asks, and then has a token exactly if there are more.\<close>

theorem client_handshake:
  assumes c: "num_ports c = 1" "\<not> rx_hp_queue c" "0 < num_mii_rx_buf c" and n: "n < 2 ^ 32"
    and pool: "pool_inv s0 mp q0" "\<forall>x \<in> set q0. \<not> snd x"
    and v0: "fifos_ready c v0" "length (link_status v0) = n"
    and run: "rx_session c n mp (rx_server_init c s0 [] [mp] n v0, s0, l0, \<lambda>i. []) (v, s, links, chans)"
    and i: "i < n"
  shows "chans i = (if client_list v i = [] then [] else [Ct_end]) \<and>
    (\<forall>env cmd arg. \<not> is_frame_req cmd \<and> cmd \<noteq> ETHERNET_RX_WANTS_STATUS_UPDATES_SET \<longrightarrow>
       (\<exists>v'. send_cmd c env i cmd arg (cmd_words c env cmd) (chans i, v) =
          Some (cmd_reply c env i cmd v, chans i, v'))) \<and>
    (\<forall>env Cmd buf bufs. is_frame_req Cmd \<and> client_list v i = buf # bufs \<longrightarrow>
       (\<exists>v' s'. request_data c env links i Cmd ((chans i, v), s) =
          Some (mac_rx_send_frame1 s buf Cmd, (if bufs = [] then [] else [Ct_end], v'), s') \<and>
          client_list v' i = bufs))"
proof -
  have step: "in_step n v chans"
    and refs: "rx_server_run c n mp (rx_server_init c s0 [] [mp] n v0, s0, l0) (v, s, links)"
    using session_step [OF run init_in_step [OF v0(2)] c(2)] by auto
  obtain vis unv where inv: "rx_refs_inv c n mp vis unv v s"
    using rx_server_run_inv [OF refs rx_server_init_inv [OF pool v0 c(3,1)] n c(1,2)] by blast
  note wf = rx_refs_invD(1) [OF inv]
  have waits: "client_list w i = [] \<longleftrightarrow> cl_rdIndex (link_status w ! i) = cl_wrIndex (link_status w ! i)"
    if "server_wf c n w" for w
    using that i by (simp add: client_list_def Let_def server_wf_def client_wf_def ring_list_Nil_iff)
  have pending: "ts i = (if client_list w i = [] then [] else [Ct_end])"
    if "in_step n w ts" "server_wf c n w" for w ts
    using that(1) i waits [OF that(2)] by (simp add: in_step_def client_in_step_def)
  have cmd: "\<exists>v'. send_cmd c env i cmd arg (cmd_words c env cmd) (chans i, v) =
      Some (cmd_reply c env i cmd v, chans i, v')"
    if "\<not> is_frame_req cmd" for env cmd arg
    using send_cmd_in_step [OF that] by (simp add: in_step_pending [OF step i])
  have data: "\<exists>v' s'. request_data c env links i Cmd ((chans i, v), s) =
      Some (mac_rx_send_frame1 s buf Cmd, (if bufs = [] then [] else [Ct_end], v'), s') \<and> client_list v' i = bufs"
    if f: "is_frame_req Cmd" and q: "client_list v i = buf # bufs" for env Cmd buf bufs
  proof -
    obtain v' s' outs vis' where r: "rx_command c env links i False Cmd 0 v s = Some (v', s', outs)"
      and inv': "rx_refs_inv c n mp vis' unv v' s'"
      using rx_command_inv [OF inv i, of env links False Cmd 0] by blast
    have ne: "cl_rdIndex (link_status v ! i) \<noteq> cl_wrIndex (link_status v ! i)"
      using waits [OF wf] q by auto
    note D = data_in_step [OF step i f ne r]
    have "wants_status_updates (link_status v ! i) \<noteq> 2"
      using step i by (simp add: in_step_def client_in_step_def)
    from command_takes_packet [OF wf i f ne this r]
    have "buf = cl_fifo (link_status v ! i) ! cl_rdIndex (link_status v ! i)" "client_list v' i = bufs"
      using q by simp_all
    then show ?thesis
      using D(1) pending [OF D(2) rx_refs_invD(1) [OF inv']] by simp
  qed
  show ?thesis using pending [OF step wf] cmd data by blast
qed

theorem client_handshake_witness:
  "\<exists>v s outs v' s'. rx_poll default_config [] [1024] 1
       (fst (service_link_cmd default_config example_env 0 True ETHERNET_RX_CUSTOM_FILTER_SET 1
          (rx_server_init default_config example_classified [] [1024] 1 example_server)))
       example_classified (init_link_status default_config) = Some (v, s, init_link_status default_config, outs) \<and>
     to_clients outs (\<lambda>i. []) 0 = [Ct_end] \<and>
     request_data default_config example_env (init_link_status default_config) 0 ETHERNET_RX_FRAME_REQ
       (([Ct_end], v), s) = Some (mac_rx_send_frame1 s 1052 ETHERNET_RX_FRAME_REQ, ([], v'), s')"
proof -
  let ?c = default_config and ?l = "init_link_status default_config"
  let ?v0 = "rx_server_init ?c example_classified [] [1024] 1 example_server"
  let ?v1 = "fst (service_link_cmd ?c example_env 0 True ETHERNET_RX_CUSTOM_FILTER_SET 1 ?v0)"
  let ?start = "(?v0, example_classified, ?l, \<lambda>i. [])"
  have "cmd_words ?c example_env ETHERNET_RX_CUSTOM_FILTER_SET = length (cmd_reply ?c example_env 0 ETHERNET_RX_CUSTOM_FILTER_SET ?v0)"
    by simp
  note S = send_cmd_in_step [OF _ this, of 1]
  have "pending_tokens 0 ?v0 = []" "\<not> is_frame_req ETHERNET_RX_CUSTOM_FILTER_SET" by code_simp+
  then have "send_cmd ?c example_env 0 ETHERNET_RX_CUSTOM_FILTER_SET 1
      (cmd_words ?c example_env ETHERNET_RX_CUSTOM_FILTER_SET) ([], ?v0) =
      Some (cmd_reply ?c example_env 0 ETHERNET_RX_CUSTOM_FILTER_SET ?v0, [], ?v1)"
    using S by simp
  from rx_session.setting [OF rx_session.start zero_less_one _ _ this]
  have run1: "rx_session ?c 1 1024 ?start (?v1, example_classified, ?l, \<lambda>i. [])"
    by (simp add: is_frame_req_def fun_upd_idem)
  have "case rx_poll ?c [] [1024] 1 ?v1 example_classified ?l of None \<Rightarrow> False
      | Some (v, s, l, outs) \<Rightarrow> link_up l = [0] \<and> link_notify l = [0] \<and> client_list v 0 = [1052] \<and>
          map snd (filter (\<lambda>p. fst p = 0) outs) = [Ct_end]"
    by code_simp
  then obtain v s l outs where p: "rx_poll ?c [] [1024] 1 ?v1 example_classified ?l = Some (v, s, l, outs)"
    "link_up l = [0]" "link_notify l = [0]" "client_list v 0 = [1052]"
    "map snd (filter (\<lambda>p. fst p = 0) outs) = [Ct_end]"
    by (auto split: option.splits prod.splits)
  have l: "l = ?l"
    using p(2,3) by (cases l) (simp add: init_link_status_def default_config_def)
  have run2: "rx_session ?c 1 1024 ?start (v, s, ?l, to_clients outs (\<lambda>i. []))"
    using rx_session.poll [OF run1 p(1)] by (simp add: l)
  have o: "to_clients outs (\<lambda>i. []) 0 = [Ct_end]" using p(5) by (simp add: to_clients_def)
  note R = client_handshake [OF example_start(1-3) _ example_classified_inv example_start(6,4,5) run2 zero_less_one]
  have "\<exists>v' s'. request_data ?c example_env ?l 0 ETHERNET_RX_FRAME_REQ (([Ct_end], v), s) =
      Some (mac_rx_send_frame1 s 1052 ETHERNET_RX_FRAME_REQ, ([], v'), s')"
    using R p(4) o by (simp add: is_frame_req_def) blast
  then show ?thesis using p(1) o l by blast
qed

text \<open>
  Status packets break this. A client that asked for them is told of a link change, then of a packet,
  and has two tokens: its request for data takes the second for the acknowledgement and finds a token
  where the transaction should start.
\<close>

lemma status_packets_out_of_step:
  "let c = default_config; v0 = rx_server_init c example_classified [] [1024] 1 example_server;
       v1 = fst (service_link_cmd c example_env 0 True ETHERNET_RX_CUSTOM_FILTER_SET 1 v0);
       v2 = fst (service_link_cmd c example_env 0 True ETHERNET_RX_WANTS_STATUS_UPDATES_SET 1 v1);
       links = ethernet_update_link_status 0 1 (init_link_status c)
   in case rx_poll c [] [1024] 1 v2 example_pool links of None \<Rightarrow> False
      | Some (v, s, links, outs) \<Rightarrow>
          (case rx_poll c [] [1024] 1 v example_classified links of None \<Rightarrow> False
           | Some (v, s, links, outs') \<Rightarrow>
               map snd (outs @ outs') = [Ct_end, Ct_end] \<and>
               request_data c example_env links 0 ETHERNET_RX_FRAME_REQ (([Ct_end, Ct_end], v), s) = None)"
  by code_simp

subsection \<open>The client's settings\<close>

lemma client_settings:
  fixes env :: rx_env and i :: nat and v :: rx_server
  defines "ts \<equiv> pending_tokens i v"
  shows "mac_set_custom_filter c env i x (ts, v) =
      Some (ts, v\<lparr>custom_filter_mask := (custom_filter_mask v)[i := x]\<rparr>)"
    "mac_set_drop_packets c env i x (ts, v) =
      Some (ts, update_client i (\<lambda>l. l\<lparr>max_queue_size := (if x \<noteq> 0 then 1 else int (num_mii_rx_buf c))\<rparr>) v)"
    "mac_set_queue_size c env i x (ts, v) = Some (ts, update_client i (\<lambda>l. l\<lparr>max_queue_size := sint x\<rparr>) v)"
    "mac_request_status_packets c env i (ts, v) =
      Some (ts, update_client i (\<lambda>l. l\<lparr>wants_status_updates := 1\<rparr>) v)"
    "mac_get_link_counters c env i d (ts, v) =
      Some (if count_packets c then dropped_pkt_cnt (link_status v ! i) else d, ts, v)"
    "mac_get_global_counters c env i ds (ts, v) =
      Some (if count_packets c then let k = env_filter_counts env in
              (env_mii_dropped env, ethernet_filtered_by_length k, ethernet_filtered_by_address k,
               ethernet_filtered_by_user_filter k, ethernet_filtered_by_bad_crc k) else ds, ts, v)"
    "env_timer_offset_req env \<Longrightarrow> mac_get_tile_timer_offset c env i tile now (ts, v) =
      Some (if env_tile_id env \<noteq> tile then env_now env - now - 3 else 0, ts, v)"
  unfolding ts_def mac_set_custom_filter_def mac_set_drop_packets_def mac_set_queue_size_def
    mac_request_status_packets_def mac_get_link_counters_def mac_get_global_counters_def
    mac_get_tile_timer_offset_def
  by (simp_all add: send_cmd_in_step cmd_words_def is_frame_req_def service_link_cmd_def cmd_reply_def
      ethernet_get_filter_counts_def Let_def numeral_3_eq_3 numeral_2_eq_2)

text \<open>C27: After \<open>mac_set_queue_size\<close> with \<open>x\<close> a packet that a client's filter takes is queued for it
if fewer than \<open>x\<close> packets wait and the queue has a free entry; otherwise nothing is queued and the
number that \<open>mac_get_link_counters\<close> returns is one more. The packets that wait are never lost.\<close>

theorem client_queue_policy:
  assumes wf: "server_wf c n v" and i: "i < n" and c: "count_packets c"
    and f: "custom_filter_mask v ! i AND result \<noteq> 0"
    and set: "mac_set_queue_size c env i x (pending_tokens i v, v) = Some (ts, v1)"
    and offer: "offer_packet c result buf i (v1, t, outs) = (v2, t2, outs2)"
  shows "let waiting = client_list v i; dropped = dropped_pkt_cnt (link_status v ! i);
      room = (int (length waiting) < sint x \<and> length waiting < num_mii_rx_buf c - 1)
    in client_list v2 i = (if room then waiting @ [buf] else waiting) \<and>
       t2 = (if room then t + 1 else t) \<and>
       mac_get_link_counters c env i d (pending_tokens i v2, v2) =
         Some (if room then dropped else dropped + 1, pending_tokens i v2, v2)"
proof -
  let ?l = "link_status v ! i"
  have n: "i < length (link_status v)" and l: "length (cl_fifo ?l) = num_mii_rx_buf c"
      "cl_rdIndex ?l < num_mii_rx_buf c" "cl_wrIndex ?l < num_mii_rx_buf c"
    using wf i by (auto simp: server_wf_def client_wf_def)
  have v1: "v1 = update_client i (\<lambda>l. l\<lparr>max_queue_size := sint x\<rparr>) v"
    using set by (simp add: client_settings)
  have len: "length (client_list v i) = ring_count (num_mii_rx_buf c) (cl_rdIndex ?l) (cl_wrIndex ?l)"
    using l by (simp add: client_list_def Let_def)
  have size: "(let q = int (cl_wrIndex ?l) - int (cl_rdIndex ?l)
      in if q < 0 then q + int (num_mii_rx_buf c) else q) = int (length (client_list v i))"
    using l by (simp add: len ring_count_def Let_def of_nat_diff)
  have full: "ring_next (num_mii_rx_buf c) (cl_wrIndex ?l) = cl_rdIndex ?l \<longleftrightarrow>
      \<not> length (client_list v i) < num_mii_rx_buf c - 1"
    using ring_full_iff [of "cl_rdIndex ?l" "num_mii_rx_buf c" "cl_wrIndex ?l"] l
    by (auto simp: len ring_count_def)
  have put: "ring_list ((cl_fifo ?l)[cl_wrIndex ?l := buf]) (cl_rdIndex ?l)
        (ring_next (num_mii_rx_buf c) (cl_wrIndex ?l)) = client_list v i @ [buf]"
    if "ring_next (num_mii_rx_buf c) (cl_wrIndex ?l) \<noteq> cl_rdIndex ?l"
    using ring_list_put [of "cl_rdIndex ?l" "cl_fifo ?l" "cl_wrIndex ?l" buf] l that
    by (simp add: client_list_def Let_def)
  show ?thesis
    using offer f n size full put
    by (auto simp: offer_packet_def v1 update_client_nth client_settings c Let_def client_list_def
        split: if_splits)
qed

definition example_listener :: rx_server where
  "example_listener = fst (service_link_cmd default_config example_env 0 True ETHERNET_RX_CUSTOM_FILTER_SET 1
     (rx_server_init default_config example_classified [] [1024] 1 example_server))"

theorem client_queue_policy_witness:
  "\<exists>v1 v2 t2 outs. mac_set_queue_size default_config example_env 0 0 ([], example_listener) = Some ([], v1) \<and>
     offer_packet default_config 1 1052 0 (v1, 0, []) = (v2, t2, outs) \<and> t2 = 0 \<and> client_list v2 0 = [] \<and>
     mac_get_link_counters default_config example_env 0 7 (pending_tokens 0 v2, v2) =
       Some (1, pending_tokens 0 v2, v2)"
proof -
  have e: "server_wf default_config 1 example_listener" "count_packets default_config"
    "custom_filter_mask example_listener ! 0 AND 1 \<noteq> 0" "client_list example_listener 0 = []"
    "dropped_pkt_cnt (link_status example_listener ! 0) = 0" "pending_tokens 0 example_listener = []"
    by code_simp+
  obtain v1 where v1: "mac_set_queue_size default_config example_env 0 0 (pending_tokens 0 example_listener, example_listener) =
      Some (pending_tokens 0 example_listener, v1)"
    by (simp add: client_settings)
  obtain v2 t2 outs where o: "offer_packet default_config 1 1052 0 (v1, 0, []) = (v2, t2, outs)" by (metis prod_cases3)
  show ?thesis
    using client_queue_policy [OF e(1) zero_less_one e(2,3) v1 o, of 7] v1 o by (auto simp: e(4,5,6))
qed

end
