(* ===== verification/Board_Support.thy ===== *)
theory Board_Support
  imports Config Smi
begin

text \<open>
  The headers of \<open>module_ethernet_board_support\<close>, which pick the ports of a board. Each header is a
  function on the macros defined so far, the record \<open>macros\<close>; the initialisers of the driver's
  structures are \<open>None\<close> when a macro they name is not defined. The boards whose ports come from
  \<open>platform.h\<close> take them from the macros defined before.
\<close>

datatype slot = Star | Triangle | Circle | Square

datatype port_macro =
    ETH_RXCLK | ETH_RXD | ETH_TXD | ETH_RXDV | ETH_TXEN | ETH_TXCLK | ETH_MDIOC | ETH_MDIOFAKE
  | ETH_MDIO | ETH_MDC | ETH_INT | ETH_ERR | ETH_FAKE | ETH_RST_N | ETH_RSTN | ETH_RST_N_MDIO | ETH_RXER

datatype resource =
    PORT_1B | PORT_1C | PORT_1F | PORT_1G | PORT_1I | PORT_1J | PORT_1K | PORT_1L | PORT_1M | PORT_1N
  | PORT_1O | PORT_1P | PORT_4A | PORT_4B | PORT_4C | PORT_4D | PORT_4E | PORT_4F | PORT_8A | PORT_8C
  | CLKBLK_1 | CLKBLK_2

text \<open>A resource of a tile: \<open>on tile[n]: r\<close>.\<close>

type_synonym placed = "nat \<times> resource"

record macros =
  use_slot :: "slot list"
  default_tile :: "nat option"
  default_phy_address :: "int option"
  def_smi_combine :: "bool option"
  def_smi_mdc_bit :: "nat option"
  def_smi_mdio_bit :: "nat option"
  def_smi_mdio_rest :: "word32 option"
  def_smi_reset_mux :: "bool option"
  clkblk_0 :: "placed option"
  clkblk_1 :: "placed option"
  port_eth :: "port_macro \<Rightarrow> placed option"

fun define_ports :: "nat \<Rightarrow> (port_macro \<times> resource) list \<Rightarrow> macros \<Rightarrow> macros" where
  "define_ports t [] m = m"
| "define_ports t ((x, r) # ps) m = define_ports t ps (m\<lparr>port_eth := (port_eth m)(x := Some (t, r))\<rparr>)"

subsection \<open>The slots of a slice kit\<close>

text \<open>The two layouts of the header: one multi-bit management port, or two single-bit ports.\<close>

definition combined_slot :: "nat \<Rightarrow> macros \<Rightarrow> macros" where
  "combined_slot t m =
     define_ports t
       [(ETH_RXCLK, PORT_1B), (ETH_RXD, PORT_4A), (ETH_TXD, PORT_4B), (ETH_RXDV, PORT_1C),
        (ETH_TXEN, PORT_1F), (ETH_TXCLK, PORT_1G), (ETH_MDIOC, PORT_4C), (ETH_MDIOFAKE, PORT_8A),
        (ETH_ERR, PORT_4D)]
       (m\<lparr>def_smi_combine := Some True, def_smi_mdc_bit := Some 0, def_smi_mdio_bit := Some 1,
          default_tile := Some t\<rparr>)"

definition separate_slot :: "nat \<Rightarrow> macros \<Rightarrow> macros" where
  "separate_slot t m =
     define_ports t
       [(ETH_RXCLK, PORT_1J), (ETH_RXD, PORT_4E), (ETH_TXD, PORT_4F), (ETH_RXDV, PORT_1K),
        (ETH_TXEN, PORT_1L), (ETH_TXCLK, PORT_1I), (ETH_MDIO, PORT_1M), (ETH_MDC, PORT_1N),
        (ETH_INT, PORT_1O), (ETH_ERR, PORT_1P)]
       (m\<lparr>default_tile := Some t\<rparr>)"

definition slicekit_slots :: "macros \<Rightarrow> macros" where
  "slicekit_slots m =
     (if Star \<in> set (use_slot m) then combined_slot 0 m
      else if Triangle \<in> set (use_slot m) then separate_slot 0 m
      else if Circle \<in> set (use_slot m) then separate_slot 1 m
      else if Square \<in> set (use_slot m) then combined_slot 1 m
      else separate_slot 1 m)"

text \<open>
  Including \<open>ethernet_conf.h\<close> defines the slots the application asks for. The header of the L2 kit
  includes it; the one of the L16 kit tests the macro \<open>__ethernet_conf_h_exists_\<close>, which the
  build does not define, so it does not.
\<close>

definition include_conf :: "slot list \<Rightarrow> macros \<Rightarrow> macros" where
  "include_conf conf m = m\<lparr>use_slot := use_slot m @ conf\<rparr>"

definition slicekit_l2 :: "slot list \<Rightarrow> macros \<Rightarrow> macros" where
  "slicekit_l2 conf m = slicekit_slots ((include_conf conf m)\<lparr>default_phy_address := Some 0\<rparr>)"

definition slicekit_l16 :: "slot list \<Rightarrow> macros \<Rightarrow> macros" where
  "slicekit_l16 conf m = slicekit_slots (m\<lparr>default_phy_address := Some 0\<rparr>)"

subsection \<open>Boards with fixed ports\<close>

definition board_xc2 :: "macros \<Rightarrow> macros" where
  "board_xc2 m =
     m\<lparr>default_tile := Some 2, default_phy_address := Some 0x1f, def_smi_mdio_bit := Some 7,
       def_smi_mdio_rest := Some (NOT (push_bit 7 1)), def_smi_reset_mux := Some True\<rparr>"

definition board_d4u :: "macros \<Rightarrow> macros" where
  "board_d4u m = m\<lparr>default_tile := Some 0, default_phy_address := Some 0\<rparr>"

definition board_xp_mc_ctrl :: "macros \<Rightarrow> macros" where
  "board_xp_mc_ctrl m = m\<lparr>default_tile := Some 0, default_phy_address := Some 0\<rparr>"

definition board_xr_avb_lc :: "macros \<Rightarrow> macros" where
  "board_xr_avb_lc m = m\<lparr>default_tile := Some 1, default_phy_address := Some 0\<rparr>"

subsection \<open>The initialisers\<close>

text \<open>An older name of a port, taken when the newer one is not defined.\<close>

definition port_alias :: "port_macro \<Rightarrow> port_macro \<Rightarrow> macros \<Rightarrow> macros" where
  "port_alias x old m = m\<lparr>port_eth := (port_eth m)(x := or_else (port_eth m x) (port_eth m old))\<rparr>"

definition on_tile :: "macros \<Rightarrow> resource \<Rightarrow> placed option" where
  "on_tile m r = map_option (\<lambda>t. (t, r)) (default_tile m)"

text \<open>\<open>ethernet_board_support.h\<close>; \<open>board\<close> is the header of the board, \<open>conf\<close> the slots of \<open>ethernet_conf.h\<close>.\<close>

definition ethernet_board_support ::
  "(slot list \<Rightarrow> macros \<Rightarrow> macros) \<Rightarrow> slot list \<Rightarrow> macros \<Rightarrow> macros" where
  "ethernet_board_support board conf m =
     (let m = include_conf conf (board conf m);
          m = port_alias ETH_RST_N ETH_RSTN m;
          m = m\<lparr>clkblk_0 := or_else (clkblk_0 m) (on_tile m CLKBLK_1),
                clkblk_1 := or_else (clkblk_1 m) (on_tile m CLKBLK_2)\<rparr>;
          m = port_alias ETH_MDIO ETH_RST_N_MDIO m;
          m = port_alias ETH_ERR ETH_RXER m
      in m\<lparr>port_eth := (port_eth m)(ETH_FAKE := or_else (port_eth m ETH_FAKE) (on_tile m PORT_8C))\<rparr>)"

fun all_defined :: "'a option list \<Rightarrow> 'a list option" where
  "all_defined [] = Some []"
| "all_defined (None # xs) = None"
| "all_defined (Some x # xs) = map_option ((#) x) (all_defined xs)"

definition mii_init_ports :: "implementation \<Rightarrow> macros \<Rightarrow> placed list option" where
  "mii_init_ports impl m =
     all_defined ([clkblk_0 m, clkblk_1 m] @
       map (port_eth m) ([ETH_RXCLK, ETH_ERR, ETH_RXD, ETH_RXDV, ETH_TXCLK, ETH_TXEN, ETH_TXD] @
         (case impl of Impl_full \<Rightarrow> [] | Impl_lite \<Rightarrow> [ETH_FAKE])))"

definition smi_init_ports :: "macros \<Rightarrow> (int \<times> placed list) option" where
  "smi_init_ports m =
     (case default_phy_address m of
        None \<Rightarrow> None
      | Some a \<Rightarrow> map_option (Pair a)
          (all_defined (map (port_eth m)
             (if def_smi_combine m = Some True then [ETH_MDIOC] else [ETH_MDIO, ETH_MDC]))))"

text \<open>What \<open>smi.xc\<close> makes of the macros.\<close>

definition smi_of_macros :: "macros \<Rightarrow> smi_config" where
  "smi_of_macros m =
     smi_configuration (def_smi_combine m = Some True) None (def_smi_mdc_bit m) (def_smi_mdio_bit m)
       (def_smi_mdio_rest m) (def_smi_reset_mux m = Some True)"

definition no_macros :: macros where
  "no_macros =
     \<lparr>use_slot = [], default_tile = None, default_phy_address = None, def_smi_combine = None,
      def_smi_mdc_bit = None, def_smi_mdio_bit = None, def_smi_mdio_rest = None, def_smi_reset_mux = None, clkblk_0 = None,
      clkblk_1 = None, port_eth = (\<lambda>_. None)\<rparr>"

subsection \<open>Every slot gives complete and disjoint resources\<close>

text \<open>The header's choice of slot, in the order of its tests.\<close>

definition chosen_slot :: "slot list \<Rightarrow> slot" where
  "chosen_slot ss =
     (if Star \<in> set ss then Star else if Triangle \<in> set ss then Triangle
      else if Circle \<in> set ss then Circle else if Square \<in> set ss then Square else Circle)"

fun slot_tile :: "slot \<Rightarrow> nat" where
  "slot_tile Star = 0" | "slot_tile Triangle = 0" | "slot_tile Circle = 1" | "slot_tile Square = 1"

fun slot_combined :: "slot \<Rightarrow> bool" where
  "slot_combined Star = True" | "slot_combined Square = True"
| "slot_combined Triangle = False" | "slot_combined Circle = False"

lemma slicekit_slots_chosen:
  "slicekit_slots m =
     (if slot_combined (chosen_slot (use_slot m)) then combined_slot (slot_tile (chosen_slot (use_slot m))) m
      else separate_slot (slot_tile (chosen_slot (use_slot m))) m)"
  by (simp add: slicekit_slots_def chosen_slot_def)

lemmas board_defs =
  include_conf_def ethernet_board_support_def port_alias_def on_tile_def mii_init_ports_def
  smi_init_ports_def no_macros_def smi_of_macros_def smi_configuration_def

definition resources_ok :: "slot \<Rightarrow> macros \<Rightarrow> bool" where
  "resources_ok s m \<longleftrightarrow>
     (\<exists>full smi.
        mii_init_ports Impl_full m = Some full \<and> smi_init_ports m = Some (0, smi) \<and>
        mii_init_ports Impl_lite m = Some (full @ [(slot_tile s, PORT_8C)]) \<and>
        distinct (full @ [(slot_tile s, PORT_8C)] @ smi) \<and>
        (\<forall>x \<in> set (full @ smi). fst x = slot_tile s) \<and>
        length smi = (if slot_combined s then 1 else 2) \<and>
        smi_combine (smi_of_macros m) = slot_combined s \<and>
        smi_handle_combined (smi_of_macros m) = slot_combined s \<and>
        (slot_combined s \<longrightarrow> mdc_bit (smi_of_macros m) \<noteq> mdio_bit (smi_of_macros m)))"

lemma support_combined:
  "slot_combined s \<Longrightarrow> board conf no_macros =
     combined_slot (slot_tile s) (no_macros\<lparr>use_slot := ss, default_phy_address := Some 0\<rparr>) \<Longrightarrow>
     resources_ok s (ethernet_board_support board conf no_macros)"
  by (simp add: resources_ok_def combined_slot_def board_defs Let_def)

lemma support_separate:
  "\<not> slot_combined s \<Longrightarrow> board conf no_macros =
     separate_slot (slot_tile s) (no_macros\<lparr>use_slot := ss, default_phy_address := Some 0\<rparr>) \<Longrightarrow>
     resources_ok s (ethernet_board_support board conf no_macros)"
  by (simp add: resources_ok_def separate_slot_def board_defs Let_def)

lemma slicekit_resources_parts:
  "resources_ok (chosen_slot conf) (ethernet_board_support slicekit_l2 conf no_macros)"
  "\<exists>s. resources_ok s (ethernet_board_support slicekit_l16 conf no_macros)"
proof -
  have *: "slicekit_slots (no_macros\<lparr>use_slot := ss, default_phy_address := Some 0\<rparr>) =
      (if slot_combined (chosen_slot ss)
       then combined_slot (slot_tile (chosen_slot ss)) (no_macros\<lparr>use_slot := ss, default_phy_address := Some 0\<rparr>)
       else separate_slot (slot_tile (chosen_slot ss)) (no_macros\<lparr>use_slot := ss, default_phy_address := Some 0\<rparr>))" for ss
    by (simp add: slicekit_slots_chosen)
  have l2: "slicekit_l2 conf no_macros = slicekit_slots (no_macros\<lparr>use_slot := conf, default_phy_address := Some 0\<rparr>)"
    by (simp add: slicekit_l2_def include_conf_def no_macros_def)
  have l16: "slicekit_l16 conf no_macros = slicekit_slots (no_macros\<lparr>use_slot := [], default_phy_address := Some 0\<rparr>)"
    by (simp add: slicekit_l16_def no_macros_def)
  show "resources_ok (chosen_slot conf) (ethernet_board_support slicekit_l2 conf no_macros)"
    by (cases "slot_combined (chosen_slot conf)") (simp_all add: support_combined support_separate l2 *)
  have "\<not> slot_combined (chosen_slot [])" by (simp add: chosen_slot_def)
  then have "resources_ok (chosen_slot []) (ethernet_board_support slicekit_l16 conf no_macros)"
    by (simp add: support_separate l16 *)
  then show "\<exists>s. resources_ok s (ethernet_board_support slicekit_l16 conf no_macros)" ..
qed

text \<open>C38: Whatever slots the application's configuration asks for, the headers of both slice kits
define every macro that the initialisers of the MII and SMI structures name: no port or clock
block is used twice, all lie on the tile of the chosen slot, the management interface gets one
port in the slots with combined wires and two otherwise, and in the combined slots the clock and
data bits differ. The L2 header chooses the slot that is asked for, in the order star, triangle,
circle, square, with circle as the default.\<close>

theorem slicekit_resources:
  "resources_ok (chosen_slot conf) (ethernet_board_support slicekit_l2 conf no_macros) \<and>
   (\<exists>s. resources_ok s (ethernet_board_support slicekit_l16 conf no_macros))"
  by (intro conjI slicekit_resources_parts)

text \<open>
  Included before \<open>ethernet_conf.h\<close>, as \<open>ethernet_board_support.h\<close> does, the header of the L16 kit
  chooses the circle slot whatever the application asks for; included after it, it does not.
\<close>

lemma slicekit_l16_ignores_conf:
  "default_tile (ethernet_board_support slicekit_l16 conf no_macros) = Some 1"
  "port_eth (ethernet_board_support slicekit_l16 [Star] no_macros) ETH_RXCLK = Some (1, PORT_1J)"
  "port_eth (ethernet_board_support slicekit_l2 [Star] no_macros) ETH_RXCLK = Some (0, PORT_1B)"
  "port_eth (slicekit_l16 [Star] (include_conf [Star] no_macros)) ETH_RXCLK = Some (0, PORT_1B)"
  by (simp_all add: slicekit_l16_def slicekit_l2_def slicekit_slots_def separate_slot_def
      combined_slot_def board_defs Let_def)

text \<open>The management data wire of the XC-2 shares its port: the other seven wires stay high.\<close>

lemma xc2_mdio:
  "smi_combine (smi_of_macros (board_xc2 no_macros)) = False"
  "smi_handle_combined (smi_of_macros (board_xc2 no_macros)) = False"
  "mdio_bit (smi_of_macros (board_xc2 no_macros)) = 7"
  "mdc_bit (smi_of_macros (board_xc2 no_macros)) = 0"
  "smi_init (smi_of_macros (board_xc2 no_macros)) \<lparr>phy_address = 0x1f\<rparr> =
     [Mdio_out 0, Wait_ticks 100000, Mdio_out 0xFFFFFF7F, Mdc_now 1]"
  by (simp_all add: board_xc2_def board_defs smi_init_def)

end
