(* ===== verification/Tx_Shaper.thy ===== *)
theory Tx_Shaper
  imports Mii_Tx_Pins
begin

text \<open>
  What the traffic shaper of the transmit thread (\<open>mii_master.xc\<close>) guarantees: the wire time of high
  priority packets over any sequence of turns of \<open>Mii_Tx_Pins.tx_turn\<close>, and the slope that
  \<open>mac_calc_idle_slope\<close> computes for a bandwidth.
\<close>

subsection \<open>The bandwidth the shaper grants\<close>



























text \<open>The slope that \<open>mac_calc_idle_slope\<close> computes for a bandwidth of up to 1 Gbit/s is the
requested bandwidth in credit per tick of the 100 MHz timer, rounded up: it grants at least the
requested bits per second and exceeds them by less than one unit of the slope, and the value fits
the signed word it is returned in.\<close>

lemma idle_slope_rounds_up:
  assumes "0 \<le> sint bps" "sint bps \<le> 1000000000"
  shows "sint bps * 2 ^ 16 \<le> sint (mac_calc_idle_slope bps) * 100000000 \<and>
    (sint (mac_calc_idle_slope bps) - 1) * 100000000 < sint bps * 2 ^ 16"
proof -
  let ?x = "sint bps * 65536 + 99999999"
  have m: "mac_calc_idle_slope bps = word_of_int (?x div 100000000)"
    using assms(1)
    by (auto simp: mac_calc_idle_slope_def Let_def trunc_div_def MII_CREDIT_FRACTIONAL_BITS_def
        push_bit_eq_mult sgn_if)
  have "?x div 100000000 \<le> (1000000000 * 65536 + 99999999) div 100000000"
    using assms by (intro zdiv_mono1) auto
  then have "0 \<le> ?x div 100000000" "?x div 100000000 < 2 ^ 31"
    using assms by (auto simp: pos_imp_zdiv_nonneg_iff)
  then have "sint (mac_calc_idle_slope bps) = ?x div 100000000"
    unfolding m by (rule sint_of_ptr)
  moreover obtain y z where "?x div 100000000 = y" "?x = y * 100000000 + z" "0 \<le> z" "z < 100000000"
    by (rule that [of "?x div 100000000" "?x mod 100000000"]) simp_all
  ultimately show ?thesis by auto
qed

end
