(* ===== verification/Lite_Macaddr.thy ===== *)
theory Lite_Macaddr
  imports Prelude
begin

text \<open>
  \<open>mii_client_lite_support.c\<close>: the MAC address of the lite implementation, six bytes that the server
  stores once and the clients read. The two run on different threads without a lock, so the reader
  sees the array between any two stores. \<open>mac_set_macaddr_lite\<close> gives what the array holds before
  the call and after each of its stores; \<open>progress t\<close> is the number of stores the server has made at
  time \<open>t\<close>, any rising function, and each read of the reader takes one unit of time. The reader
  first waits until the word at the start of the array is not zero.
\<close>

definition mac_set_macaddr_lite :: "byte list \<Rightarrow> byte list \<Rightarrow> byte list list" where
  "mac_set_macaddr_lite macaddr s =
     fold (\<lambda>i trace. trace @ [(last trace)[i := macaddr ! i]]) [0..<6] [s]"

definition word_is_zero :: "byte list \<Rightarrow> bool" where
  "word_is_zero s \<longleftrightarrow> s ! 0 = 0 \<and> s ! 1 = 0 \<and> s ! 2 = 0 \<and> s ! 3 = 0"

text \<open>The array as the reader finds it; it is static, so it is zero before the call.\<close>

definition array_at :: "byte list \<Rightarrow> (nat \<Rightarrow> nat) \<Rightarrow> nat \<Rightarrow> byte list" where
  "array_at a progress t = mac_set_macaddr_lite a (replicate 6 0) ! progress t"

text \<open>The loop \<open>while (*m==0);\<close>: the time of the read that ends it, none if it never ends.\<close>

partial_function (option) mac_wait :: "(nat \<Rightarrow> byte list) \<Rightarrow> nat \<Rightarrow> nat option" where
  "mac_wait store t = (if word_is_zero (store t) then mac_wait store (t + 1) else Some t)"

definition mac_get_macaddr_lite :: "(nat \<Rightarrow> byte list) \<Rightarrow> nat \<Rightarrow> byte list option" where
  "mac_get_macaddr_lite store t =
     map_option (\<lambda>p. map (\<lambda>i. store (p + 1 + i) ! i) [0..<6]) (mac_wait store t)"

lemma upto6: "[0..<6] = [0, 1, 2, 3, 4, 5 :: nat]"
  by (simp add: upt_rec)

lemma cases_upto6: "p \<le> 6 \<Longrightarrow> p \<in> {0, 1, 2, 3, 4, 5, 6 :: nat}"
  by auto

lemma length_6: "length a = 6 \<Longrightarrow> a = [a ! 0, a ! 1, a ! 2, a ! 3, a ! 4, a ! 5]"
  by (auto simp: numeral_eq_Suc less_Suc_eq nth_Cons' intro!: nth_equalityI)

text \<open>After p stores the array holds the first p bytes of the address; after the call, all of them.\<close>

lemma mac_set_nth:
  assumes "length a = 6" "p \<le> 6"
  shows "mac_set_macaddr_lite a (replicate 6 0) ! p = take p a @ replicate (6 - p) 0"
proof -
  obtain b0 b1 b2 b3 b4 b5 where "a = [b0, b1, b2, b3, b4, b5]"
    using length_6 [OF assms(1)] by blast
  then show ?thesis
    using cases_upto6 [OF assms(2)]
    by (elim insertE emptyE) (simp_all add: mac_set_macaddr_lite_def upto6 numeral_eq_Suc)
qed

lemma length_mac_set: "length (mac_set_macaddr_lite a s) = 7"
  by (simp add: mac_set_macaddr_lite_def upto6)

lemma mac_wait_Some:
  assumes "mac_wait store t = Some p"
  shows "t \<le> p \<and> \<not> word_is_zero (store p)"
proof (rule mac_wait.raw_induct [OF _ assms])
  fix f and store :: "nat \<Rightarrow> byte list" and t p
  assume IH: "\<And>store t p. f store t = Some p \<Longrightarrow> t \<le> p \<and> \<not> word_is_zero (store p)"
    and b: "(if word_is_zero (store t) then f store (t + 1) else Some t) = Some p"
  show "t \<le> p \<and> \<not> word_is_zero (store p)"
  proof (cases "word_is_zero (store t)")
    case True
    then show ?thesis using IH [of store "t + 1" p] b by simp
  next
    case False
    then show ?thesis using b by simp
  qed
qed

lemma mac_wait_returns:
  "\<not> word_is_zero (store p) \<Longrightarrow> t \<le> p \<Longrightarrow> \<exists>r. mac_wait store t = Some r"
proof (induction "p - t" arbitrary: t)
  case 0
  then show ?case by (subst mac_wait.simps) simp
next
  case (Suc d)
  then have "\<exists>r. mac_wait store (t + 1) = Some r" by simp
  then show ?case by (subst mac_wait.simps) simp
qed

definition usable_address :: "byte list \<Rightarrow> bool" where
  "usable_address a \<longleftrightarrow> \<not> word_is_zero a"

lemma ex_less_4: "(\<exists>i < 4. P i) \<longleftrightarrow> P 0 \<or> P 1 \<or> P 2 \<or> P (3 :: nat)"
  by (auto simp: numeral_eq_Suc less_Suc_eq)

lemma array_at_nth:
  assumes "length a = 6" "progress t \<le> 6" "i < 6"
  shows "array_at a progress t ! i = (if i < progress t then a ! i else 0)"
  using assms by (simp add: array_at_def mac_set_nth nth_append)

lemma word_is_zero_array_at:
  assumes "length a = 6" "progress t \<le> 6"
  shows "\<not> word_is_zero (array_at a progress t) \<longleftrightarrow> (\<exists>i < 4. i < progress t \<and> a ! i \<noteq> 0)"
  by (auto simp: word_is_zero_def array_at_nth [of a progress, OF assms] ex_less_4)

lemma mac_get_at:
  assumes a: "length a = 6" and p6: "\<And>t. progress t \<le> 6"
    and r: "mac_get_macaddr_lite (array_at a progress) t = Some r"
  shows "\<exists>p \<ge> t. (\<exists>i < 4. i < progress p \<and> a ! i \<noteq> 0) \<and>
       r = map (\<lambda>i. if i < progress (p + 1 + i) then a ! i else 0) [0..<6]"
  using mac_wait_Some [of "array_at a progress" t] r
  by (auto simp: mac_get_macaddr_lite_def array_at_nth [of a progress, OF a p6] word_is_zero_array_at [of a progress, OF a p6])

lemma mac_get_returns:
  assumes a: "length a = 6" and p6: "\<And>t. progress t \<le> 6" and m: "mono progress"
    and u: "usable_address a" "progress u = 6"
  shows "\<exists>r. mac_get_macaddr_lite (array_at a progress) t = Some r"
proof -
  have "progress (t + u) = 6"
    using monoD [OF m, of u "t + u"] u(2) p6 [of "t + u"] by simp
  then have "\<not> word_is_zero (array_at a progress (t + u))"
    using u(1) word_is_zero_array_at [of a progress "t + u", OF a p6]
    by (auto simp: usable_address_def word_is_zero_def ex_less_4)
  then show ?thesis
    using mac_wait_returns [of "array_at a progress" "t + u" t] by (auto simp: mac_get_macaddr_lite_def)
qed

lemma mac_get_unusable:
  assumes a: "length a = 6" and p6: "\<And>t. progress t \<le> 6" and u: "\<not> usable_address a"
  shows "mac_get_macaddr_lite (array_at a progress) t = None"
  using mac_get_at [of a progress t, OF a p6] u
  by (cases "mac_get_macaddr_lite (array_at a progress) t")
    (auto simp: usable_address_def word_is_zero_def less_Suc_eq numeral_eq_Suc)

text \<open>A server that makes at least one store in each unit of time, until it has made all.\<close>

lemma keeps_ahead:
  fixes progress :: "nat \<Rightarrow> nat"
  assumes m: "mono progress" and p6: "\<And>t. progress t \<le> 6"
    and fast: "\<And>t. 0 < progress t \<Longrightarrow> progress t < 6 \<Longrightarrow> progress t < progress (t + 1)"
    and p: "0 < progress p"
  shows "min 6 (k + 1) \<le> progress (p + k)"
proof (induction k)
  case 0
  then show ?case using p by simp
next
  case (Suc k)
  then show ?case
    using fast [of "p + k"] p6 [of "p + k"] monoD [OF m, of "p + k" "p + Suc k"] p by fastforce
qed

lemma read_whole:
  assumes a: "length a = 6" and p6: "\<And>t. progress t \<le> 6"
    and r: "mac_get_macaddr_lite (array_at a progress) t = Some r"
    and st: "\<And>p i. t \<le> p \<Longrightarrow> 0 < progress p \<Longrightarrow> i < 6 \<Longrightarrow> i < progress (p + 1 + i)"
  shows "r = a"
proof -
  obtain p i where p: "t \<le> p" "i < progress p"
    "r = map (\<lambda>i. if i < progress (p + 1 + i) then a ! i else 0) [0..<6]"
    using mac_get_at [of a progress t, OF a p6 r] by blast
  have "i < progress (p + 1 + i)" if "i < 6" for i using st [OF p(1) _ that] p(2) by simp
  then show ?thesis using a by (intro nth_equalityI) (simp_all add: p(3))
qed

lemma macaddr_lite_read_parts:
  assumes a: "length a = 6" and m: "mono progress" and p6: "\<And>t. progress t \<le> 6"
  shows "(\<exists>u. progress u = 6) \<Longrightarrow>
      mac_get_macaddr_lite (array_at a progress) t = None \<longleftrightarrow> \<not> usable_address a"
    "mac_get_macaddr_lite (array_at a progress) t = Some r \<Longrightarrow> i < 6 \<Longrightarrow> r ! i = a ! i \<or> r ! i = 0"
    "mac_get_macaddr_lite (array_at a progress) t = Some r \<Longrightarrow> progress t = 6 \<Longrightarrow> r = a"
    "mac_get_macaddr_lite (array_at a progress) t = Some r \<Longrightarrow>
      (\<And>t. 0 < progress t \<Longrightarrow> progress t < 6 \<Longrightarrow> progress t < progress (t + 1)) \<Longrightarrow> r = a"
proof -
  show "mac_get_macaddr_lite (array_at a progress) t = None \<longleftrightarrow> \<not> usable_address a"
    if "\<exists>u. progress u = 6"
    using that mac_get_unusable [of a progress t, OF a p6] mac_get_returns [of a progress, OF a p6 m, of _ t] by force
  show "r ! i = a ! i \<or> r ! i = 0"
    if "mac_get_macaddr_lite (array_at a progress) t = Some r" "i < 6"
    using mac_get_at [of a progress t, OF a p6 that(1)] that(2) by auto
  show "r = a" if r: "mac_get_macaddr_lite (array_at a progress) t = Some r" and "progress t = 6"
  proof (rule read_whole [of a progress t, OF a p6 r])
    show "i < progress (p + 1 + i)" if "t \<le> p" "i < 6" for p i
      using monoD [OF m, of t "p + 1 + i"] that \<open>progress t = 6\<close> by simp
  qed
  show "r = a" if r: "mac_get_macaddr_lite (array_at a progress) t = Some r"
    and fast: "\<And>t. 0 < progress t \<Longrightarrow> progress t < 6 \<Longrightarrow> progress t < progress (t + 1)"
  proof (rule read_whole [of a progress t, OF a p6 r])
    show "i < progress (p + 1 + i)" if "0 < progress p" "i < 6" for p i
      using keeps_ahead [of progress p "1 + i", OF m p6 fast that(1)] that(2) by (simp add: add.assoc)
  qed
qed

text \<open>C40: The six bytes that \<open>mac_set_macaddr_lite\<close> stores reach the reader. In every interleaving
of the stores with the reader's accesses each byte the reader returns is the new one or still
zero; once the server's call has made all its \<open>n\<close> stores, the wait ends exactly if one of the first four
bytes of the address is not zero, and a reader that starts after the last store returns the
address; and a reader that runs at the same time returns it too, if from the first store on the
server makes at least one store in the time of one read.\<close>

theorem macaddr_lite_read:
  assumes "length a = 6" and "mono progress"
    and n: "length (mac_set_macaddr_lite a (replicate 6 0)) = n + 1" and "\<And>t. progress t \<le> n"
  shows "((\<exists>u. progress u = n) \<longrightarrow>
      (mac_get_macaddr_lite (array_at a progress) t = None \<longleftrightarrow> \<not> usable_address a)) \<and>
    (\<forall>r. mac_get_macaddr_lite (array_at a progress) t = Some r \<longrightarrow>
      (\<forall>i < 6. r ! i = a ! i \<or> r ! i = 0) \<and>
      (progress t = n \<longrightarrow> r = a) \<and>
      ((\<forall>u. 0 < progress u \<and> progress u < n \<longrightarrow> progress u < progress (u + 1)) \<longrightarrow> r = a))"
proof -
  have n6: "n = 6" using n by (simp add: length_mac_set)
  have p6: "progress t \<le> 6" for t using assms(4) [of t] n6 by simp
  show ?thesis using macaddr_lite_read_parts [of a progress t, OF assms(1,2) p6] unfolding n6 by blast
qed

theorem macaddr_lite_read_witness:
  "mac_get_macaddr_lite (array_at [0, 0x22, 0x97, 1, 2, 3] (\<lambda>t. min 6 (t - 10))) 3
     = Some [0, 0x22, 0x97, 1, 2, 3] \<and>
   mac_get_macaddr_lite (array_at [0, 0x22, 0x97, 1, 2, 3] (\<lambda>t. min 6 (2 * t))) 20
     = Some [0, 0x22, 0x97, 1, 2, 3]"
proof -
  let ?a = "[0, 0x22, 0x97, 1, 2, 3] :: byte list"
  have u: "usable_address ?a" by (simp add: usable_address_def word_is_zero_def)
  have "mono (\<lambda>t :: nat. min 6 (t - 10))" "mono (\<lambda>t :: nat. min 6 (2 * t))"
    by (auto intro!: monoI)
  note th = macaddr_lite_read [OF _ this(1), of ?a 6 3] macaddr_lite_read [OF _ this(2), of ?a 6 20]
  have "\<exists>u. min 6 (u - 10) = (6 :: nat)" "\<exists>u. min 6 (2 * u) = (6 :: nat)"
    by (rule exI [of _ 16], simp)+
  then show ?thesis
    using th u by (force simp: length_mac_set)
qed

text \<open>
  With a slower server the reader can get a mix: here it sees the first bytes stored and returns
  before the last ones are.
\<close>

lemma macaddr_lite_torn:
  "mac_get_macaddr_lite (array_at [0, 0x22, 0x97, 1, 2, 3] (\<lambda>t. min 6 (t div 10))) 20
     = Some [0, 0x22, 0, 0, 0, 0]"
proof -
  let ?h = "array_at [0, 0x22, 0x97, 1, 2, 3] (\<lambda>t. min 6 (t div 10))"
  have h: "?h t ! i = (if i < min 6 (t div 10) then [0, 0x22, 0x97, 1, 2, 3] ! i else 0)" if "i < 6" for t i
    using that by (intro array_at_nth) simp_all
  have "mac_wait ?h 20 = Some 20"
    by (subst mac_wait.simps) (simp add: word_is_zero_def h)
  then show ?thesis by (simp add: mac_get_macaddr_lite_def h upto6)
qed

end
