(* ===== verification/Lite_Buffer.thy ===== *)
theory Lite_Buffer
  imports Ethernet_Filter
begin

text \<open>
  The receive buffers of the lite implementation: \<open>mii_client_user.xc\<close>, the structure of
  \<open>mii_client.h\<close> and the interrupt routine of \<open>mii_client_interrrupt.S\<close>. The low-level driver fills
  one buffer while another is ready for it; at the end of a frame the interrupt hands over the
  ready buffer, checks the frame and commits or rejects it. The buffers lie in two banks, each
  a circular sequence of packets with a header word: a positive header is the length of a
  packet, a negative one that of a freed packet, 0 is the unused tail and 1 the write position.

  Addresses are integers below \<open>2 ^ 31\<close>; the memory holds words, that \<open>get_w\<close> reads as signed.
  The fields of the structure that only the hardware uses are left out: channel ends, padding
  and the stack of the interrupt.
\<close>

record miiData =
  lmem :: "addr \<Rightarrow> word32"
  nextBuffer :: int
  packetInLLD :: int
  miiPacketsOverran :: int
  refillBankNumber :: nat
  freePtr :: "nat \<Rightarrow> int"
  wrPtr :: "nat \<Rightarrow> int"
  lastSafePtr :: "nat \<Rightarrow> int"
  firstPtr :: "nat \<Rightarrow> int"
  readPtr :: "nat \<Rightarrow> int"
  notifyLast :: bool
  notifySeen :: bool
  miiPacketsTransmitted :: int
  miiPacketsReceived :: int
  miiPacketsCRCError :: int
  readBank :: nat
  tokens :: "bool list"

text \<open>\<open>tokens\<close> holds the characters that the notification channel carries, oldest first.\<close>

definition MAXPACKET :: int where
  "MAXPACKET = 1530"

definition get_w :: "miiData \<Rightarrow> addr \<Rightarrow> int" where
  "get_w s a = sint (lmem s a)"

definition set_w :: "addr \<Rightarrow> int \<Rightarrow> miiData \<Rightarrow> miiData" where
  "set_w a v s = s\<lparr>lmem := (lmem s)(a := word_of_int v)\<rparr>"

text \<open>\<open>(n + 3) & ~3\<close>\<close>

definition up4 :: "int \<Rightarrow> int" where
  "up4 n = 4 * ((n + 3) div 4)"

subsection \<open>Checking a frame\<close>

text \<open>The length of a frame whose checksum is right, otherwise 0.\<close>

definition CRCBad :: "(addr \<Rightarrow> word32) \<Rightarrow> addr \<Rightarrow> addr \<Rightarrow> word32" where
  "CRCBad m base end =
     (let tailBits = m (end + 4);
          tailLength = m (end + 8);
          partCRC = m (end + 12);
          n = unat (drop_bit 3 tailLength);
          crc = (if n = 1 \<or> n = 2 \<or> n = 3
                 then fst (crc_tail n (partCRC, drop_bit (32 - 8 * n) tailBits)) else partCRC)
      in if NOT crc = 0 then word_of_int (end - base) + drop_bit 3 tailLength else 0)"

definition packetGood :: "addr \<Rightarrow> addr \<Rightarrow> miiData \<Rightarrow> int \<times> miiData" where
  "packetGood base end s =
     (let len = sint (CRCBad (lmem s) base end)
      in if len = 0 then (0, s\<lparr>miiPacketsCRCError := miiPacketsCRCError s + 1\<rparr>)
         else (len, s\<lparr>miiPacketsReceived := miiPacketsReceived s + 1\<rparr>))"

subsection \<open>The banks\<close>

definition mii_buffer_init :: "addr \<Rightarrow> int \<Rightarrow> miiData \<Rightarrow> miiData" where
  "mii_buffer_init address numberWords s =
     (let first = (\<lambda>b. if b = 0 then address else address + 4 * ((2 * numberWords) div 4));
          s = s\<lparr>notifySeen := True, notifyLast := True, readPtr := first, firstPtr := first,
                freePtr := first, wrPtr := (\<lambda>b. first b + 4)\<rparr>;
          s = set_w (freePtr s 1) 1 (set_w (freePtr s 0) 1 s);
          s = s\<lparr>lastSafePtr := (\<lambda>b. if b = 0 then freePtr s 1 - MAXPACKET
                                    else address + 4 * numberWords - MAXPACKET),
                nextBuffer := wrPtr s 1, miiPacketsOverran := 0, refillBankNumber := 0,
                miiPacketsTransmitted := 0, miiPacketsReceived := 0, miiPacketsCRCError := 0,
                readBank := 0\<rparr>
      in s\<lparr>packetInLLD := wrPtr s 0\<rparr>)"

text \<open>The notification: the interrupt sends a character unless one is under way.\<close>

definition miiNotify :: "miiData \<Rightarrow> miiData" where
  "miiNotify s =
     (if notifyLast s = notifySeen s then
        let s = s\<lparr>notifyLast := \<not> notifyLast s\<rparr> in s\<lparr>tokens := tokens s @ [notifyLast s]\<rparr>
      else s)"

definition mii_notified :: "miiData \<Rightarrow> miiData option" where
  "mii_notified s =
     (case tokens s of [] \<Rightarrow> None | t # ts \<Rightarrow> Some (s\<lparr>notifySeen := t, tokens := ts\<rparr>))"

text \<open>The body of the loop in \<open>mii_get_in_buffer\<close>, then the loop, which runs twice.\<close>

definition get_from_bank :: "miiData \<Rightarrow> (int \<times> int \<times> int) option \<times> miiData" where
  "get_from_bank s =
     (let s = s\<lparr>readBank := 1 - readBank s\<rparr>; b = readBank s;
          s = (if get_w s (readPtr s b) = 0 then s\<lparr>readPtr := (readPtr s)(b := firstPtr s b)\<rparr> else s);
          nBytes = get_w s (readPtr s b)
      in if nBytes \<noteq> 1 then
           let retVal = readPtr s b + 4;
               s = s\<lparr>readPtr := (readPtr s)(b := readPtr s b + up4 nBytes + 4)\<rparr>;
               s = (if get_w s (readPtr s b) = 0 then s\<lparr>readPtr := (readPtr s)(b := firstPtr s b)\<rparr> else s)
           in (Some (retVal + 4, nBytes - 4, get_w s retVal), s)
         else (None, s))"

definition mii_get_in_buffer :: "miiData \<Rightarrow> (int \<times> int \<times> int) \<times> miiData" where
  "mii_get_in_buffer s =
     (case get_from_bank s of
        (Some r, s) \<Rightarrow> (r, s)
      | (None, s) \<Rightarrow> (case get_from_bank s of (Some r, s) \<Rightarrow> (r, s) | (None, s) \<Rightarrow> ((0, 0, 0), s)))"

text \<open>
  The step at the unused tail that \<open>miiCommitBuffer\<close> and \<open>mii_restart_buffer\<close> share: wrap to the
  head of the bank.
\<close>

definition wrap_bank :: "nat \<Rightarrow> miiData \<Rightarrow> miiData" where
  "wrap_bank bn s =
     (let s = set_w (wrPtr s bn - 4) 0 s;
          s = s\<lparr>wrPtr := (wrPtr s)(bn := firstPtr s bn + 4)\<rparr>
      in set_w (wrPtr s bn - 4) 1 s)"

definition miiCommitBuffer :: "int \<Rightarrow> int \<Rightarrow> miiData \<Rightarrow> miiData" where
  "miiCommitBuffer currentBuffer len s =
     (let bn = (if currentBuffer < firstPtr s 1 then 0 else 1);
          s = set_w (wrPtr s bn - 4) len s;
          s = s\<lparr>wrPtr := (wrPtr s)(bn := wrPtr s bn + up4 len + 4)\<rparr>;
          s = miiNotify s;
          no_room = (\<lambda>s. s\<lparr>nextBuffer := - 1, refillBankNumber := bn\<rparr>)
      in if lastSafePtr s bn < wrPtr s bn then
           if freePtr s bn \<noteq> firstPtr s bn then
             let s = wrap_bank bn s
             in if MAXPACKET \<le> freePtr s bn - wrPtr s bn then s\<lparr>nextBuffer := wrPtr s bn\<rparr> else no_room s
           else no_room (set_w (wrPtr s bn - 4) 1 s)
         else
           let s = set_w (wrPtr s bn - 4) 1 s
           in if freePtr s bn < wrPtr s bn \<or> MAXPACKET \<le> freePtr s bn - wrPtr s bn
              then s\<lparr>nextBuffer := wrPtr s bn\<rparr> else no_room s)"

definition miiRejectBuffer :: "int \<Rightarrow> miiData \<Rightarrow> miiData" where
  "miiRejectBuffer currentBuffer s = s\<lparr>nextBuffer := currentBuffer\<rparr>"

definition mii_restart_buffer :: "miiData \<Rightarrow> miiData" where
  "mii_restart_buffer s =
     (if nextBuffer s \<noteq> - 1 then s
      else
        let bn = refillBankNumber s
        in if lastSafePtr s bn < wrPtr s bn then
             if freePtr s bn \<noteq> firstPtr s bn then
               let s = wrap_bank bn s
               in if MAXPACKET \<le> freePtr s bn - wrPtr s bn then s\<lparr>nextBuffer := wrPtr s bn\<rparr> else s
             else s
           else if freePtr s bn < wrPtr s bn \<or> MAXPACKET \<le> freePtr s bn - wrPtr s bn
                then s\<lparr>nextBuffer := wrPtr s bn\<rparr> else s)"

text \<open>The loop of \<open>mii_free_in_buffer\<close> on the free pointer of a bank whose head is \<open>first\<close>.\<close>

partial_function (option) advance_free :: "(addr \<Rightarrow> int) \<Rightarrow> int \<Rightarrow> int \<Rightarrow> int option" where
  "advance_free m first p =
     (let l = m p
      in if 0 < l then Some p
         else advance_free m first (if l = 0 then first else p + up4 (- l) + 4))"

definition mii_free_in_buffer :: "int \<Rightarrow> miiData \<Rightarrow> miiData option" where
  "mii_free_in_buffer base s =
     (let bankNumber = (if base < firstPtr s 1 then 0 else 1);
          base = base - 4;
          s = set_w (base - 4) (- get_w s (base - 4)) s
      in map_option (\<lambda>p. s\<lparr>freePtr := (freePtr s)(bankNumber := p)\<rparr>)
           (advance_free (get_w s) (firstPtr s bankNumber) (freePtr s bankNumber)))"

subsection \<open>The interrupt\<close>

definition miiClientUser :: "int \<Rightarrow> int \<Rightarrow> miiData \<Rightarrow> miiData" where
  "miiClientUser base end s =
     (let (len, s) = packetGood base end s
      in if len \<noteq> 0 then miiCommitBuffer base len s else miiRejectBuffer base s)"

text \<open>\<open>end\<close> is the pointer that the driver sends; the buffer that it gets back is \<open>packetInLLD\<close>.\<close>

definition miiInterruptHandler :: "int \<Rightarrow> miiData \<Rightarrow> miiData" where
  "miiInterruptHandler end s =
     (let base = packetInLLD s
      in if nextBuffer s = - 1 then s\<lparr>miiPacketsOverran := miiPacketsOverran s + 1\<rparr>
         else miiClientUser base end (s\<lparr>packetInLLD := nextBuffer s\<rparr>))"

end
