(* ===== verification/Lite_Bank.thy ===== *)
theory Lite_Bank
  imports Lite_Buffer
begin

text \<open>
  One bank of the lite implementation as a queue. \<open>bank_ok\<close> describes a bank by two lists of
  packets, oldest first: those up to the unused tail, if the bank has wrapped, and those that end
  at the write position. The lemmas show what committing, freeing and reading do to the lists.
\<close>

subsection \<open>Words of the memory\<close>

lemma up4_bounds: "n \<le> up4 n" "up4 n \<le> n + 3" "4 dvd up4 n"
  by (simp_all add: up4_def)

lemma up4_mono: "n \<le> k \<Longrightarrow> up4 n \<le> up4 k"
  by (simp add: up4_def zdiv_mono1)

lemma get_w_set_w:
  "- (2 ^ 31) \<le> v \<Longrightarrow> v < 2 ^ 31 \<Longrightarrow> get_w (set_w a v s) = (get_w s)(a := v)"
  by (auto simp: get_w_def set_w_def sint_sbintrunc' signed_take_bit_int_eq_self)

subsection \<open>Consecutive packets\<close>

type_synonym lite_packet = "int \<times> int"

fun segs :: "(addr \<Rightarrow> int) \<Rightarrow> int \<Rightarrow> int \<Rightarrow> lite_packet list \<Rightarrow> int \<Rightarrow> bool" where
  "segs m L p [] z \<longleftrightarrow> p = z"
| "segs m L p ((h, v) # q) z \<longleftrightarrow>
     p = h \<and> m h = v \<and> 2 \<le> v \<and> v \<le> 1528 \<and> h + 4 \<le> L \<and> segs m L (h + up4 v + 4) q z"

lemma segs_append: "segs m L p (q @ r) z \<longleftrightarrow> (\<exists>y. segs m L p q y \<and> segs m L y r z)"
  by (induction q arbitrary: p) auto

lemma segs_le: "segs m L p q z \<Longrightarrow> p \<le> z"
proof (induction q arbitrary: p)
  case (Cons x q)
  obtain h v where x: "x = (h, v)" by (cases x)
  show ?case using Cons.IH [of "h + up4 v + 4"] Cons.prems up4_bounds(1) [of v] by (simp add: x)
qed simp

lemma segs_mem:
  assumes "segs m L p q z" "(h, v) \<in> set q"
  shows "p \<le> h" "h + up4 v + 4 \<le> z" "m h = v" "2 \<le> v" "v \<le> 1528" "h + 4 \<le> L"
proof -
  have "p \<le> h \<and> h + up4 v + 4 \<le> z \<and> m h = v \<and> 2 \<le> v \<and> v \<le> 1528 \<and> h + 4 \<le> L"
    using assms
  proof (induction q arbitrary: p)
    case (Cons x q)
    obtain g u where x: "x = (g, u)" by (cases x)
    show ?case
      using Cons.IH [of "g + up4 u + 4"] Cons.prems up4_bounds(1) [of u] segs_le [of m L "g + up4 u + 4" q z]
      by (auto simp: x)
  qed simp
  then show "p \<le> h" "h + up4 v + 4 \<le> z" "m h = v" "2 \<le> v" "v \<le> 1528" "h + 4 \<le> L" by simp_all
qed

lemma segs_cong:
  assumes "\<And>h. h \<in> fst ` set q \<Longrightarrow> m' h = m h"
  shows "segs m' L p q z = segs m L p q z"
  using assms
proof (induction q arbitrary: p)
  case (Cons x q)
  then show ?case by (cases x) auto
qed simp

lemma segs_dvd: "segs m L p q z \<Longrightarrow> 4 dvd p \<Longrightarrow> 4 dvd z"
proof (induction q arbitrary: p)
  case (Cons x q)
  obtain h v where x: "x = (h, v)" by (cases x)
  have "4 dvd h + up4 v + 4" using Cons.prems up4_bounds(3) [of v] by (simp add: x)
  then show ?case using Cons.IH [of "h + up4 v + 4"] Cons.prems by (simp add: x)
qed simp

lemma segs_start: "segs m L p q z \<Longrightarrow> p = hd (map fst q @ [z])"
  by (cases q) auto

lemma segs_length: "segs m L p q z \<Longrightarrow> z - p \<le> 1532 * int (length q)"
proof (induction q arbitrary: p)
  case (Cons x q)
  obtain h v where x: "x = (h, v)" by (cases x)
  have "up4 v \<le> 1528" using up4_mono [of v 1528] Cons.prems by (simp add: x up4_def)
  then show ?case using Cons.IH [of "h + up4 v + 4"] Cons.prems by (simp add: x algebra_simps)
qed simp

lemma segs_snoc:
  "segs m L p q z \<Longrightarrow> m z = v \<Longrightarrow> 2 \<le> v \<Longrightarrow> v \<le> 1528 \<Longrightarrow> z + 4 \<le> L \<Longrightarrow>
     segs m L p (q @ [(z, v)]) (z + up4 v + 4)"
  by (auto simp: segs_append)

subsection \<open>A bank\<close>

text \<open>
  \<open>F\<close> is the head, \<open>L\<close> the last safe pointer, \<open>f\<close> the free pointer and \<open>w\<close> the word before the
  write pointer. The bank has at least 3072 bytes.
\<close>

definition bank_ok ::
  "(addr \<Rightarrow> int) \<Rightarrow> int \<Rightarrow> int \<Rightarrow> int \<Rightarrow> int \<Rightarrow> lite_packet list \<Rightarrow> lite_packet list \<Rightarrow> bool" where
  "bank_ok m F L f w q1 q2 \<longleftrightarrow>
     0 < F \<and> 4 dvd F \<and> 4 dvd L + 1530 \<and> F + 1542 \<le> L \<and> m w = 1 \<and> w \<le> L + 1526 \<and>
     (if q1 = [] then F \<le> f \<and> 4 dvd f \<and> segs m L f q2 w
      else (\<exists>z. F \<le> f \<and> 4 dvd f \<and> segs m L f q1 z \<and> m z = 0) \<and> segs m L F q2 w \<and> w + 4 \<le> f)"

definition has_room :: "int \<Rightarrow> int \<Rightarrow> int \<Rightarrow> lite_packet list \<Rightarrow> bool" where
  "has_room L f w q1 \<longleftrightarrow> (if q1 = [] then w + 4 \<le> L else 1530 \<le> f - (w + 4))"

lemma bank_w:
  assumes "bank_ok m F L f w q1 q2"
  shows "F \<le> w" "4 dvd w" "m w = 1" "w \<le> L + 1526" "q1 \<noteq> [] \<Longrightarrow> w + 4 \<le> L"
  using assms segs_le [of m L f q2 w] segs_le [of m L F q2 w] segs_dvd [of m L f q2 w] segs_dvd [of m L F q2 w]
  by (cases q1; auto simp: bank_ok_def)+

lemma bank_starts: "bank_ok m F L f w q1 q2 \<Longrightarrow> f = hd (map fst (q1 @ q2) @ [w])"
  by (cases q1) (auto simp: bank_ok_def dest: segs_start)

text \<open>Every packet lies in the bank, before the end and apart from the write position.\<close>

lemma bank_mem:
  assumes "bank_ok m F L f w q1 q2" "(h, v) \<in> set (q1 @ q2)"
  shows "F \<le> h" "h + up4 v + 4 \<le> L + 1526" "m h = v" "2 \<le> v" "v \<le> 1528" "h \<noteq> w"
    "h + up4 v + 4 \<le> w \<or> w + 4 \<le> h"
proof -
  have a: "h + 4 \<le> L" "2 \<le> v" "v \<le> 1528" "m h = v" "F \<le> h" "h + up4 v + 4 \<le> w \<or> w + 4 \<le> h"
  proof -
    obtain p q z where s: "segs m L p q z" "(h, v) \<in> set q" "F \<le> p" "z = w \<or> w + 4 \<le> p" "4 dvd p"
      using assms by (cases "q1 = []") (auto simp: bank_ok_def)
    note S = segs_mem [OF s(1,2)]
    show "h + 4 \<le> L" "2 \<le> v" "v \<le> 1528" "m h = v" "F \<le> h" "h + up4 v + 4 \<le> w \<or> w + 4 \<le> h"
      using S s(3,4) by auto
  qed
  have d: "4 dvd h"
  proof -
    obtain p q z where s: "segs m L p q z" "(h, v) \<in> set q" "4 dvd p"
      using assms by (cases "q1 = []") (auto simp: bank_ok_def)
    obtain r t where q: "q = r @ (h, v) # t" using s(2) by (meson split_list)
    show ?thesis using s(1,3) segs_dvd [of m L p r h] by (auto simp: q segs_append)
  qed
  have "4 dvd L + 1530" using assms(1) by (simp add: bank_ok_def)
  then have "h + 1536 \<le> L + 1530" using a(1) d by presburger
  moreover have "up4 v \<le> 1528" using up4_mono [of v 1528] a(3) by (simp add: up4_def)
  ultimately show "h + up4 v + 4 \<le> L + 1526" by simp
  show "F \<le> h" "m h = v" "2 \<le> v" "v \<le> 1528" "h \<noteq> w" "h + up4 v + 4 \<le> w \<or> w + 4 \<le> h"
    using a up4_bounds(1) [of v] by auto
qed

lemma aligned_less: "4 dvd a \<Longrightarrow> 4 dvd b \<Longrightarrow> a < b \<Longrightarrow> a + 4 \<le> b" for a b :: int
  by presburger

lemma bank_align:
  assumes "bank_ok m F L f w q1 q2"
  shows "4 dvd F" "4 dvd f" "4 dvd L + 1530" "F \<le> f" "F + 1542 \<le> L" "0 < F"
  using assms by (auto simp: bank_ok_def split: if_splits)

text \<open>Only words of the bank matter, and of those not the free space that is offered to the driver.\<close>

lemma bank_cong:
  assumes b: "bank_ok m F L f w q1 q2"
    and m: "\<And>x. F \<le> x \<Longrightarrow> x < L + 1530 \<Longrightarrow> \<not> (has_room L f w q1 \<and> w + 4 \<le> x \<and> x < w + 1534) \<Longrightarrow> m' x = m x"
  shows "bank_ok m' F L f w q1 q2"
proof -
  have w: "m' w = m w" using bank_w [OF b] by (intro m) auto
  have h: "m' h = m h" if "h \<in> fst ` set (q1 @ q2)" for h
  proof -
    from that obtain y where y: "y \<in> set (q1 @ q2)" "h = fst y" by blast
    then have v: "(h, snd y) \<in> set (q1 @ q2)" by simp
    define v where "v = snd y"
    note v = v [folded v_def]
    note M = bank_mem [OF b v]
    have "\<not> (has_room L f w q1 \<and> w + 4 \<le> h \<and> h < w + 1534)"
    proof (cases "q1 = []")
      case True
      then have "segs m L f q2 w" "(h, v) \<in> set q2" using b v by (auto simp: bank_ok_def)
      from segs_mem(2) [OF this] show ?thesis using M(4) up4_bounds(1) [of v] by simp
    next
      case False
      then obtain z where z: "segs m L f q1 z" "segs m L F q2 w" using b by (auto simp: bank_ok_def)
      show ?thesis
      proof (cases "(h, v) \<in> set q1")
        case True
        then show ?thesis using segs_mem(1) [OF z(1) True] False by (simp add: has_room_def)
      next
        case False
        then have "(h, v) \<in> set q2" using v by simp
        from segs_mem(2) [OF z(2) this] show ?thesis using M(4) up4_bounds(1) [of v] by simp
      qed
    qed
    moreover have "h < L + 1530" using M(2,4) up4_bounds(1) [of v] by simp
    ultimately show ?thesis using M(1) by (intro m)
  qed
  have s: "segs m' L p q z = segs m L p q z" if "set q \<subseteq> set (q1 @ q2)" for p q z
    using that h by (intro segs_cong) blast
  show ?thesis
  proof (cases "q1 = []")
    case True
    then show ?thesis using b s [of q2] w by (simp add: bank_ok_def)
  next
    case False
    then obtain z where z: "segs m L f q1 z" "m z = 0" using b by (auto simp: bank_ok_def)
    obtain y where y: "last q1 = y" "y \<in> set q1" using False by simp
    obtain h v where hv: "y = (h, v)" by (cases y)
    have "m' z = m z"
    proof (rule m)
      have "q1 = butlast q1 @ [(h, v)]" using append_butlast_last_id [OF False] y(1) hv by simp
      then have "segs m L f (butlast q1 @ [(h, v)]) z" using z(1) by simp
      then have "z = h + up4 v + 4" by (auto simp: segs_append)
      then show "z < L + 1530" using bank_mem(2) [OF b, of h v] y hv by simp
      show "F \<le> z" using segs_le [OF z(1)] bank_align(4) [OF b] by simp
      show "\<not> (has_room L f w q1 \<and> w + 4 \<le> z \<and> z < w + 1534)"
        using segs_le [OF z(1)] False by (simp add: has_room_def)
    qed
    then show ?thesis using b False s [of q1] s [of q2] w z by (auto simp: bank_ok_def)
  qed
qed

subsection \<open>Committing\<close>

lemma up4_1528: "v \<le> 1528 \<Longrightarrow> up4 v \<le> 1528"
  using up4_mono [of v 1528] by (simp add: up4_def)

lemma segs_upd:
  assumes "segs m L p q z" "\<And>h v. (h, v) \<in> set q \<Longrightarrow> x \<noteq> h"
  shows "segs (m(x := y)) L p q z"
  using assms by (subst segs_cong [of q "m(x := y)" m]) force+

lemma bank_commit_stay:
  assumes b: "bank_ok m F L f w q1 q2" and r: "has_room L f w q1" and v: "2 \<le> v" "v \<le> 1528"
    and w': "w' = w + up4 v + 4" and fits: "w' + 4 \<le> L \<or> q1 = [] \<and> w' \<le> L + 1526"
  shows "bank_ok (m(w := v, w' := 1)) F L f w' q1 (q2 @ [(w, v)])"
proof -
  have lt: "w + 4 < w'" using v up4_bounds(1) [of v] by (simp add: w')
  have wL: "w + 4 \<le> L" using r bank_w(5) [OF b] by (cases "q1 = []") (simp_all add: has_room_def)
  have snoc: "segs (m(w := v, w' := 1)) L p (q2 @ [(w, v)]) w'" if s: "segs m L p q2 w" for p
  proof -
    have "h < w" if "(h, u) \<in> set q2" for h u
      using segs_mem(2,4) [OF s that] up4_bounds(1) [of u] by simp
    then have "segs (m(w := v, w' := 1)) L p q2 w"
      using lt by (intro segs_upd s) (force+)
    then show ?thesis using v wL lt by (simp add: segs_append w')
  qed
  show ?thesis
  proof (cases "q1 = []")
    case True
    then show ?thesis using b snoc [of f] fits by (auto simp: bank_ok_def)
  next
    case False
    then obtain z where z: "segs m L f q1 z" "m z = 0" "F \<le> f" "4 dvd f" "segs m L F q2 w" "w + 4 \<le> f"
      using b by (auto simp: bank_ok_def)
    have room: "w + 4 + 1532 \<le> f"
    proof -
      have "1530 \<le> f - (w + 4)" using r False by (simp add: has_room_def)
      moreover have "4 dvd w" using bank_w(2) [OF b] .
      ultimately show ?thesis using z(4) by presburger
    qed
    then have wf: "w' + 4 \<le> f" using up4_1528 [OF v(2)] by (simp add: w')
    have "segs (m(w := v, w' := 1)) L f q1 z"
      using segs_mem(1) [OF z(1)] lt wf by (intro segs_upd z(1)) (force+)
    moreover have "z \<noteq> w" "z \<noteq> w'" using segs_le [OF z(1)] lt wf by auto
    ultimately show ?thesis
      using b False z wf snoc [OF z(5)] fits by (auto simp: bank_ok_def)
  qed
qed

text \<open>Wrapping to the head of the bank, when the oldest packet is not there.\<close>

lemma bank_wrap:
  assumes b: "bank_ok m F L f w [] q2" and f: "f \<noteq> F" and q: "q2 \<noteq> []"
  shows "bank_ok (m(w := 0, F := 1)) F L f F q2 []"
proof -
  note A = bank_align [OF b]
  have s: "segs m L f q2 w" using b by (simp add: bank_ok_def)
  have F: "F + 4 \<le> f" using aligned_less [OF A(1,2)] A(4) f by simp
  have "segs (m(w := 0, F := 1)) L f q2 w"
    using segs_mem(1,2,4) [OF s] up4_bounds(1) F by (intro segs_upd s) (smt (verit))+
  moreover have "w \<noteq> F" using segs_le [OF s] F by simp
  ultimately show ?thesis using A q F by (auto simp: bank_ok_def intro!: exI [of _ w])
qed

subsection \<open>Freeing and reading\<close>

text \<open>The word behind a packet: the next one, or the tail mark, from which the next is at the head.\<close>

lemma bank_next:
  assumes b: "bank_ok m F L f w q1 q2" and q: "q1 @ q2 = pre @ (h, v) # rest" and y: "y = h + up4 v + 4"
  shows "(if m y = 0 then F else y) = hd (map fst rest @ [w])"
proof (cases "length q1 \<le> length pre")
  case True
  then obtain r where r: "q2 = r @ (h, v) # rest" using q by (auto simp: append_eq_append_conv2)
  obtain p where "segs m L p q2 w" using b by (cases "q1 = []") (auto simp: bank_ok_def)
  then have s: "segs m L y rest w" by (auto simp: r segs_append y)
  have "m y \<noteq> 0"
    using s b by (cases rest) (auto simp: bank_ok_def)
  then show ?thesis using segs_start [OF s] by simp
next
  case False
  then obtain r where r: "q1 = pre @ (h, v) # r" "rest = r @ q2"
    using q by (auto simp: append_eq_append_conv2 append_eq_Cons_conv)
  then obtain z where z: "segs m L f q1 z" "m z = 0" "segs m L F q2 w"
    using b by (auto simp: bank_ok_def)
  then have s: "segs m L y r z" by (auto simp: r(1) segs_append y)
  show ?thesis
  proof (cases r)
    case Nil
    then show ?thesis using s z segs_start [OF z(3)] by (simp add: r(2))
  next
    case (Cons x r')
    then show ?thesis using s by (cases x) (auto simp: r(2))
  qed
qed

text \<open>Freeing the oldest packet: the loop returns, and the packet leaves the bank.\<close>

lemma bank_free:
  assumes b: "bank_ok m F L f w q1 q2" and q: "q1 @ q2 = (h, v) # rest"
  shows "\<exists>f'. advance_free (m(h := - v)) F f = Some f' \<and>
    bank_ok (m(h := - v)) F L f' w (tl q1) (if q1 = [] then tl q2 else q2) \<and> f' = hd (map fst rest @ [w])"
proof -
  let ?m = "m(h := - v)" and ?y = "h + up4 v + 4"
  have hv: "(h, v) \<in> set (q1 @ q2)" using q by simp
  note M = bank_mem [OF b hv]
  note A = bank_align [OF b]
  have fh: "f = h" using bank_starts [OF b] by (simp add: q)
  have next_y: "(if m ?y = 0 then F else ?y) = hd (map fst rest @ [w])"
    using bank_next [OF b, of "[]" h v rest] q by simp
  let ?f' = "hd (map fst rest @ [w])"
  have yh: "h < ?y" using up4_bounds(1) [of v] M(4) by simp
  have off: "h \<noteq> g" if "(g, u) \<in> set (q1 @ q2)" "(g, u) \<noteq> (h, v)" for g u
    using that bank_mem(3) [OF b that(1)] M(3) by auto
  have dist: "(h, v) \<notin> set rest"
  proof (cases "q1 = []")
    case True
    then have "segs m L ?y rest w" using b q by (auto simp: bank_ok_def)
    then show ?thesis using segs_mem(1) [of m L ?y rest w h v] yh by auto
  next
    case False
    then obtain r z where r: "q1 = (h, v) # r" "rest = r @ q2" "segs m L f q1 z" "segs m L F q2 w" "w + 4 \<le> f"
      using b q by (cases q1) (auto simp: bank_ok_def)
    then have "segs m L ?y r z" by simp
    then have "(h, v) \<notin> set r" using segs_mem(1) [of m L ?y r z h v] yh by auto
    moreover have "(h, v) \<notin> set q2"
      using segs_mem(2,4) [OF r(4), of h v] r(5) fh up4_bounds(1) [of v] by auto
    ultimately show ?thesis by (simp add: r(2))
  qed
  then have rest: "h \<noteq> g" if "(g, u) \<in> set rest" for g u
    using off [of g u] that q by (cases "(g, u) = (h, v)") auto
  have hw: "h \<noteq> w" using M(6) .
  have mf': "?m ?f' > 0"
  proof (cases rest)
    case Nil
    then show ?thesis using bank_w(3) [OF b] hw by simp
  next
    case (Cons x r)
    obtain g u where x: "x = (g, u)" by (cases x)
    have "(g, u) \<in> set (q1 @ q2)" using q by (simp add: Cons x)
    then show ?thesis using bank_mem(3,4) [OF b, of g u] rest [of g u] by (simp add: Cons x)
  qed
  have neg: "?m f = - v" by (simp add: fh)
  have step: "advance_free ?m F f = advance_free ?m F ?y"
    using M(4) neg by (subst advance_free.simps) (simp add: fh)
  have ret: "advance_free ?m F ?f' = Some ?f'"
    using mf' by (subst advance_free.simps) simp
  have loop: "advance_free ?m F f = Some ?f'"
  proof (cases "m ?y = 0")
    case True
    then have "?m ?y = 0" using yh by simp
    then have "advance_free ?m F ?y = advance_free ?m F F"
      by (subst advance_free.simps) simp
    then show ?thesis using step next_y True ret by simp
  next
    case False
    then show ?thesis using step next_y ret by simp
  qed
  have "bank_ok ?m F L ?f' w (tl q1) (if q1 = [] then tl q2 else q2)"
  proof (cases "q1 = []")
    case True
    then have q2: "q2 = (h, v) # rest" and s: "segs m L ?y rest w" using q b by (auto simp: bank_ok_def)
    have y: "?f' = ?y" using segs_start [OF s] by simp
    have "segs ?m L ?y rest w" using rest by (intro segs_upd s) auto
    moreover have "4 dvd ?y" using A(2) up4_bounds(3) [of v] by (simp add: fh)
    ultimately show ?thesis
      using True A bank_w [OF b] hw yh fh unfolding y by (simp add: bank_ok_def q2)
  next
    case False
    then obtain r z where r: "q1 = (h, v) # r" "rest = r @ q2" "segs m L f q1 z" "m z = 0" "segs m L F q2 w" "w + 4 \<le> f"
      using b q by (cases q1) (auto simp: bank_ok_def)
    have s: "segs m L ?y r z" using r(1,3) by simp
    have s1: "segs ?m L ?y r z" and s2: "segs ?m L F q2 w"
      using rest r(2) by (intro segs_upd s segs_upd r(5); force)+
    have z: "?m z = 0" using segs_le [OF s] yh r(4) by simp
    have dy: "4 dvd ?y" using A(2) up4_bounds(3) [of v] by (simp add: fh)
    show ?thesis
    proof (cases "r = []")
      case True
      have "?f' = F" using segs_start [OF r(5)] by (simp add: r(2) True)
      then show ?thesis using True r(1) A bank_w [OF b] hw s2 by (simp add: bank_ok_def)
    next
      case nonempty: False
      then have "?f' = ?y" using segs_start [OF s] by (simp add: r(2) hd_append)
      then show ?thesis
        using nonempty r(1,6) A bank_w [OF b] hw yh s1 s2 z fh dy by (auto simp: bank_ok_def)
    qed
  qed
  then show ?thesis using loop by blast
qed

text \<open>Freeing never takes room away.\<close>

lemma room_free:
  assumes b: "bank_ok m F L f w q1 q2" and r: "has_room L f w q1" and q: "q1 @ q2 = (h, v) # rest"
    and b': "bank_ok m' F L f' w (tl q1) q2'" and f': "f' = hd (map fst rest @ [w])"
  shows "has_room L f' w (tl q1)"
proof (cases "q1 = []")
  case True
  then show ?thesis using r by (simp add: has_room_def)
next
  case False
  then obtain t where t: "q1 = (h, v) # t" "rest = t @ q2" using q by (cases q1) auto
  show ?thesis
  proof (cases t)
    case Nil
    then show ?thesis using bank_w(5) [OF b False] by (simp add: has_room_def t(1))
  next
    case (Cons x t')
    obtain z where s: "segs m L f q1 z" using b False by (auto simp: bank_ok_def)
    have "f \<le> fst x"
      using s segs_mem(1) [OF s, of "fst x" "snd x"] by (simp add: t(1) Cons)
    then show ?thesis using r f' by (simp add: has_room_def t Cons)
  qed
qed

end
