(* ===== verification/Lite_System.thy ===== *)
theory Lite_System
  imports Lite_Bank
begin

text \<open>
  The lite receiver as a whole: the interrupt that commits frames, the low-level driver that writes
  into the buffer it was given, and the server of \<open>mii_single_server.xc\<close>, which holds one packet at
  a time and frees it before it asks for the next. The invariant \<open>lite_ok\<close> keeps both banks well
  formed and the buffers of the driver apart from the packets that wait.
\<close>

definition bank :: "miiData \<Rightarrow> nat \<Rightarrow> lite_packet list \<Rightarrow> lite_packet list \<Rightarrow> bool" where
  "bank s b q1 q2 \<longleftrightarrow>
     bank_ok (get_w s) (firstPtr s b) (lastSafePtr s b) (freePtr s b) (wrPtr s b - 4) q1 q2"

definition room :: "miiData \<Rightarrow> nat \<Rightarrow> lite_packet list \<Rightarrow> bool" where
  "room s b q1 \<longleftrightarrow> has_room (lastSafePtr s b) (freePtr s b) (wrPtr s b - 4) q1"

text \<open>A bank with no room whose next refill waits until its oldest packet is freed.\<close>

definition stuck :: "miiData \<Rightarrow> nat \<Rightarrow> lite_packet list \<Rightarrow> bool" where
  "stuck s b q1 \<longleftrightarrow> (q1 = [] \<longrightarrow> freePtr s b = firstPtr s b \<and> lastSafePtr s b < wrPtr s b)"

text \<open>Length, time stamp and words of a packet.\<close>

type_synonym contents = "int \<times> int \<times> word32 list"

definition packet_of :: "miiData \<Rightarrow> lite_packet \<Rightarrow> contents" where
  "packet_of s = (\<lambda>(h, v). (v - 4, get_w s (h + 4), map (\<lambda>i. lmem s (h + 8 + 4 * int i)) [0..<nat ((v - 4 + 3) div 4)]))"

text \<open>What a step on bank \<open>b\<close> leaves alone.\<close>

definition frame :: "nat \<Rightarrow> miiData \<Rightarrow> miiData \<Rightarrow> bool" where
  "frame b s s' \<longleftrightarrow>
     firstPtr s' = firstPtr s \<and> lastSafePtr s' = lastSafePtr s \<and>
     (\<forall>c. c \<noteq> b \<longrightarrow> freePtr s' c = freePtr s c \<and> wrPtr s' c = wrPtr s c) \<and>
     (\<forall>x. lmem s' x \<noteq> lmem s x \<longrightarrow> firstPtr s b \<le> x \<and> x < lastSafePtr s b + 1530)"

definition same_data :: "miiData \<Rightarrow> miiData \<Rightarrow> lite_packet list \<Rightarrow> bool" where
  "same_data s s' q \<longleftrightarrow>
     (\<forall>(h, v) \<in> set q. \<forall>x. h + 4 \<le> x \<and> x < h + 4 + up4 v \<longrightarrow> lmem s' x = lmem s x)"

lemma packet_of_same:
  assumes "same_data s s' q" "(h, v) \<in> set q" "2 \<le> v"
  shows "packet_of s' (h, v) = packet_of s (h, v)"
proof -
  have d: "lmem s' x = lmem s x" if "h + 4 \<le> x" "x < h + 4 + up4 v" for x
    using assms(1,2) that by (auto simp: same_data_def)
  have u: "v \<le> up4 v" by (rule up4_bounds)
  have "lmem s' (h + 8 + 4 * int i) = lmem s (h + 8 + 4 * int i)" if "i < nat ((v - 4 + 3) div 4)" for i
  proof -
    have "4 * int i < v - 4" using that by linarith
    then show ?thesis using u by (intro d) auto
  qed
  moreover have "lmem s' (h + 4) = lmem s (h + 4)" using u assms(3) by (intro d) auto
  ultimately show ?thesis by (simp add: packet_of_def get_w_def)
qed

lemma same_data_mono: "same_data s s' q \<Longrightarrow> set r \<subseteq> set q \<Longrightarrow> same_data s s' r"
  unfolding same_data_def by blast

lemma packets_same:
  assumes "same_data s s' q" "\<And>h v. (h, v) \<in> set q \<Longrightarrow> 2 \<le> v"
  shows "map (packet_of s') q = map (packet_of s) q"
  using assms(2) packet_of_same [OF assms(1)] by auto

text \<open>Where the data of the packets of a bank lie.\<close>

lemma bank_data:
  assumes b: "bank_ok m F L f w q1 q2" and q: "(h, v) \<in> set (q1 @ q2)" and x: "h + 4 \<le> x" "x < h + 4 + up4 v"
  shows "F + 4 \<le> x" "x < L + 1530" "if q1 = [] then f + 4 \<le> x \<and> x < w else x < w \<or> f + 4 \<le> x"
    "has_room L f w q1 \<Longrightarrow> \<not> (w + 4 \<le> x \<and> x < w + 1534)"
proof -
  note M = bank_mem [OF b q]
  show "F + 4 \<le> x" "x < L + 1530" using M(1,2) x by simp_all
  show c: "if q1 = [] then f + 4 \<le> x \<and> x < w else x < w \<or> f + 4 \<le> x"
  proof (cases "q1 = []")
    case True
    then have "segs m L f q2 w" "(h, v) \<in> set q2" using b q by (auto simp: bank_ok_def)
    from segs_mem(1,2) [OF this] show ?thesis using True x by simp
  next
    case False
    then obtain z where z: "segs m L f q1 z" "segs m L F q2 w" using b by (auto simp: bank_ok_def)
    show ?thesis
    proof (cases "(h, v) \<in> set q1")
      case True
      from segs_mem(1) [OF z(1) True] show ?thesis using False x by simp
    next
      case F: False
      then have "(h, v) \<in> set q2" using q by simp
      from segs_mem(2) [OF z(2) this] show ?thesis using False x by simp
    qed
  qed
  show "\<not> (w + 4 \<le> x \<and> x < w + 1534)" if "has_room L f w q1"
    using c that by (auto simp: has_room_def split: if_splits)
qed

text \<open>A change of memory outside a bank, or in the space it offers, keeps the bank and its data.\<close>

lemma bank_frame:
  assumes b: "bank s b q1 q2"
    and ptrs: "firstPtr s' b = firstPtr s b" "lastSafePtr s' b = lastSafePtr s b" "freePtr s' b = freePtr s b"
      "wrPtr s' b = wrPtr s b"
    and m: "\<And>x. firstPtr s b \<le> x \<Longrightarrow> x < lastSafePtr s b + 1530 \<Longrightarrow>
      \<not> (room s b q1 \<and> wrPtr s b \<le> x \<and> x < wrPtr s b + 1530) \<Longrightarrow> lmem s' x = lmem s x"
  shows "bank s' b q1 q2" "same_data s s' (q1 @ q2)" "room s' b r = room s b r" "stuck s' b r = stuck s b r"
proof -
  have "bank_ok (get_w s') (firstPtr s b) (lastSafePtr s b) (freePtr s b) (wrPtr s b - 4) q1 q2"
  proof (rule bank_cong [OF b [unfolded bank_def]])
    fix x
    assume x: "firstPtr s b \<le> x" "x < lastSafePtr s b + 1530"
      "\<not> (has_room (lastSafePtr s b) (freePtr s b) (wrPtr s b - 4) q1 \<and> wrPtr s b - 4 + 4 \<le> x \<and> x < wrPtr s b - 4 + 1534)"
    have "lmem s' x = lmem s x" by (rule m [OF x(1,2)]) (use x(3) in \<open>auto simp: room_def\<close>)
    then show "get_w s' x = get_w s x" by (simp add: get_w_def)
  qed
  then show "bank s' b q1 q2" by (simp add: bank_def ptrs)
  show "same_data s s' (q1 @ q2)"
    unfolding same_data_def
  proof (clarify)
    fix h v x
    assume q: "(h, v) \<in> set (q1 @ q2)" and x: "h + 4 \<le> x" "x < h + 4 + up4 v"
    note D = bank_data [OF b [unfolded bank_def] q x]
    show "lmem s' x = lmem s x"
    proof (rule m)
      show "firstPtr s b \<le> x" "x < lastSafePtr s b + 1530" using D(1,2) by simp_all
      show "\<not> (room s b q1 \<and> wrPtr s b \<le> x \<and> x < wrPtr s b + 1530)"
        using D(4) by (auto simp: room_def)
    qed
  qed
  show "room s' b r = room s b r" "stuck s' b r = stuck s b r"
    by (simp_all add: room_def stuck_def ptrs)
qed

subsection \<open>Fields of the state after the small operations\<close>

lemma set_w_fields [simp]:
  "nextBuffer (set_w a v s) = nextBuffer s" "packetInLLD (set_w a v s) = packetInLLD s"
  "refillBankNumber (set_w a v s) = refillBankNumber s" "freePtr (set_w a v s) = freePtr s"
  "wrPtr (set_w a v s) = wrPtr s" "lastSafePtr (set_w a v s) = lastSafePtr s"
  "firstPtr (set_w a v s) = firstPtr s" "readPtr (set_w a v s) = readPtr s"
  "readBank (set_w a v s) = readBank s" "notifyLast (set_w a v s) = notifyLast s"
  "notifySeen (set_w a v s) = notifySeen s" "tokens (set_w a v s) = tokens s"
  "lmem (set_w a v s) = (lmem s)(a := word_of_int v)"
  by (simp_all add: set_w_def)

lemma miiNotify_fields [simp]:
  "nextBuffer (miiNotify s) = nextBuffer s" "packetInLLD (miiNotify s) = packetInLLD s"
  "refillBankNumber (miiNotify s) = refillBankNumber s" "freePtr (miiNotify s) = freePtr s"
  "wrPtr (miiNotify s) = wrPtr s" "lastSafePtr (miiNotify s) = lastSafePtr s"
  "firstPtr (miiNotify s) = firstPtr s" "readPtr (miiNotify s) = readPtr s"
  "readBank (miiNotify s) = readBank s" "lmem (miiNotify s) = lmem s"
  by (simp_all add: miiNotify_def Let_def)

lemma wrap_bank_fields [simp]:
  "nextBuffer (wrap_bank b s) = nextBuffer s" "packetInLLD (wrap_bank b s) = packetInLLD s"
  "refillBankNumber (wrap_bank b s) = refillBankNumber s" "freePtr (wrap_bank b s) = freePtr s"
  "wrPtr (wrap_bank b s) = (wrPtr s)(b := firstPtr s b + 4)" "lastSafePtr (wrap_bank b s) = lastSafePtr s"
  "firstPtr (wrap_bank b s) = firstPtr s" "readPtr (wrap_bank b s) = readPtr s"
  "readBank (wrap_bank b s) = readBank s"
  "lmem (wrap_bank b s) = (lmem s)(wrPtr s b - 4 := 0, firstPtr s b := 1)"
  by (simp_all add: wrap_bank_def Let_def)

lemma get_w_lmem: "get_w s = (\<lambda>a. sint (lmem s a))"
  by (simp add: get_w_def fun_eq_iff)

lemma sint_small: "- (2 ^ 31) \<le> v \<Longrightarrow> v < 2 ^ 31 \<Longrightarrow> sint (word_of_int v :: word32) = v"
  by (simp add: sint_sbintrunc' signed_take_bit_int_eq_self)

text \<open>The bank of a buffer, from its address.\<close>

definition banks_apart :: "miiData \<Rightarrow> bool" where
  "banks_apart s \<longleftrightarrow> firstPtr s 1 = lastSafePtr s 0 + 1530"

lemma room_wr: "bank s b q1 q2 \<Longrightarrow> room s b q1 \<Longrightarrow> wrPtr s b \<le> lastSafePtr s b"
  using bank_w(5) [of "get_w s" "firstPtr s b" "lastSafePtr s b" "freePtr s b" "wrPtr s b - 4" q1 q2]
  by (cases "q1 = []") (auto simp: bank_def room_def has_room_def)

lemma bank_of_buffer:
  assumes b: "b < 2" "bank s b q1 q2" "banks_apart s" and a: "firstPtr s b \<le> a" "a < lastSafePtr s b + 1530"
  shows "(if a < firstPtr s 1 then 0 else 1) = b"
  using assms by (cases "b = 0") (auto simp: banks_apart_def less_2_cases_iff)

subsection \<open>Committing\<close>

lemma commit_fields:
  assumes bn: "(if a < firstPtr s 1 then 0 else 1) = b" and s': "s' = miiCommitBuffer a v s"
    and w: "w = wrPtr s b - 4" and w': "w' = w + up4 v + 4"
    and wraps: "wraps \<longleftrightarrow> lastSafePtr s b < w' + 4 \<and> freePtr s b \<noteq> firstPtr s b"
    and ok: "ok \<longleftrightarrow> (if lastSafePtr s b < w' + 4
       then freePtr s b \<noteq> firstPtr s b \<and> MAXPACKET \<le> freePtr s b - (firstPtr s b + 4)
       else freePtr s b < w' + 4 \<or> MAXPACKET \<le> freePtr s b - (w' + 4))"
  shows "lmem s' = (if wraps then (lmem s)(w := word_of_int v, w' := 0, firstPtr s b := 1)
                    else (lmem s)(w := word_of_int v, w' := 1))"
    "wrPtr s' = (wrPtr s)(b := if wraps then firstPtr s b + 4 else w' + 4)"
    "nextBuffer s' = (if ok then wrPtr s' b else - 1)" "refillBankNumber s' = (if ok then refillBankNumber s else b)"
    "freePtr s' = freePtr s" "firstPtr s' = firstPtr s" "lastSafePtr s' = lastSafePtr s"
    "readPtr s' = readPtr s" "readBank s' = readBank s" "packetInLLD s' = packetInLLD s"
  unfolding s' miiCommitBuffer_def bn w' w wraps ok
  by (simp_all add: Let_def)

text \<open>The header words that committing writes are apart from the data of the packets.\<close>

lemma commit_apart:
  assumes b: "bank_ok m F L f w q1 q2" and r: "has_room L f w q1" and v: "2 \<le> v" "v \<le> 1528"
    and q: "(h, u) \<in> set (q1 @ q2 @ [(w, v)])" and x: "h + 4 \<le> x" "x < h + 4 + up4 u"
  shows "x \<noteq> w" "x \<noteq> w + up4 v + 4" "F + 4 \<le> x"
proof -
  have up: "v \<le> up4 v" "up4 v \<le> 1528" using up4_bounds [of v] up4_1528 [OF v(2)] by auto
  have "x \<noteq> w \<and> x \<noteq> w + up4 v + 4 \<and> F + 4 \<le> x"
  proof (cases "(h, u) \<in> set (q1 @ q2)")
    case True
    note D = bank_data [OF b True x]
    have D4: "\<not> (w + 4 \<le> x \<and> x < w + 1534)" by (rule D(4) [OF r])
    have "q1 \<noteq> [] \<Longrightarrow> w + 4 \<le> f" using b by (auto simp: bank_ok_def)
    then have "x < w \<or> w + 4 \<le> x"
      using D(3) by (cases "q1 = []") auto
    then show ?thesis using D(1) D4 up v by auto
  next
    case False
    then have "h = w" "u = v" using q by auto
    then show ?thesis using x bank_w(1) [OF b] up by auto
  qed
  then show "x \<noteq> w" "x \<noteq> w + up4 v + 4" "F + 4 \<le> x" by simp_all
qed

lemma commit_ok:
  assumes b: "b < 2" "bank s b q1 q2" "banks_apart s" and r: "room s b q1" and v: "2 \<le> v" "v \<le> 1528"
    and s': "s' = miiCommitBuffer (wrPtr s b) v s"
  shows "\<exists>r1 r2. r1 @ r2 = q1 @ q2 @ [(wrPtr s b - 4, v)] \<and> bank s' b r1 r2 \<and>
      (nextBuffer s' = wrPtr s' b \<and> room s' b r1 \<or> nextBuffer s' = - 1 \<and> refillBankNumber s' = b \<and> stuck s' b r1)"
    "frame b s s'" "same_data s s' (q1 @ q2 @ [(wrPtr s b - 4, v)])"
    "readPtr s' = readPtr s" "readBank s' = readBank s" "packetInLLD s' = packetInLLD s" "freePtr s' = freePtr s"
proof -
  define w where "w = wrPtr s b - 4"
  define w' where "w' = w + up4 v + 4"
  let ?F = "firstPtr s b" and ?L = "lastSafePtr s b" and ?f = "freePtr s b" and ?m = "get_w s"
  let ?wraps = "?L < w' + 4 \<and> ?f \<noteq> ?F"
  let ?ok = "if ?L < w' + 4 then ?f \<noteq> ?F \<and> MAXPACKET \<le> ?f - (?F + 4)
       else ?f < w' + 4 \<or> MAXPACKET \<le> ?f - (w' + 4)"
  have B: "bank_ok ?m ?F ?L ?f w q1 q2" and R: "has_room ?L ?f w q1"
    using b(2) r by (simp_all add: bank_def room_def w_def)
  note W = bank_w [OF B] and A = bank_align [OF B]
  have wL: "w + 4 \<le> ?L" using room_wr [OF b(2) r] by (simp add: w_def)
  have bn: "(if wrPtr s b < firstPtr s 1 then 0 else 1) = b"
    using W(1) wL by (intro bank_of_buffer [OF b]) (auto simp: w_def)
  note C = commit_fields [OF bn s' w_def w'_def refl refl]
  have up: "v \<le> up4 v" "up4 v \<le> 1528" "4 dvd up4 v" using up4_bounds [of v] up4_1528 [OF v(2)] by auto
  have w'L: "w' \<le> ?L + 1526" "w + 4 < w'"
  proof -
    have "w + 6 \<le> ?L" using wL W(2) A(3) by presburger
    then show "w' \<le> ?L + 1526" "w + 4 < w'" using up v by (simp_all add: w'_def)
  qed
  show "readPtr s' = readPtr s" "readBank s' = readBank s" "packetInLLD s' = packetInLLD s" "freePtr s' = freePtr s"
    by (rule C)+
  have mem: "x = w \<or> x = w' \<or> x = ?F" if "lmem s' x \<noteq> lmem s x" for x
    using that by (auto simp: C(1) split: if_splits)
  show "frame b s s'"
    unfolding frame_def using W(1,4) w'L A(5) wL
    by (auto simp: C(2,5-7) dest!: mem)
  show "same_data s s' (q1 @ q2 @ [(wrPtr s b - 4, v)])"
    unfolding same_data_def w_def [symmetric]
  proof (clarify)
    fix h u x
    assume "(h, u) \<in> set (q1 @ q2 @ [(w, v)])" "h + 4 \<le> x" "x < h + 4 + up4 u"
    from commit_apart [OF B R v this] show "lmem s' x = lmem s x"
      using mem [of x] by (auto simp: w'_def)
  qed
  have sv: "sint (word_of_int v :: word32) = v" using v by (intro sint_small) auto
  show "\<exists>r1 r2. r1 @ r2 = q1 @ q2 @ [(wrPtr s b - 4, v)] \<and> bank s' b r1 r2 \<and>
      (nextBuffer s' = wrPtr s' b \<and> room s' b r1 \<or> nextBuffer s' = - 1 \<and> refillBankNumber s' = b \<and> stuck s' b r1)"
    unfolding w_def [symmetric]
  proof (cases ?wraps)
    case False
    have m': "lmem s' = (lmem s)(w := word_of_int v, w' := 1)" "wrPtr s' = (wrPtr s)(b := w' + 4)"
      by (simp_all only: C(1,2) False if_False)
    have f: "w' + 4 \<le> ?f \<and> ?f + 4 \<le> ?L" if "q1 \<noteq> []"
    proof -
      have "1530 \<le> ?f - (w + 4)" using R that by (simp add: has_room_def)
      moreover have "?f + 4 \<le> ?L" using B that by (cases q1) (auto simp: bank_ok_def)
      ultimately show ?thesis using W(2) A(2) up by (simp add: w'_def) presburger
    qed
    have fits: "w' + 4 \<le> ?L \<or> q1 = [] \<and> w' \<le> ?L + 1526"
      using f w'L by (cases "q1 = []") auto
    have "get_w s' = (get_w s)(w := v, w' := 1)"
      by (simp add: m' get_w_lmem sv fun_eq_iff)
    then have bank': "bank s' b q1 (q2 @ [(w, v)])"
      using bank_commit_stay [OF B R v w'_def fits] by (simp add: bank_def m' C(5-7))
    have "nextBuffer s' = wrPtr s' b \<and> room s' b q1 \<or> nextBuffer s' = - 1 \<and> refillBankNumber s' = b \<and> stuck s' b q1"
    proof (cases ?ok)
      case True
      then have ok: "\<not> ?L < w' + 4" "?f < w' + 4 \<or> MAXPACKET \<le> ?f - (w' + 4)"
        using False by (auto split: if_splits)
      then have "room s' b q1"
        using f by (auto simp: room_def has_room_def m'(2) C(5-7) MAXPACKET_def)
      then show ?thesis using trans [OF C(3) if_P [OF True]] by simp
    next
      case no: False
      have "?f \<le> w' + 4" if "q1 = []"
        using that B segs_le [of ?m ?L ?f q2 w] w'L by (simp add: bank_ok_def)
      moreover have "?f \<noteq> w' + 4" if "q1 = []"
        using that B segs_le [of ?m ?L ?f q2 w] w'L by (simp add: bank_ok_def)
      ultimately have "stuck s' b q1"
        using no False by (auto simp: stuck_def m'(2) C(5-7) split: if_splits)
      then show ?thesis using trans [OF C(3) if_not_P [OF no]] trans [OF C(4) if_not_P [OF no]] by simp
    qed
    then show "\<exists>r1 r2. r1 @ r2 = q1 @ q2 @ [(w, v)] \<and> bank s' b r1 r2 \<and>
      (nextBuffer s' = wrPtr s' b \<and> room s' b r1 \<or> nextBuffer s' = - 1 \<and> refillBankNumber s' = b \<and> stuck s' b r1)"
      using bank' by (intro exI [of _ q1] exI [of _ "q2 @ [(w, v)]"]) simp
  next
    case True
    have m': "lmem s' = (lmem s)(w := word_of_int v, w' := 0, ?F := 1)" "wrPtr s' = (wrPtr s)(b := ?F + 4)"
      by (simp_all only: C(1,2) True if_True simp_thms)
    have "q1 = []"
    proof (rule ccontr)
      assume q1: "q1 \<noteq> []"
      then have "1530 \<le> ?f - (w + 4)" using R by (simp add: has_room_def)
      then have "w' + 4 \<le> ?f" using W(2) A(2) up by (simp add: w'_def) presburger
      moreover have "?f + 4 \<le> ?L" using B q1 by (cases q1) (auto simp: bank_ok_def)
      ultimately show False using True by simp
    qed
    note q1 = this
    have B': "bank_ok (?m(w := v, w' := 1)) ?F ?L ?f w' [] (q2 @ [(w, v)])"
      using bank_commit_stay [OF B R v w'_def] q1 w'L by simp
    have "get_w s' = (?m(w := v, w' := 1)) (w' := 0, ?F := 1)"
      by (simp add: m' get_w_lmem sv fun_eq_iff)
    then have bank': "bank s' b (q2 @ [(w, v)]) []"
      using bank_wrap [OF B' conjunct2 [OF True]] by (simp add: bank_def m'(2) C(5-7))
    have "nextBuffer s' = wrPtr s' b \<and> room s' b (q2 @ [(w, v)]) \<or>
        nextBuffer s' = - 1 \<and> refillBankNumber s' = b \<and> stuck s' b (q2 @ [(w, v)])"
      using True by (simp add: C(3,4) m'(2) C(5-7) room_def has_room_def stuck_def MAXPACKET_def)
    then show "\<exists>r1 r2. r1 @ r2 = q1 @ q2 @ [(w, v)] \<and> bank s' b r1 r2 \<and>
      (nextBuffer s' = wrPtr s' b \<and> room s' b r1 \<or> nextBuffer s' = - 1 \<and> refillBankNumber s' = b \<and> stuck s' b r1)"
      using bank' q1 by (intro exI [of _ "q2 @ [(w, v)]"] exI [of _ "[]"]) simp
  qed
qed

subsection \<open>Restarting\<close>

lemma restart_ok:
  assumes b: "b < 2" "bank s b q1 q2" and n: "nextBuffer s = - 1" "refillBankNumber s = b"
    and live: "q1 = [] \<and> lastSafePtr s b < wrPtr s b \<and> freePtr s b \<noteq> firstPtr s b \<longrightarrow> q2 \<noteq> []"
    and s': "s' = mii_restart_buffer s"
  shows "\<exists>r1 r2. r1 @ r2 = q1 @ q2 \<and> bank s' b r1 r2 \<and>
      (nextBuffer s' = wrPtr s' b \<and> room s' b r1 \<or> nextBuffer s' = - 1 \<and> refillBankNumber s' = b \<and> stuck s' b r1) \<and>
      (wrPtr s' b - 4 = wrPtr s b - 4 \<or> q1 @ q2 \<noteq> [])"
    "frame b s s'" "same_data s s' (q1 @ q2)"
    "readPtr s' = readPtr s" "readBank s' = readBank s" "packetInLLD s' = packetInLLD s" "freePtr s' = freePtr s"
proof -
  define w where "w = wrPtr s b - 4"
  let ?F = "firstPtr s b" and ?L = "lastSafePtr s b" and ?f = "freePtr s b" and ?m = "get_w s"
  have B: "bank_ok ?m ?F ?L ?f w q1 q2" using b(2) by (simp add: bank_def w_def)
  note W = bank_w [OF B] and A = bank_align [OF B]
  let ?wraps = "?L < wrPtr s b \<and> ?f \<noteq> ?F"
  let ?ok = "if ?L < wrPtr s b then ?f \<noteq> ?F \<and> MAXPACKET \<le> ?f - (?F + 4)
     else ?f < wrPtr s b \<or> MAXPACKET \<le> ?f - wrPtr s b"
  have C: "lmem s' = (if ?wraps then (lmem s)(w := 0, ?F := 1) else lmem s)"
    "wrPtr s' = (if ?wraps then (wrPtr s)(b := ?F + 4) else wrPtr s)"
    "nextBuffer s' = (if ?ok then wrPtr s' b else - 1)" "refillBankNumber s' = b"
    "freePtr s' = freePtr s" "firstPtr s' = firstPtr s" "lastSafePtr s' = lastSafePtr s"
    "readPtr s' = readPtr s" "readBank s' = readBank s" "packetInLLD s' = packetInLLD s"
    unfolding s' mii_restart_buffer_def w_def using n by (simp_all add: Let_def)
  show "readPtr s' = readPtr s" "readBank s' = readBank s" "packetInLLD s' = packetInLLD s" "freePtr s' = freePtr s"
    by (rule C)+
  have mem: "x = w \<or> x = ?F" if "lmem s' x \<noteq> lmem s x" for x
    using that by (auto simp: C(1) split: if_splits)
  have wr: "wrPtr s' c = wrPtr s c" if "c \<noteq> b" for c using that by (simp add: C(2))
  show "frame b s s'"
    unfolding frame_def using W(1,4) A(5) wr by (auto simp: C(5-7) dest!: mem)
  show "same_data s s' (q1 @ q2)"
    unfolding same_data_def
  proof (clarify)
    fix h u x
    assume "(h, u) \<in> set (q1 @ q2)" "h + 4 \<le> x" "x < h + 4 + up4 u"
    note D = bank_data [OF B this]
    have "q1 \<noteq> [] \<Longrightarrow> w + 4 \<le> ?f" using B by (auto simp: bank_ok_def)
    then have "x \<noteq> w" using D(3) by (cases "q1 = []") auto
    then show "lmem s' x = lmem s x" using D(1) mem [of x] by auto
  qed
  show "\<exists>r1 r2. r1 @ r2 = q1 @ q2 \<and> bank s' b r1 r2 \<and>
      (nextBuffer s' = wrPtr s' b \<and> room s' b r1 \<or> nextBuffer s' = - 1 \<and> refillBankNumber s' = b \<and> stuck s' b r1) \<and>
      (wrPtr s' b - 4 = wrPtr s b - 4 \<or> q1 @ q2 \<noteq> [])"
  proof (cases ?wraps)
    case True
    have m': "lmem s' = (lmem s)(w := 0, ?F := 1)" "wrPtr s' = (wrPtr s)(b := ?F + 4)"
      by (simp_all only: C(1,2) True if_True simp_thms)
    have q1: "q1 = []" using W(5) True by (auto simp: w_def)
    then have q2: "q2 \<noteq> []" using live True by simp
    have "get_w s' = ?m(w := 0, ?F := 1)" by (simp add: m' get_w_lmem fun_eq_iff)
    then have bank': "bank s' b q2 []"
      using bank_wrap [OF B [unfolded q1] conjunct2 [OF True] q2] by (simp add: bank_def m'(2) C(5-7))
    have "nextBuffer s' = wrPtr s' b \<and> room s' b q2 \<or>
        nextBuffer s' = - 1 \<and> refillBankNumber s' = b \<and> stuck s' b q2"
      using True q2 by (simp add: C(3,4) m'(2) C(5-7) room_def has_room_def stuck_def MAXPACKET_def)
    then show ?thesis
      using bank' q1 q2 by (intro exI [of _ q2] exI [of _ "[]"]) simp
  next
    case False
    have m': "lmem s' = lmem s" "wrPtr s' = wrPtr s"
      by (simp_all only: C(1,2) False if_False)
    have bank': "bank s' b q1 q2" using b(2) by (simp add: bank_def get_w_lmem m' C(5-7))
    have wf: "q1 \<noteq> [] \<Longrightarrow> w + 4 \<le> ?f" using B by (auto simp: bank_ok_def)
    have fw: "q1 = [] \<Longrightarrow> ?f \<le> w" using B segs_le [of ?m ?L ?f q2 w] by (auto simp: bank_ok_def)
    have "nextBuffer s' = wrPtr s' b \<and> room s' b q1 \<or> nextBuffer s' = - 1 \<and> refillBankNumber s' = b \<and> stuck s' b q1"
    proof (cases ?ok)
      case True
      then have ok: "\<not> ?L < wrPtr s b" "?f < wrPtr s b \<or> MAXPACKET \<le> ?f - wrPtr s b"
        using False by (auto split: if_splits)
      then have "room s' b q1"
        using wf by (auto simp: room_def has_room_def m'(2) C(5-7) MAXPACKET_def w_def)
      then show ?thesis using trans [OF C(3) if_P [OF True]] by simp
    next
      case no: False
      then have "stuck s' b q1"
        using no False fw by (auto simp: stuck_def m'(2) C(5-7) w_def split: if_splits)
      then show ?thesis using trans [OF C(3) if_not_P [OF no]] C(4) by simp
    qed
    then show ?thesis
      using bank' by (intro exI [of _ q1] exI [of _ q2]) (simp add: m'(2))
  qed
qed

subsection \<open>Freeing the oldest packet\<close>

lemma free_ok:
  assumes b: "b < 2" "bank s b q1 q2" "banks_apart s" and q: "q1 @ q2 = (h, v) # rest"
  shows "\<exists>s' r2. mii_free_in_buffer (h + 8) s = Some s' \<and> tl q1 @ r2 = rest \<and> bank s' b (tl q1) r2 \<and>
    (room s b q1 \<longrightarrow> room s' b (tl q1)) \<and> frame b s s' \<and> same_data s s' rest \<and>
    wrPtr s' = wrPtr s \<and> readPtr s' = readPtr s \<and> readBank s' = readBank s \<and> packetInLLD s' = packetInLLD s \<and>
    nextBuffer s' = nextBuffer s \<and> refillBankNumber s' = refillBankNumber s \<and>
    freePtr s' b = hd (map fst rest @ [wrPtr s b - 4])"
proof -
  define w where "w = wrPtr s b - 4"
  let ?F = "firstPtr s b" and ?L = "lastSafePtr s b" and ?f = "freePtr s b" and ?m = "get_w s"
  have B: "bank_ok ?m ?F ?L ?f w q1 q2" using b(2) by (simp add: bank_def w_def)
  have hv: "(h, v) \<in> set (q1 @ q2)" by (simp add: q)
  note M = bank_mem [OF B hv]
  let ?s = "set_w h (- v) s"
  have bn: "(if h + 8 < firstPtr s 1 then 0 else 1) = b"
  proof (rule bank_of_buffer [OF b])
    show "?F \<le> h + 8" using M(1) by simp
    show "h + 8 < ?L + 1530" using M(2,4) up4_bounds(3) [of v] up4_bounds(1) [of v] by presburger
  qed
  have m: "get_w ?s = ?m(h := - v)" using M(4,5) by (intro get_w_set_w) auto
  obtain f' where f': "advance_free (?m(h := - v)) ?F ?f = Some f'"
    "bank_ok (?m(h := - v)) ?F ?L f' w (tl q1) (if q1 = [] then tl q2 else q2)"
    "f' = hd (map fst rest @ [w])"
    using bank_free [OF B q] by blast
  let ?s' = "?s\<lparr>freePtr := (freePtr s)(b := f')\<rparr>"
  let ?r2 = "if q1 = [] then tl q2 else q2"
  have lm: "lmem ?s' = (lmem s)(h := word_of_int (- v))" by simp
  have gm: "get_w ?s' = ?m(h := - v)" using m by (simp add: get_w_def fun_eq_iff)
  have "mii_free_in_buffer (h + 8) s = Some ?s'"
    unfolding mii_free_in_buffer_def bn using M(3) m f'(1) by (simp add: Let_def)
  moreover have "tl q1 @ ?r2 = rest" using q by (cases q1) auto
  moreover have bank': "bank ?s' b (tl q1) ?r2"
    using f'(2) by (simp add: bank_def gm w_def)
  moreover have "room s b q1 \<longrightarrow> room ?s' b (tl q1)"
    using room_free [OF B _ q f'(2,3)] by (auto simp: room_def w_def)
  moreover have "frame b s ?s'"
    using M(1,2,4) up4_bounds(1) [of v] by (auto simp: frame_def split: if_splits)
  moreover have "same_data s ?s' rest"
    unfolding same_data_def lm
  proof (clarify)
    fix g u x
    assume g: "(g, u) \<in> set rest" and x: "g + 4 \<le> x" "x < g + 4 + up4 u"
    have gq: "(g, u) \<in> set (q1 @ q2)" using g q by simp
    have fh: "?f = h" using bank_starts [OF B] by (simp add: q)
    have "q1 \<noteq> [] \<Longrightarrow> w + 4 \<le> ?f" using B by (auto simp: bank_ok_def)
    then have "x \<noteq> h" using bank_data(3) [OF B gq x] fh by (cases "q1 = []") auto
    then show "((lmem s)(h := word_of_int (- v))) x = lmem s x" by simp
  qed
  ultimately show ?thesis
    using f'(3) by (intro exI [of _ ?s'] exI [of _ ?r2]) (simp add: w_def)
qed

subsection \<open>Reading\<close>

lemma get_from_bank_ok:
  assumes b: "bank s b q1 q2" "b = 1 - readBank s" and q: "q1 @ q2 = pre @ u"
    and r: "readPtr s b = hd (map fst u @ [wrPtr s b - 4])"
  shows "u = [] \<Longrightarrow> get_from_bank s = (None, s\<lparr>readBank := b\<rparr>)"
    "u = (h, v) # u' \<Longrightarrow> get_from_bank s =
       (Some (h + 8, v - 4, get_w s (h + 4)),
        s\<lparr>readBank := b, readPtr := (readPtr s)(b := hd (map fst u' @ [wrPtr s b - 4]))\<rparr>)"
proof -
  note B = b(1) [unfolded bank_def]
  have g: "get_w (s\<lparr>readBank := x, readPtr := y\<rparr>) = get_w s" "get_w (s\<lparr>readBank := x\<rparr>) = get_w s" for x y
    by (simp_all add: get_w_def fun_eq_iff)
  show "get_from_bank s = (None, s\<lparr>readBank := b\<rparr>)" if "u = []"
    unfolding get_from_bank_def b(2) [symmetric]
    using that r bank_w(3) [OF B] by (simp add: Let_def g)
  show "get_from_bank s = (Some (h + 8, v - 4, get_w s (h + 4)),
        s\<lparr>readBank := b, readPtr := (readPtr s)(b := hd (map fst u' @ [wrPtr s b - 4]))\<rparr>)"
    if u: "u = (h, v) # u'"
  proof -
    have "(h, v) \<in> set (q1 @ q2)" using q u by simp
    note M = bank_mem [OF B this]
    have rh: "readPtr s b = h" using r u by simp
    have next_h: "(if get_w s (h + up4 v + 4) = 0 then firstPtr s b else h + up4 v + 4) = hd (map fst u' @ [wrPtr s b - 4])"
      by (rule bank_next [OF B, of pre h v u']) (simp_all add: q u)
    show ?thesis
    proof (cases "get_w s (h + up4 v + 4) = 0")
      case True
      then show ?thesis
        unfolding get_from_bank_def b(2) [symmetric]
        using M(3,4) rh next_h by (simp add: Let_def g)
    next
      case False
      then show ?thesis
        unfolding get_from_bank_def b(2) [symmetric]
        using M(3,4) rh next_h by (simp add: Let_def g)
    qed
  qed
qed

subsection \<open>The invariant of the receiver\<close>

text \<open>
  The server holds at most the oldest packet of one bank, \<open>held\<close>; \<open>qs b\<close> are the packets of bank
  \<open>b\<close>, and \<open>waiting\<close> those that the server has not taken. \<open>com\<close> and \<open>del\<close> are the contents that
  were committed to and delivered from each bank.
\<close>

type_synonym held = "(nat \<times> lite_packet) option"
type_synonym queues2 = "nat \<Rightarrow> lite_packet list \<times> lite_packet list"

definition all_of :: "queues2 \<Rightarrow> nat \<Rightarrow> lite_packet list" where
  "all_of qs b = fst (qs b) @ snd (qs b)"

definition waiting :: "held \<Rightarrow> queues2 \<Rightarrow> nat \<Rightarrow> lite_packet list" where
  "waiting held qs b = (if map_option fst held = Some b then tl (all_of qs b) else all_of qs b)"

definition driver_ok :: "miiData \<Rightarrow> queues2 \<Rightarrow> nat \<Rightarrow> bool" where
  "driver_ok s qs a \<longleftrightarrow>
     packetInLLD s = wrPtr s a \<and> room s a (fst (qs a)) \<and>
     (nextBuffer s = wrPtr s (1 - a) \<and> room s (1 - a) (fst (qs (1 - a))) \<or>
      nextBuffer s = - 1 \<and> refillBankNumber s = 1 - a \<and> stuck s (1 - a) (fst (qs (1 - a))))"

definition held_ok :: "miiData \<Rightarrow> int \<times> int \<times> int \<Rightarrow> held \<Rightarrow> queues2 \<Rightarrow> bool" where
  "held_ok s cur held qs \<longleftrightarrow>
     (case held of
        None \<Rightarrow> fst cur = 0
      | Some (b, (h, v)) \<Rightarrow> b < 2 \<and> all_of qs b \<noteq> [] \<and> hd (all_of qs b) = (h, v) \<and>
          cur = (h + 8, v - 4, get_w s (h + 4)))"

definition bank_inv ::
  "miiData \<Rightarrow> held \<Rightarrow> queues2 \<Rightarrow> (nat \<Rightarrow> contents list) \<Rightarrow> (nat \<Rightarrow> contents list) \<Rightarrow> nat \<Rightarrow> bool" where
  "bank_inv s held qs com del b \<longleftrightarrow>
     bank s b (fst (qs b)) (snd (qs b)) \<and> readPtr s b = hd (map fst (waiting held qs b) @ [wrPtr s b - 4]) \<and>
     com b = del b @ map (packet_of s) (all_of qs b)"

definition lite_inv ::
  "miiData \<Rightarrow> int \<times> int \<times> int \<Rightarrow> (nat \<Rightarrow> contents list) \<Rightarrow> (nat \<Rightarrow> contents list) \<Rightarrow> held \<Rightarrow> queues2 \<Rightarrow> bool" where
  "lite_inv s cur com del held qs \<longleftrightarrow>
     banks_apart s \<and> readBank s < 2 \<and> bank_inv s held qs com del 0 \<and> bank_inv s held qs com del 1 \<and>
     held_ok s cur held qs \<and> (\<exists>a < 2. driver_ok s qs a)"

lemma bank_invD: "lite_inv s cur com del held qs \<Longrightarrow> b < 2 \<Longrightarrow> bank_inv s held qs com del b"
  by (auto simp: lite_inv_def less_2_cases_iff)

lemma bank_of_inv: "lite_inv s cur com del held qs \<Longrightarrow> b < 2 \<Longrightarrow> bank s b (fst (qs b)) (snd (qs b))"
  using bank_invD by (auto simp: bank_inv_def)

lemma all_of_len: "bank s b (fst (qs b)) (snd (qs b)) \<Longrightarrow> (h, v) \<in> set (all_of qs b) \<Longrightarrow> 2 \<le> v"
  unfolding bank_def all_of_def by (rule bank_mem(4))

text \<open>A step that keeps a bank's pointers and the memory of its packets keeps its part of the invariant.\<close>

lemma bank_inv_frame:
  assumes i: "bank_inv s held qs com del b" and b': "bank s' b (fst (qs b)) (snd (qs b))"
    and d: "same_data s s' (all_of qs b)" and p: "readPtr s' b = readPtr s b" "wrPtr s' b = wrPtr s b"
  shows "bank_inv s' held qs com del b"
proof -
  have "map (packet_of s') (all_of qs b) = map (packet_of s) (all_of qs b)"
    by (rule packets_same [OF d]) (rule all_of_len [where qs = qs, OF b'])
  then show ?thesis using i b' p by (simp add: bank_inv_def)
qed

lemma other_bank:
  assumes f: "frame b s s'" and b: "b < 2" "bank s b p1 p2" and c: "c < 2" "c \<noteq> b" "bank s c q1 q2"
    and a: "banks_apart s"
  shows "bank s' c q1 q2" "same_data s s' (q1 @ q2)" "room s' c r = room s c r" "stuck s' c r = stuck s c r"
    "wrPtr s' c = wrPtr s c"
proof -
  have ptrs: "firstPtr s' c = firstPtr s c" "lastSafePtr s' c = lastSafePtr s c" "freePtr s' c = freePtr s c"
    "wrPtr s' c = wrPtr s c"
    using f c(2) by (simp_all add: frame_def)
  have ap: "firstPtr s 1 = lastSafePtr s 0 + 1530" using a by (simp add: banks_apart_def)
  note A = bank_align [OF b(2) [unfolded bank_def]] bank_align [OF c(3) [unfolded bank_def]]
  have m: "lmem s' x = lmem s x" if "firstPtr s c \<le> x" "x < lastSafePtr s c + 1530" for x
  proof (rule ccontr)
    assume "lmem s' x \<noteq> lmem s x"
    then have "firstPtr s b \<le> x" "x < lastSafePtr s b + 1530" using f by (auto simp: frame_def)
    then show False using that ap A(5,11) b(1) c(1,2) by (auto simp: less_2_cases_iff)
  qed
  note F = bank_frame [OF c(3) ptrs m]
  show "bank s' c q1 q2" "same_data s s' (q1 @ q2)" "room s' c r = room s c r" "stuck s' c r = stuck s c r"
    "wrPtr s' c = wrPtr s c"
    using F ptrs by auto
qed

subsection \<open>The steps\<close>

lemma held_same:
  assumes ho: "held_ok s cur held qs" and d: "\<And>b. b < 2 \<Longrightarrow> same_data s s' (all_of qs b)"
    and l: "\<And>b h v. b < 2 \<Longrightarrow> (h, v) \<in> set (all_of qs b) \<Longrightarrow> 2 \<le> v"
    and q: "\<And>b. all_of qs b \<noteq> [] \<Longrightarrow> all_of qs' b \<noteq> [] \<and> hd (all_of qs' b) = hd (all_of qs b)"
  shows "held_ok s' cur held qs'"
proof (cases held)
  case None
  then show ?thesis using ho by (simp add: held_ok_def)
next
  case (Some p)
  obtain b h v where p: "p = (b, (h, v))" by (metis prod_cases3)
  have b: "b < 2" "all_of qs b \<noteq> []" "hd (all_of qs b) = (h, v)" using ho by (simp_all add: held_ok_def Some p)
  have m: "(h, v) \<in> set (all_of qs b)" using b(2,3) hd_in_set by fastforce
  have "packet_of s' (h, v) = packet_of s (h, v)"
    by (rule packet_of_same [OF d [OF b(1)] m l [OF b(1) m]])
  then have "get_w s' (h + 4) = get_w s (h + 4)" by (simp add: packet_of_def)
  then show ?thesis using ho q [OF b(2)] by (simp add: held_ok_def Some p)
qed

text \<open>A write of the driver into the buffer that it was given.\<close>

lemma lld_inv:
  assumes i: "lite_inv s cur com del held qs" and x: "packetInLLD s \<le> x" "x < packetInLLD s + 1530"
  shows "lite_inv (s\<lparr>lmem := (lmem s)(x := y)\<rparr>) cur com del held qs"
proof -
  let ?s = "s\<lparr>lmem := (lmem s)(x := y)\<rparr>"
  obtain a where a: "a < 2" "driver_ok s qs a" using i by (auto simp: lite_inv_def)
  have ap: "banks_apart s" and ho: "held_ok s cur held qs" using i by (simp_all add: lite_inv_def)
  have wa: "packetInLLD s = wrPtr s a" and ra: "room s a (fst (qs a))" using a(2) by (simp_all add: driver_ok_def)
  have ba: "bank s a (fst (qs a)) (snd (qs a))" by (rule bank_of_inv [OF i a(1)])
  have xa: "firstPtr s a \<le> x" "x < lastSafePtr s a + 1530"
    using bank_w(1) [OF ba [unfolded bank_def]] room_wr [OF ba ra] x wa by auto
  have K: "bank ?s b (fst (qs b)) (snd (qs b))" "same_data s ?s (all_of qs b)" if b: "b < 2" for b
  proof -
    have bb: "bank s b (fst (qs b)) (snd (qs b))" by (rule bank_of_inv [OF i b])
    have keep: "lmem ?s z = lmem s z"
      if z: "firstPtr s b \<le> z" "z < lastSafePtr s b + 1530"
        "\<not> (room s b (fst (qs b)) \<and> wrPtr s b \<le> z \<and> z < wrPtr s b + 1530)" for z
    proof (cases "z = x")
      case True
      have "a = b"
        using bank_of_buffer [OF a(1) ba ap xa] bank_of_buffer [OF b bb ap z(1,2)] True by simp
      then show ?thesis using z(3) True ra x wa by simp
    qed simp
    note F = bank_frame [OF bb, of ?s, OF _ _ _ _ keep]
    show "bank ?s b (fst (qs b)) (snd (qs b))" "same_data s ?s (all_of qs b)"
      using F(1,2) by (simp_all add: all_of_def)
  qed
  have BI: "bank_inv ?s held qs com del b" if "b < 2" for b
    by (rule bank_inv_frame [OF bank_invD [OF i that] K(1,2) [OF that]]) simp_all
  have "held_ok ?s cur held qs"
    by (rule held_same [OF ho K(2)]) (use all_of_len [where qs = qs, OF bank_of_inv [OF i]] in auto)
  moreover have "driver_ok ?s qs a"
    using a(2) by (simp add: driver_ok_def room_def stuck_def)
  moreover have "banks_apart ?s" "readBank ?s < 2" using i by (simp_all add: lite_inv_def banks_apart_def)
  ultimately show ?thesis using BI [of 0] BI [of 1] a(1) by (auto simp: lite_inv_def)
qed

text \<open>The interrupt at the end of a frame.\<close>

definition lld_length :: "miiData \<Rightarrow> addr \<Rightarrow> int" where
  "lld_length s end = sint (CRCBad (lmem s) (packetInLLD s) end)"

definition bank_at :: "miiData \<Rightarrow> addr \<Rightarrow> nat" where
  "bank_at s a = (if a < firstPtr s 1 then 0 else 1)"

definition commit_log :: "miiData \<Rightarrow> addr \<Rightarrow> (nat \<Rightarrow> contents list) \<Rightarrow> nat \<Rightarrow> contents list" where
  "commit_log s end com =
     (if lld_length s end \<noteq> 0 \<and> nextBuffer s \<noteq> - 1
      then com(bank_at s (packetInLLD s) := com (bank_at s (packetInLLD s))
                 @ [packet_of s (packetInLLD s - 4, lld_length s end)])
      else com)"

lemma packetGood_fields:
  "packetGood base end s = (len, s') \<Longrightarrow>
     len = sint (CRCBad (lmem s) base end) \<and> lmem s' = lmem s \<and> nextBuffer s' = nextBuffer s \<and>
     packetInLLD s' = packetInLLD s \<and> refillBankNumber s' = refillBankNumber s \<and> freePtr s' = freePtr s \<and>
     wrPtr s' = wrPtr s \<and> lastSafePtr s' = lastSafePtr s \<and> firstPtr s' = firstPtr s \<and>
     readPtr s' = readPtr s \<and> readBank s' = readBank s"
  by (auto simp: packetGood_def Let_def split: if_splits)

text \<open>A state that differs only in counters, notification and the driver's pointers.\<close>

definition same_banks :: "miiData \<Rightarrow> miiData \<Rightarrow> bool" where
  "same_banks s s' \<longleftrightarrow>
     lmem s' = lmem s \<and> freePtr s' = freePtr s \<and> wrPtr s' = wrPtr s \<and> lastSafePtr s' = lastSafePtr s \<and>
     firstPtr s' = firstPtr s"

lemma same_banks_simps:
  assumes "same_banks s s'"
  shows "bank s' b q1 q2 = bank s b q1 q2" "room s' b q1 = room s b q1" "stuck s' b q1 = stuck s b q1"
    "packet_of s' = packet_of s" "banks_apart s' = banks_apart s" "get_w s' = get_w s" "wrPtr s' = wrPtr s"
    "firstPtr s' = firstPtr s"
  using assms by (simp_all add: same_banks_def bank_def room_def stuck_def packet_of_def banks_apart_def get_w_lmem)

lemma same_banks_held: "same_banks s s' \<Longrightarrow> held_ok s' = held_ok s"
  by (intro ext) (simp only: held_ok_def same_banks_simps)

lemma same_banks_inv:
  assumes "same_banks s s'" "readPtr s' = readPtr s" "readBank s' = readBank s"
    and "lite_inv s cur com del held qs" "a < 2" "driver_ok s' qs a"
  shows "lite_inv s' cur com del held qs"
  using assms(2-)
  by (auto simp: lite_inv_def bank_inv_def same_banks_simps [OF assms(1)] same_banks_held [OF assms(1)])

lemma interrupt_inv:
  assumes i: "lite_inv s cur com del held qs" and l: "lld_length s end = 0 \<or> 4 < lld_length s end \<and> lld_length s end \<le> 1528"
    and s': "s' = miiInterruptHandler end s"
  shows "\<exists>qs'. lite_inv s' cur (commit_log s end com) del held qs'"
proof -
  let ?len = "lld_length s end"
  obtain a where a: "a < 2" "driver_ok s qs a" using i by (auto simp: lite_inv_def)
  obtain c where c: "c < 2" "c \<noteq> a" "1 - c = a" "1 - a = c" 
    using a(1) that [of "1 - a"] by (cases "a = 0") (auto simp: less_2_cases_iff)
  have wa: "packetInLLD s = wrPtr s a" and ra: "room s a (fst (qs a))" using a(2) by (simp_all add: driver_ok_def)
  have ba: "bank s a (fst (qs a)) (snd (qs a))" by (rule bank_of_inv [OF i a(1)])
  have ap: "banks_apart s" and ho: "held_ok s cur held qs" using i by (simp_all add: lite_inv_def)
  show ?thesis
  proof (cases "nextBuffer s = - 1")
    case True
    have e: "s' = s\<lparr>miiPacketsOverran := miiPacketsOverran s + 1\<rparr>"
      using True by (simp add: s' miiInterruptHandler_def)
    have sb: "same_banks s s'" by (simp add: e same_banks_def)
    have "driver_ok s' qs a"
      using a(2) by (simp only: driver_ok_def same_banks_simps [OF sb]) (simp add: e)
    then have "lite_inv s' cur com del held qs"
      by (intro same_banks_inv [OF sb _ _ i a(1)]) (simp_all add: e)
    then show ?thesis using True by (auto simp: commit_log_def)
  next
    case False
    then have nb: "nextBuffer s = wrPtr s c" "room s c (fst (qs c))"
      using a(2) c(4) by (simp_all add: driver_ok_def)
    obtain len t where g: "packetGood (packetInLLD s) end (s\<lparr>packetInLLD := nextBuffer s\<rparr>) = (len, t)" by fastforce
    note G = packetGood_fields [OF g]
    have len: "len = ?len" using G by (simp add: lld_length_def)
    have sb: "same_banks s t" using G by (simp add: same_banks_def)
    have t: "readPtr t = readPtr s" "readBank t = readBank s" "packetInLLD t = wrPtr s c" using G nb by simp_all
    show ?thesis
    proof (cases "?len = 0")
      case True
      have e: "s' = t\<lparr>nextBuffer := packetInLLD s\<rparr>"
        using False True g len by (simp add: s' miiInterruptHandler_def miiClientUser_def miiRejectBuffer_def Let_def)
      have sb': "same_banks s s'" using sb by (simp add: e same_banks_def)
      have "driver_ok s' qs c"
        using nb wa ra t(3) by (simp only: driver_ok_def c(3) same_banks_simps [OF sb']) (simp add: e)
      then have "lite_inv s' cur com del held qs"
        by (intro same_banks_inv [OF sb' _ _ i c(1)]) (simp_all add: e t)
      then show ?thesis using True by (auto simp: commit_log_def)
    next
      case good: False
      let ?p = "(wrPtr s a - 4, ?len)"
      have e: "s' = miiCommitBuffer (wrPtr t a) ?len t"
        using False good g len wa
        by (simp add: s' miiInterruptHandler_def miiClientUser_def Let_def same_banks_simps [OF sb])
      have bt: "bank t a (fst (qs a)) (snd (qs a))" "banks_apart t" "room t a (fst (qs a))"
        using ba ap ra by (simp_all add: same_banks_simps [OF sb])
      have v: "2 \<le> ?len" "?len \<le> 1528" using l good by auto
      note C = commit_ok [OF a(1) bt v e, unfolded same_banks_simps(7) [OF sb]]
      obtain r1 r2 where r: "r1 @ r2 = all_of qs a @ [?p]" "bank s' a r1 r2"
        "nextBuffer s' = wrPtr s' a \<and> room s' a r1 \<or> nextBuffer s' = - 1 \<and> refillBankNumber s' = a \<and> stuck s' a r1"
        using C(1) by (auto simp: all_of_def)
      define qs' where "qs' = qs(a := (r1, r2))"
      have qa: "all_of qs' a = all_of qs a @ [?p]" "all_of qs' c = all_of qs c" "qs' c = qs c"
        using r(1) c(2) by (simp_all add: qs'_def all_of_def)
      have bc: "bank t c (fst (qs c)) (snd (qs c))"
        using bank_of_inv [OF i c(1)] by (simp add: same_banks_simps [OF sb])
      note O = other_bank [OF C(2) a(1) bt(1) c(1,2) bc bt(2)]
      have Da: "same_data t s' (all_of qs a @ [?p])" using C(3) by (simp add: all_of_def)
      have Dc: "same_data t s' (all_of qs c)" using O(2) by (simp add: all_of_def)
      have ds: "same_data s s' q = same_data t s' q" for q using sb by (simp add: same_data_def same_banks_def)
      have la: "2 \<le> u" if "(h, u) \<in> set (all_of qs a @ [?p])" for h u
        using that v all_of_len [where qs = qs, OF ba] by auto
      have pk: "map (packet_of s') (all_of qs' a) = map (packet_of s) (all_of qs a) @ [packet_of s ?p]"
        using packets_same [OF Da la] by (simp add: qa same_banks_simps [OF sb])
      have ba_at: "bank_at s (wrPtr s a) = a"
        unfolding bank_at_def
        using bank_w(1) [OF ba [unfolded bank_def]] room_wr [OF ba ra] by (intro bank_of_buffer [OF a(1) ba ap]) auto
      have com: "commit_log s end com = com(a := com a @ [packet_of s ?p])"
        using False good by (simp add: commit_log_def wa ba_at)
      have I: "bank_inv s held qs com del a" "bank_inv s held qs com del c"
        using bank_invD [OF i] a(1) c(1) by blast+
      have wtg: "waiting held qs' a = waiting held qs a @ [?p]"
        using ho qa(1) by (auto simp: waiting_def held_ok_def split: option.splits)
      have wtgc: "waiting held qs' c = waiting held qs c" by (simp add: waiting_def qa(2))
      have A: "bank_inv s' held qs' (commit_log s end com) del a"
      proof -
        have "readPtr s' a = hd (map fst (waiting held qs' a) @ [wrPtr s' a - 4])"
          using I(1) C(4) t(1) by (cases "waiting held qs a") (simp_all add: bank_inv_def wtg)
        moreover have "bank s' a (fst (qs' a)) (snd (qs' a))" using r(2) by (simp add: qs'_def)
        ultimately show ?thesis using I(1) by (simp add: bank_inv_def pk com)
      qed
      have Cc: "bank_inv s' held qs' (commit_log s end com) del c"
      proof -
        have "bank_inv s' held qs com del c"
          using O(1) Dc C(4) t(1) O(5) by (intro bank_inv_frame [OF I(2)]) (simp_all add: ds same_banks_simps [OF sb])
        then show ?thesis using c(2) by (simp add: bank_inv_def qa wtgc com)
      qed
      have H: "held_ok s' cur held qs'"
      proof (rule held_same [OF ho])
        show "same_data s s' (all_of qs b)" if "b < 2" for b
        proof (cases "b = a")
          case True
          then show ?thesis using same_data_mono [OF Da, of "all_of qs a"] by (auto simp: ds)
        next
          case False
          then have "b = c" using that a(1) c(1,2) by arith
          then show ?thesis using Dc by (simp add: ds)
        qed
        show "2 \<le> u" if "b < 2" "(h, u) \<in> set (all_of qs b)" for b h u
          using all_of_len [where qs = qs, OF bank_of_inv [OF i that(1)] that(2)] .
        show "all_of qs' b \<noteq> [] \<and> hd (all_of qs' b) = hd (all_of qs b)" if "all_of qs b \<noteq> []" for b
        proof (cases "b = a")
          case True
          then show ?thesis using that by (simp add: qa(1) hd_append)
        next
          case False
          then have "all_of qs' b = all_of qs b" by (simp add: qs'_def all_of_def)
          then show ?thesis using that by simp
        qed
      qed
      have "driver_ok s' qs' c"
        using r(3) nb O(3,5) C(6) t(3)
        by (simp only: driver_ok_def c(3) same_banks_simps [OF sb] qa(3)) (simp add: qs'_def)
      moreover have "bank_inv s' held qs' (commit_log s end com) del 0" "bank_inv s' held qs' (commit_log s end com) del 1"
        using A Cc a(1) c(1,2) by (cases "a = 0"; cases "c = 0"; simp add: less_2_cases_iff)+
      moreover have "banks_apart s'" using bt(2) C(2) by (simp add: banks_apart_def frame_def)
      moreover have "readBank s' < 2" using i C(5) t(2) by (simp add: lite_inv_def)
      ultimately have "lite_inv s' cur (commit_log s end com) del held qs'"
        using H c(1) by (auto simp: lite_inv_def)
      then show ?thesis by blast
    qed
  qed
qed

lemma two_banks:
  assumes "P a" "P c" "a < 2" "c < (2 :: nat)" "a \<noteq> c"
  shows "P 0 \<and> P 1"
  using assms by (cases "a = 0"; cases "c = 0"; simp add: less_2_cases_iff)

text \<open>The server asks for a packet when it holds none.\<close>

lemma take_inv:
  assumes i: "lite_inv s cur com del None qs" and b: "b < 2" and q: "all_of qs b = (h, v) # u"
    and s': "s' = s\<lparr>readBank := b, readPtr := (readPtr s)(b := hd (map fst u @ [wrPtr s b - 4]))\<rparr>"
  shows "lite_inv s' (h + 8, v - 4, get_w s (h + 4)) com del (Some (b, (h, v))) qs"
proof -
  have sb: "same_banks s s'" by (simp add: s' same_banks_def)
  have r: "readPtr s' c = (if c = b then hd (map fst u @ [wrPtr s b - 4]) else readPtr s c)" for c
    by (simp add: s')
  have B: "bank_inv s' (Some (b, (h, v))) qs com del c" if "c < 2" for c
    using bank_invD [OF i that] by (simp add: bank_inv_def same_banks_simps [OF sb] r waiting_def q)
  have "held_ok s' (h + 8, v - 4, get_w s (h + 4)) (Some (b, (h, v))) qs"
    using b by (simp add: held_ok_def q same_banks_simps [OF sb])
  moreover obtain a where "a < 2" "driver_ok s qs a" using i by (auto simp: lite_inv_def)
  moreover then have "driver_ok s' qs a"
    by (simp only: driver_ok_def same_banks_simps [OF sb]) (simp add: s')
  moreover have "banks_apart s'" "readBank s' < 2"
    using i b by (simp_all add: lite_inv_def same_banks_simps [OF sb]) (simp add: s')
  ultimately show ?thesis using B [of 0] B [of 1] by (auto simp: lite_inv_def)
qed

lemma none_inv:
  assumes i: "lite_inv s cur com del None qs" and s': "s' = s\<lparr>readBank := b\<rparr>" "b < 2"
  shows "lite_inv s' (0, 0, 0) com del None qs"
proof -
  have sb: "same_banks s s'" by (simp add: s' same_banks_def)
  have B: "bank_inv s' None qs com del c" if "c < 2" for c
    using bank_invD [OF i that] by (simp add: bank_inv_def same_banks_simps [OF sb] waiting_def) (simp add: s')
  obtain a where a: "a < 2" "driver_ok s qs a" using i by (auto simp: lite_inv_def)
  then have "driver_ok s' qs a"
    by (simp only: driver_ok_def same_banks_simps [OF sb]) (simp add: s')
  moreover have "banks_apart s'" "readBank s' < 2"
    using i s'(2) by (simp_all add: lite_inv_def same_banks_simps [OF sb]) (simp add: s')
  ultimately show ?thesis using B [of 0] B [of 1] a(1) by (auto simp: lite_inv_def held_ok_def)
qed

lemma get_inv:
  assumes i: "lite_inv s cur com del None qs" and g: "mii_get_in_buffer s = (r, s')"
  shows "\<exists>held. lite_inv s' r com del held qs \<and> (held = None \<longrightarrow> all_of qs 0 = [] \<and> all_of qs 1 = [])"
proof -
  let ?b = "1 - readBank s" and ?c = "readBank s"
  have b: "?b < 2" "?c < 2" using i by (auto simp: lite_inv_def)
  have G: "all_of qs x = [] \<Longrightarrow> get_from_bank t = (None, t\<lparr>readBank := x\<rparr>)"
    "all_of qs x = (h, v) # u \<Longrightarrow> get_from_bank t = (Some (h + 8, v - 4, get_w t (h + 4)),
        t\<lparr>readBank := x, readPtr := (readPtr t)(x := hd (map fst u @ [wrPtr t x - 4]))\<rparr>)"
    if "lite_inv t cur' com del None qs" "x < 2" "x = 1 - readBank t" for t x cur' h v u
  proof -
    have "bank t x (fst (qs x)) (snd (qs x))" "readPtr t x = hd (map fst (all_of qs x) @ [wrPtr t x - 4])"
      using bank_invD [OF that(1,2)] by (simp_all add: bank_inv_def waiting_def)
    note R = get_from_bank_ok [OF this(1) that(3), of "[]" "all_of qs x"]
    show "all_of qs x = [] \<Longrightarrow> get_from_bank t = (None, t\<lparr>readBank := x\<rparr>)"
      by (rule R(1)) (simp_all add: all_of_def \<open>readPtr t x = _\<close>)
    show "all_of qs x = (h, v) # u \<Longrightarrow> get_from_bank t = (Some (h + 8, v - 4, get_w t (h + 4)),
        t\<lparr>readBank := x, readPtr := (readPtr t)(x := hd (map fst u @ [wrPtr t x - 4]))\<rparr>)"
      by (rule R(2)) (simp_all add: all_of_def \<open>readPtr t x = _\<close>)
  qed
  show ?thesis
  proof (cases "all_of qs ?b")
    case Nil
    let ?t = "s\<lparr>readBank := ?b\<rparr>"
    have t: "lite_inv ?t (0, 0, 0) com del None qs" by (rule none_inv [OF i refl b(1)])
    have e: "get_from_bank s = (None, ?t)" by (rule G(1) [OF i b(1) refl Nil])
    have c: "?c = 1 - readBank ?t" using b by simp
    show ?thesis
    proof (cases "all_of qs ?c")
      case Nil
      have "get_from_bank ?t = (None, ?t\<lparr>readBank := ?c\<rparr>)" by (rule G(1) [OF t b(2) c Nil])
      then have "r = (0, 0, 0)" "s' = ?t\<lparr>readBank := ?c\<rparr>"
        using g e by (simp_all add: mii_get_in_buffer_def)
      moreover have "all_of qs 0 = [] \<and> all_of qs 1 = []"
        by (rule two_banks [of _ ?b ?c, OF \<open>all_of qs ?b = []\<close> \<open>all_of qs ?c = []\<close> b]) (use b in arith)
      ultimately show ?thesis using none_inv [OF t _ b(2)] by blast
    next
      case (Cons x u)
      obtain h v where x: "x = (h, v)" by (cases x)
      have "get_from_bank ?t = (Some (h + 8, v - 4, get_w ?t (h + 4)),
          ?t\<lparr>readBank := ?c, readPtr := (readPtr ?t)(?c := hd (map fst u @ [wrPtr ?t ?c - 4]))\<rparr>)"
        by (rule G(2) [OF t b(2) c Cons [unfolded x]])
      then have "r = (h + 8, v - 4, get_w ?t (h + 4))"
        "s' = ?t\<lparr>readBank := ?c, readPtr := (readPtr ?t)(?c := hd (map fst u @ [wrPtr ?t ?c - 4]))\<rparr>"
        using g e by (simp_all add: mii_get_in_buffer_def)
      then show ?thesis using take_inv [OF t b(2) Cons [unfolded x]] by auto
    qed
  next
    case (Cons x u)
    obtain h v where x: "x = (h, v)" by (cases x)
    have "get_from_bank s = (Some (h + 8, v - 4, get_w s (h + 4)),
        s\<lparr>readBank := ?b, readPtr := (readPtr s)(?b := hd (map fst u @ [wrPtr s ?b - 4]))\<rparr>)"
      by (rule G(2) [OF i b(1) refl Cons [unfolded x]])
    then have "r = (h + 8, v - 4, get_w s (h + 4))"
      "s' = s\<lparr>readBank := ?b, readPtr := (readPtr s)(?b := hd (map fst u @ [wrPtr s ?b - 4]))\<rparr>"
      using g by (simp_all add: mii_get_in_buffer_def)
    then show ?thesis using take_inv [OF i b(1) Cons [unfolded x]] by auto
  qed
qed

text \<open>Freeing the packet that the server holds, then restarting.\<close>

lemma stuck_two:
  assumes b: "bank s b [] q2" and k: "stuck s b []" and q: "q2 = x # rest"
  shows "rest \<noteq> []"
proof
  assume r: "rest = []"
  have B: "bank_ok (get_w s) (firstPtr s b) (lastSafePtr s b) (freePtr s b) (wrPtr s b - 4) [] q2"
    using b by (simp add: bank_def)
  have f: "freePtr s b = firstPtr s b" "lastSafePtr s b < wrPtr s b" using k by (simp_all add: stuck_def)
  have "segs (get_w s) (lastSafePtr s b) (freePtr s b) q2 (wrPtr s b - 4)" using B by (simp add: bank_ok_def)
  from segs_length [OF this] have "wrPtr s b - 4 - firstPtr s b \<le> 1532" using f(1) by (simp add: q r)
  then show False using f(2) bank_align(5) [OF B] by simp
qed

lemma restart_inv:
  assumes i: "banks_apart s" "readBank s < 2" "\<And>x. x < 2 \<Longrightarrow> bank_inv s None qs com del x"
    and a: "a < 2" "c < 2" "a \<noteq> c" and lld: "packetInLLD s = wrPtr s a" "room s a (fst (qs a))"
    and n: "nextBuffer s = - 1" "refillBankNumber s = c"
    and live: "fst (qs c) = [] \<and> lastSafePtr s c < wrPtr s c \<and> freePtr s c \<noteq> firstPtr s c \<longrightarrow> snd (qs c) \<noteq> []"
  shows "\<exists>qs'. lite_inv (mii_restart_buffer s) (0, 0, 0) com del None qs'"
proof -
  let ?s = "mii_restart_buffer s"
  have B: "bank s x (fst (qs x)) (snd (qs x))" if "x < 2" for x using i(3) [OF that] by (simp add: bank_inv_def)
  note R = restart_ok [OF a(2) B [OF a(2)] n live refl]
  obtain r1 r2 where r: "r1 @ r2 = all_of qs c" "bank ?s c r1 r2"
    "nextBuffer ?s = wrPtr ?s c \<and> room ?s c r1 \<or> nextBuffer ?s = - 1 \<and> refillBankNumber ?s = c \<and> stuck ?s c r1"
    "wrPtr ?s c - 4 = wrPtr s c - 4 \<or> all_of qs c \<noteq> []"
    using R(1) by (auto simp: all_of_def)
  let ?qs = "qs(c := (r1, r2))"
  have qs: "all_of ?qs x = all_of qs x" for x using r(1) by (simp add: all_of_def)
  note O = other_bank [OF R(2) a(2) B [OF a(2)] a(1,3) B [OF a(1)] i(1)]
  have Ia: "bank_inv ?s None ?qs com del a"
  proof -
    have "bank_inv ?s None qs com del a"
      using O(1,2,5) R(4) by (intro bank_inv_frame [OF i(3) [OF a(1)]]) (simp_all add: all_of_def)
    then show ?thesis using a(3) by (simp add: bank_inv_def waiting_def qs)
  qed
  have Ic: "bank_inv ?s None ?qs com del c"
  proof -
    have "map (packet_of ?s) (all_of qs c) = map (packet_of s) (all_of qs c)"
      by (rule packets_same [OF R(3) [folded all_of_def]]) (rule all_of_len [where qs = qs, OF B [OF a(2)]])
    moreover have "readPtr ?s c = hd (map fst (all_of qs c) @ [wrPtr ?s c - 4])"
      using i(3) [OF a(2)] R(4) r(4) by (cases "all_of qs c") (auto simp: bank_inv_def waiting_def)
    ultimately show ?thesis
      using i(3) [OF a(2)] r(2) by (simp add: bank_inv_def waiting_def qs)
  qed
  have ca: "1 - a = c" using a by arith
  have "driver_ok ?s ?qs a"
    unfolding driver_ok_def ca using O(3,5) R(6) lld r(3) a(3) by simp
  moreover have "banks_apart ?s" using i(1) R(2) by (simp add: banks_apart_def frame_def)
  moreover have "readBank ?s < 2" using i(2) R(5) by simp
  ultimately have "lite_inv ?s (0, 0, 0) com del None ?qs"
    using two_banks [of "bank_inv ?s None ?qs com del", OF Ia Ic a] a(1) by (auto simp: lite_inv_def held_ok_def)
  then show ?thesis by blast
qed

lemma free_restart_inv:
  assumes i: "lite_inv s cur com del (Some (b, (h, v))) qs"
  shows "\<exists>s1 qs'. mii_free_in_buffer (fst cur) s = Some s1 \<and>
    lite_inv (mii_restart_buffer s1) (0, 0, 0) com (del(b := del b @ [packet_of s (h, v)])) None qs'"
proof -
  have ap: "banks_apart s" and ho: "held_ok s cur (Some (b, (h, v))) qs" using i by (simp_all add: lite_inv_def)
  then have b: "b < 2" and cur: "fst cur = h + 8" and ne: "all_of qs b \<noteq> []" "hd (all_of qs b) = (h, v)"
    by (auto simp: held_ok_def)
  then obtain rest where q: "all_of qs b = (h, v) # rest" by (cases "all_of qs b") auto
  have B: "bank s x (fst (qs x)) (snd (qs x))" if "x < 2" for x by (rule bank_of_inv [OF i that])
  obtain s1 r2 where F: "mii_free_in_buffer (h + 8) s = Some s1" "tl (fst (qs b)) @ r2 = rest"
    "bank s1 b (tl (fst (qs b))) r2" "room s b (fst (qs b)) \<longrightarrow> room s1 b (tl (fst (qs b)))"
    "frame b s s1" "same_data s s1 rest" "wrPtr s1 = wrPtr s" "readPtr s1 = readPtr s" "readBank s1 = readBank s"
    "packetInLLD s1 = packetInLLD s" "nextBuffer s1 = nextBuffer s" "refillBankNumber s1 = refillBankNumber s"
    using free_ok [OF b B [OF b] ap q [unfolded all_of_def]] by blast
  let ?qs = "qs(b := (tl (fst (qs b)), r2))" and ?del = "del(b := del b @ [packet_of s (h, v)])"
  have qb: "all_of ?qs b = rest" using F(2) by (simp add: all_of_def)
  have O: "bank s1 x (fst (qs x)) (snd (qs x)) \<and> same_data s s1 (all_of qs x) \<and> room s1 x r = room s x r \<and> stuck s1 x r = stuck s x r"
    if x: "x < 2" "x \<noteq> b" for x r
    using other_bank [OF F(5) b B [OF b] x B [OF x(1)] ap] by (simp add: all_of_def)
  have I: "bank_inv s1 None ?qs com ?del x" if x: "x < 2" for x
  proof (cases "x = b")
    case True
    have "map (packet_of s1) rest = map (packet_of s) rest"
    proof (rule packets_same [OF F(6)])
      fix g u
      assume "(g, u) \<in> set rest"
      then have "(g, u) \<in> set (all_of qs b)" by (simp add: q)
      then show "2 \<le> u" by (rule all_of_len [where qs = qs, OF B [OF b]])
    qed
    then show ?thesis
      using bank_invD [OF i b] F(3,7,8) True by (simp add: bank_inv_def waiting_def qb q)
  next
    case False
    have "bank_inv s1 (Some (b, (h, v))) qs com del x"
      using O [OF x False] F(7,8) by (intro bank_inv_frame [OF bank_invD [OF i x]]) auto
    moreover have "all_of ?qs x = all_of qs x" using False by (simp add: all_of_def)
    ultimately show ?thesis using False by (simp add: bank_inv_def waiting_def)
  qed
  have ap1: "banks_apart s1" and rb: "readBank s1 < 2"
    using ap F(5,9) i by (simp_all add: banks_apart_def frame_def lite_inv_def)
  have RM: "room s1 x (fst (?qs x))" if "room s x (fst (qs x))" "x < 2" for x
    using that O [of x] F(4) by (cases "x = b") auto
  obtain a where a: "a < 2" "driver_ok s qs a" using i by (auto simp: lite_inv_def)
  obtain c where c: "c < 2" "a \<noteq> c" "1 - a = c"
    using a(1) that [of "1 - a"] by (cases "a = 0") (auto simp: less_2_cases_iff)
  have lld: "packetInLLD s1 = wrPtr s1 a" "room s1 a (fst (?qs a))"
    using a RM [of a] F(7,10) by (auto simp: driver_ok_def)
  have "\<exists>qs'. lite_inv (mii_restart_buffer s1) (0, 0, 0) com ?del None qs'"
  proof (cases "nextBuffer s = - 1")
    case False
    then have nb: "nextBuffer s = wrPtr s c" "room s c (fst (qs c))"
      using a(2) unfolding driver_ok_def c(3) by auto
    then have "driver_ok s1 ?qs a"
      unfolding driver_ok_def c(3) using lld RM [of c] c(1) F(7,11) by simp
    then have "lite_inv s1 (0, 0, 0) com ?del None ?qs"
      using ap1 rb I [of 0] I [of 1] a(1) by (auto simp: lite_inv_def held_ok_def)
    moreover have "mii_restart_buffer s1 = s1" using False F(11) by (simp add: mii_restart_buffer_def)
    ultimately show ?thesis by auto
  next
    case True
    have "0 < wrPtr s c"
      using bank_w(1) [OF B [OF c(1), unfolded bank_def]] bank_align(6) [OF B [OF c(1), unfolded bank_def]] by simp
    then have n: "refillBankNumber s = c" "stuck s c (fst (qs c))"
      using a(2) True unfolding driver_ok_def c(3) by auto
    have live: "snd (?qs c) \<noteq> []"
      if "fst (?qs c) = []" "lastSafePtr s1 c < wrPtr s1 c" "freePtr s1 c \<noteq> firstPtr s1 c"
    proof (cases "c = b")
      case False
      then have "stuck s1 c (fst (qs c))" using O [OF c(1) False] n(2) by simp
      then show ?thesis using that False by (simp add: stuck_def)
    next
      case cb: True
      have "lastSafePtr s c < wrPtr s c" using that(2) F(5,7) by (simp add: frame_def)
      then have e: "fst (qs c) = []"
        using bank_w(5) [OF B [OF c(1), unfolded bank_def]] by auto
      then have "snd (qs c) = (h, v) # rest" using q cb by (simp add: all_of_def)
      then have "rest \<noteq> []" using stuck_two [of s c "snd (qs c)"] B [OF c(1)] n(2) e by simp
      then show ?thesis using F(2) e cb by simp
    qed
    show ?thesis
      by (rule restart_inv [OF ap1 rb I a(1) c(1,2) lld]) (use True F(11,12) n live in auto)
  qed
  then show ?thesis using F(1) cur by auto
qed

end
