(* ===== verification/Lite_Server.thy ===== *)
theory Lite_Server
  imports Lite_System
begin

text \<open>
  The receive side of \<open>mii_single_server.xc\<close> on top of the buffers of the lite implementation, and
  the runs of the server with the driver's interrupt. What the server sends to the application is
  a list: \<open>App_uint\<close> is an announcement, \<open>App_word\<close> a word of the packet.
\<close>

datatype app_out = App_uint int | App_word word32

record lite_server =
  srv :: miiData
  havePacket :: bool
  cur :: "int \<times> int \<times> int"
  phy_status :: int

text \<open>
  The stack of the server and the channel of the notifications are new: \<open>s0\<close> is what the memory
  holds, and no notification is under way.
\<close>

definition lite_server_init :: "addr \<Rightarrow> int \<Rightarrow> miiData \<Rightarrow> int \<times> int \<times> int \<Rightarrow> lite_server" where
  "lite_server_init b words s0 c0 =
     \<lparr>srv = mii_buffer_init b words (s0\<lparr>tokens := []\<rparr>), havePacket = False, cur = c0, phy_status = 0\<rparr>"

text \<open>The words of the packet that the server holds.\<close>

definition held_words :: "lite_server \<Rightarrow> word32 list" where
  "held_words v = (let (a, n, t) = cur v in map (\<lambda>i. lmem (srv v) (a + 4 * int i)) [0..<nat ((n + 3) div 4)])"

text \<open>The application has confirmed an announcement and takes the packet.\<close>

definition lite_serve :: "lite_server \<Rightarrow> (lite_server \<times> app_out list) option" where
  "lite_serve v =
     (case mii_free_in_buffer (fst (cur v)) (srv v) of
        None \<Rightarrow> None
      | Some s \<Rightarrow>
          let (r, s) = mii_get_in_buffer (mii_restart_buffer s)
          in Some (v\<lparr>srv := s, cur := r, havePacket := fst r \<noteq> 0\<rparr>,
                   map App_word (held_words v) @ (if fst r = 0 then [] else [App_uint (fst (snd r))])))"

text \<open>The test after the select.\<close>

definition lite_check :: "lite_server \<Rightarrow> lite_server \<times> app_out list" where
  "lite_check v =
     (if havePacket v then (v, [])
      else let (r, s) = mii_get_in_buffer (srv v)
           in if fst r \<noteq> 0 then (v\<lparr>srv := s, cur := r, havePacket := True\<rparr>, [App_uint (fst (snd r))])
              else (v\<lparr>srv := s, cur := r\<rparr>, []))"

text \<open>The link check, with the status that the PHY reports.\<close>

definition lite_link_check :: "int \<Rightarrow> lite_server \<Rightarrow> lite_server \<times> app_out list" where
  "lite_link_check new_status v =
     (if new_status \<noteq> phy_status v
      then (v\<lparr>phy_status := new_status\<rparr>, [App_uint (- 1), App_word (word_of_int new_status), App_word 0])
      else (v, []))"

subsection \<open>Runs\<close>

text \<open>
  The driver writes into the buffer it was given; at the end of a frame the interrupt is taken, with
  a frame whose length is at least 5 bytes, the time stamp included, and at most 1528; a
  turn of the server is a confirmation, a notification or a link check, then the test for a
  packet. \<open>com b\<close> and \<open>del b\<close> are the packets that the interrupt committed to bank \<open>b\<close> and that the
  server sent from it.
\<close>

type_synonym lite_config = "lite_server \<times> (nat \<Rightarrow> contents list) \<times> (nat \<Rightarrow> contents list)"

definition held_contents :: "lite_server \<Rightarrow> contents" where
  "held_contents v = (fst (snd (cur v)), snd (snd (cur v)), held_words v)"

definition deliver :: "lite_server \<Rightarrow> (nat \<Rightarrow> contents list) \<Rightarrow> nat \<Rightarrow> contents list" where
  "deliver v del =
     (let b = bank_at (srv v) (fst (cur v)) in del(b := del b @ [held_contents v]))"

inductive lite_run :: "addr \<Rightarrow> int \<Rightarrow> lite_config \<Rightarrow> bool" for b :: addr and words :: int where
  start: "lite_run b words (lite_server_init b words s0 c0, \<lambda>_. [], \<lambda>_. [])"
| driver: "lite_run b words (v, com, del) \<Longrightarrow>
     packetInLLD (srv v) \<le> x \<Longrightarrow> x < packetInLLD (srv v) + MAXPACKET \<Longrightarrow>
     lite_run b words (v\<lparr>srv := (srv v)\<lparr>lmem := (lmem (srv v))(x := y)\<rparr>\<rparr>, com, del)"
| interrupt: "lite_run b words (v, com, del) \<Longrightarrow>
     lld_length (srv v) end = 0 \<or> 4 < lld_length (srv v) end \<and> lld_length (srv v) end \<le> 1528 \<Longrightarrow>
     lite_run b words (v\<lparr>srv := miiInterruptHandler end (srv v)\<rparr>, commit_log (srv v) end com, del)"
| serve: "lite_run b words (v, com, del) \<Longrightarrow> havePacket v \<Longrightarrow> lite_serve v = Some (w, o1) \<Longrightarrow>
     lite_check w = (w', o2) \<Longrightarrow> lite_run b words (w', com, deliver v del)"
| notified: "lite_run b words (v, com, del) \<Longrightarrow> mii_notified (srv v) = Some s \<Longrightarrow>
     lite_check (v\<lparr>srv := s\<rparr>) = (w, o2) \<Longrightarrow> lite_run b words (w, com, del)"
| link: "lite_run b words (v, com, del) \<Longrightarrow> lite_link_check st v = (w, o1) \<Longrightarrow>
     lite_check w = (w', o2) \<Longrightarrow> lite_run b words (w', com, del)"

definition current :: "lite_server \<Rightarrow> int \<times> int \<times> int" where
  "current v = (if havePacket v then cur v else (0, 0, 0))"

lemma current_simps [simp]:
  "havePacket v \<Longrightarrow> current v = cur v" "\<not> havePacket v \<Longrightarrow> current v = (0, 0, 0)"
  "current (v\<lparr>srv := s\<rparr>) = current v"
  by (simp_all add: current_def)

definition run_inv :: "lite_config \<Rightarrow> held \<Rightarrow> queues2 \<Rightarrow> bool" where
  "run_inv x held qs \<longleftrightarrow>
     (let (v, com, del) = x
      in lite_inv (srv v) (current v) com del held qs \<and> havePacket v = (\<not> Option.is_none held))"

lemma init_inv:
  assumes "0 < b" "4 dvd b" "1536 \<le> words"
  shows "run_inv (lite_server_init b words s0 c0, \<lambda>_. [], \<lambda>_. []) None (\<lambda>_. ([], []))"
proof -
  let ?s = "mii_buffer_init b words (s0\<lparr>tokens := []\<rparr>)"
  let ?f = "b + 4 * (2 * words div 4)"
  have f: "b + 3072 \<le> ?f" "?f + 3072 \<le> b + 4 * words" "4 dvd ?f" using assms by presburger+
  have p: "firstPtr ?s x = (if x = 0 then b else ?f)" "wrPtr ?s x = firstPtr ?s x + 4"
    "freePtr ?s x = firstPtr ?s x" "readPtr ?s x = firstPtr ?s x" "readBank ?s = 0"
    "lastSafePtr ?s x = (if x = 0 then ?f else b + 4 * words) - 1530"
    "packetInLLD ?s = b + 4" "nextBuffer ?s = ?f + 4" for x
    by (simp_all add: mii_buffer_init_def Let_def MAXPACKET_def)
  have l: "lmem ?s = (lmem s0)(b := 1, ?f := 1)"
    by (simp add: mii_buffer_init_def Let_def)
  have w: "get_w ?s b = 1" "get_w ?s ?f = 1" using f by (simp_all add: get_w_def l)
  have "bank_inv ?s None (\<lambda>_. ([], [])) (\<lambda>_. []) (\<lambda>_. []) x" if "x < 2" for x
    using assms f w by (simp add: bank_inv_def bank_def bank_ok_def p waiting_def all_of_def)
  moreover have "driver_ok ?s (\<lambda>_. ([], [])) 0"
    using f by (simp add: driver_ok_def p room_def has_room_def)
  moreover have "banks_apart ?s" by (simp add: banks_apart_def p)
  ultimately show ?thesis
    by (auto simp: run_inv_def lite_inv_def lite_server_init_def held_ok_def p intro!: exI [of _ 0])
qed

lemma all_of_nonneg:
  assumes "lite_inv s c com del (Some (b, (h, v))) qs"
  shows "0 < h" "b < 2" "c = (h + 8, v - 4, get_w s (h + 4))" "2 \<le> v" "bank_at s (h + 8) = b"
    "(h, v) \<in> set (all_of qs b)"
proof -
  have ho: "held_ok s c (Some (b, (h, v))) qs" and ap: "banks_apart s" using assms by (simp_all add: lite_inv_def)
  then show b: "b < 2" and "c = (h + 8, v - 4, get_w s (h + 4))" by (simp_all add: held_ok_def)
  show m: "(h, v) \<in> set (all_of qs b)" using ho hd_in_set by (fastforce simp: held_ok_def)
  have B: "bank s b (fst (qs b)) (snd (qs b))" by (rule bank_of_inv [OF assms b])
  note M = bank_mem [OF B [unfolded bank_def] m [unfolded all_of_def]]
  show "0 < h" using M(1) bank_align(6) [OF B [unfolded bank_def]] by simp
  show "2 \<le> v" by (rule M)
  have "firstPtr s b \<le> h + 8" "h + 8 < lastSafePtr s b + 1530"
    using M(1,2,4) up4_bounds(1,3) [of v] by presburger+
  then show "bank_at s (h + 8) = b" unfolding bank_at_def by (intro bank_of_buffer [OF b B ap])
qed

lemma check_inv:
  assumes i: "run_inv (v, com, del) held qs" and c: "lite_check v = (w, o2)"
  shows "\<exists>held. run_inv (w, com, del) held qs \<and> (havePacket w \<or> all_of qs 0 = [] \<and> all_of qs 1 = [])"
proof (cases "havePacket v")
  case True
  then show ?thesis using i c by (auto simp: lite_check_def)
next
  case False
  then have i': "lite_inv (srv v) (0, 0, 0) com del None qs" using i by (cases held) (simp_all add: run_inv_def)
  obtain r s where g: "mii_get_in_buffer (srv v) = (r, s)" by fastforce
  obtain held' where h: "lite_inv s r com del held' qs" "held' = None \<longrightarrow> all_of qs 0 = [] \<and> all_of qs 1 = []"
    using get_inv [OF i' g] by blast
  have "fst r \<noteq> 0 \<longleftrightarrow> held' \<noteq> None"
  proof (cases held')
    case None
    then show ?thesis using h(1) by (simp add: lite_inv_def held_ok_def)
  next
    case (Some p)
    obtain x y z where "p = (x, (y, z))" by (metis prod_cases3)
    then show ?thesis using all_of_nonneg(1,3) [of s r com del x y z qs] h(1) Some by auto
  qed
  moreover have "lite_inv s (0, 0, 0) com del None qs" if "held' = None"
    using h(1) that by (simp add: lite_inv_def held_ok_def)
  ultimately have "run_inv (w, com, del) held' qs \<and> (havePacket w \<or> all_of qs 0 = [] \<and> all_of qs 1 = [])"
    using c False g h by (cases held') (auto simp: lite_check_def run_inv_def current_def split: if_splits)
  then show ?thesis by blast
qed

text \<open>What the server sends is the oldest packet of its bank, as it was committed.\<close>

lemma held_contents_packet:
  assumes "run_inv (v, com, del) held qs" "havePacket v"
  obtains b h u where "held = Some (b, (h, u))" "b < 2" "cur v = (h + 8, u - 4, get_w (srv v) (h + 4))"
    "held_contents v = packet_of (srv v) (h, u)" "bank_at (srv v) (fst (cur v)) = b" "hd (all_of qs b) = (h, u)"
    "all_of qs b \<noteq> []"
proof -
  have i: "lite_inv (srv v) (cur v) com del held qs" and "\<not> Option.is_none held"
    using assms by (simp_all add: run_inv_def)
  then obtain b h u where p: "held = Some (b, (h, u))" by (cases held) auto
  note A = all_of_nonneg [OF i [unfolded p]]
  have "held_contents v = packet_of (srv v) (h, u)"
    by (simp add: held_contents_def held_words_def packet_of_def A(3) Let_def)
  moreover have "hd (all_of qs b) = (h, u)" "all_of qs b \<noteq> []"
    using i by (simp_all add: lite_inv_def held_ok_def p)
  ultimately show thesis using that [OF p A(2) A(3)] A(3,5) by simp
qed

lemma serve_inv:
  assumes i: "run_inv (v, com, del) held qs" and p: "havePacket v"
  shows "\<exists>w o1 held' qs'. lite_serve v = Some (w, o1) \<and> run_inv (w, com, deliver v del) held' qs'"
proof -
  obtain b h u where H: "held = Some (b, (h, u))" "b < 2" "cur v = (h + 8, u - 4, get_w (srv v) (h + 4))"
    "held_contents v = packet_of (srv v) (h, u)" "bank_at (srv v) (fst (cur v)) = b"
    by (rule held_contents_packet [OF i p])
  have i': "lite_inv (srv v) (cur v) com del (Some (b, (h, u))) qs" using i p H(1) by (simp add: run_inv_def)
  have d: "deliver v del = del(b := del b @ [packet_of (srv v) (h, u)])" by (simp only: deliver_def H(4,5) Let_def)
  obtain s1 qs' where f: "mii_free_in_buffer (fst (cur v)) (srv v) = Some s1"
    "lite_inv (mii_restart_buffer s1) (0, 0, 0) com (deliver v del) None qs'"
    using free_restart_inv [OF i'] by (auto simp: d)
  obtain r s where g: "mii_get_in_buffer (mii_restart_buffer s1) = (r, s)" by fastforce
  let ?w = "v\<lparr>srv := mii_restart_buffer s1, havePacket := False\<rparr>"
  have "run_inv (?w, com, deliver v del) None qs'" using f(2) by (simp add: run_inv_def)
  moreover obtain w' o2 where c: "lite_check ?w = (w', o2)" by fastforce
  ultimately obtain held' where h: "run_inv (w', com, deliver v del) held' qs'" using check_inv by blast
  have "\<exists>o1. lite_serve v = Some (w', o1)"
    using c by (auto simp: lite_serve_def lite_check_def f(1) g split: if_splits)
  then show ?thesis using h by blast
qed

lemma same_srv_inv:
  assumes "run_inv (v, com, del) held qs" "srv w = srv v" "havePacket w = havePacket v" "cur w = cur v"
  shows "run_inv (w, com, del) held qs"
proof -
  have "current w = current v" using assms(3,4) by (simp add: current_def)
  then show ?thesis using assms by (simp add: run_inv_def)
qed

lemma notified_inv:
  assumes i: "run_inv (v, com, del) held qs" and n: "mii_notified (srv v) = Some s"
  shows "run_inv (v\<lparr>srv := s\<rparr>, com, del) held qs"
proof -
  have e: "same_banks (srv v) s" "readPtr s = readPtr (srv v)" "readBank s = readBank (srv v)"
    and d: "driver_ok s qs a = driver_ok (srv v) qs a" for a
    using n by (auto simp: mii_notified_def same_banks_def driver_ok_def room_def stuck_def split: list.splits)
  obtain a where "a < 2" "driver_ok (srv v) qs a" using i by (auto simp: run_inv_def lite_inv_def)
  then show ?thesis
    using i same_banks_inv [OF e(1-3)] d by (simp add: run_inv_def)
qed

lemma driver_run_inv:
  assumes i: "run_inv (v, com, del) held qs" and x: "packetInLLD (srv v) \<le> x" "x < packetInLLD (srv v) + MAXPACKET"
  shows "run_inv (v\<lparr>srv := (srv v)\<lparr>lmem := (lmem (srv v))(x := y)\<rparr>\<rparr>, com, del) held qs"
proof -
  have "lite_inv (srv v) (current v) com del held qs" using i by (simp add: run_inv_def)
  from lld_inv [OF this x(1)] x(2) show ?thesis using i by (simp add: run_inv_def MAXPACKET_def)
qed

lemma interrupt_run_inv:
  assumes i: "run_inv (v, com, del) held qs"
    and l: "lld_length (srv v) e = 0 \<or> 4 < lld_length (srv v) e \<and> lld_length (srv v) e \<le> 1528"
  shows "\<exists>qs. run_inv (v\<lparr>srv := miiInterruptHandler e (srv v)\<rparr>, commit_log (srv v) e com, del) held qs"
proof -
  have "lite_inv (srv v) (current v) com del held qs" using i by (simp add: run_inv_def)
  from interrupt_inv [OF this l refl] obtain qs' where
    "lite_inv (miiInterruptHandler e (srv v)) (current v) (commit_log (srv v) e com) del held qs'" by auto
  then have "run_inv (v\<lparr>srv := miiInterruptHandler e (srv v)\<rparr>, commit_log (srv v) e com, del) held qs'"
    using i by (simp add: run_inv_def)
  then show ?thesis by blast
qed

lemma link_inv:
  assumes i: "run_inv (v, com, del) held qs" and l: "lite_link_check st v = (w, o1)"
  shows "run_inv (w, com, del) held qs"
  by (rule same_srv_inv [OF i]) (use l in \<open>auto simp: lite_link_check_def split: if_splits\<close>)

lemma lite_run_inv:
  assumes b: "0 < b" "4 dvd b" "1536 \<le> words" and r: "lite_run b words x"
  shows "\<exists>held qs. run_inv x held qs"
  using r
proof induction
  case (start s0 c0)
  show ?case using init_inv [OF b] by blast
next
  case (driver v com del x y)
  then obtain held qs where "run_inv (v, com, del) held qs" by auto
  from driver_run_inv [OF this driver.hyps(2,3)] show ?case by blast
next
  case (interrupt v com del e)
  then obtain held qs where "run_inv (v, com, del) held qs" by auto
  from interrupt_run_inv [OF this interrupt.hyps(2)] show ?case by blast
next
  case (serve v com del w o1 w' o2)
  then obtain held qs where "run_inv (v, com, del) held qs" by auto
  from serve_inv [OF this serve.hyps(2)] serve.hyps(3) obtain held' qs'
    where "run_inv (w, com, deliver v del) held' qs'" by auto
  from check_inv [OF this serve.hyps(4)] show ?case by blast
next
  case (notified v com del s w o2)
  then obtain held qs where "run_inv (v, com, del) held qs" by auto
  from check_inv [OF notified_inv [OF this notified.hyps(2)] notified.hyps(3)] show ?case by blast
next
  case (link v com del st w o1 w' o2)
  then obtain held qs where "run_inv (v, com, del) held qs" by auto
  from check_inv [OF link_inv [OF this link.hyps(2)] link.hyps(3)] show ?case by blast
qed

subsection \<open>The handshake of the notifications\<close>

text \<open>At most one notification is under way, and exactly when the two flags differ.\<close>

definition shake :: "miiData \<Rightarrow> bool" where
  "shake s \<longleftrightarrow> tokens s = (if notifyLast s = notifySeen s then [] else [notifyLast s])"

definition quiet :: "miiData \<Rightarrow> miiData \<Rightarrow> bool" where
  "quiet s s' \<longleftrightarrow> tokens s' = tokens s \<and> notifyLast s' = notifyLast s \<and> notifySeen s' = notifySeen s"

lemma quiet_trans: "quiet s s' \<Longrightarrow> quiet s' s'' \<Longrightarrow> quiet s s''"
  by (simp add: quiet_def)

lemma quiet_shake: "quiet s s' \<Longrightarrow> shake s' = shake s" "quiet s s' \<Longrightarrow> tokens s' = tokens s"
  by (simp_all add: quiet_def shake_def)

lemma wrap_bank_flags [simp]:
  "tokens (wrap_bank b s) = tokens s" "notifyLast (wrap_bank b s) = notifyLast s"
  "notifySeen (wrap_bank b s) = notifySeen s"
  by (simp_all add: wrap_bank_def Let_def)

lemma shake_notify: "shake s \<Longrightarrow> shake (miiNotify s) \<and> tokens (miiNotify s) \<noteq> []"
  by (auto simp: shake_def miiNotify_def)

lemma commit_notifies: "\<exists>t. quiet t s \<and> quiet (miiNotify t) (miiCommitBuffer a v s)"
proof -
  let ?b = "if a < firstPtr s 1 then 0 else 1"
  let ?t = "set_w (wrPtr s ?b - 4) v s"
  let ?u = "?t\<lparr>wrPtr := (wrPtr ?t)(?b := wrPtr ?t ?b + up4 v + 4)\<rparr>"
  have "quiet ?u s" by (simp add: quiet_def)
  moreover have "quiet (miiNotify ?u) (miiCommitBuffer a v s)"
    unfolding miiCommitBuffer_def Let_def quiet_def by simp
  ultimately show ?thesis by blast
qed

lemma shake_commit: "shake s \<Longrightarrow> shake (miiCommitBuffer a v s) \<and> tokens (miiCommitBuffer a v s) \<noteq> []"
  using commit_notifies [of s a v] shake_notify by (metis quiet_shake)

lemma quiet_from_bank: "quiet s (snd (get_from_bank s))"
proof -
  define s1 where "s1 = s\<lparr>readBank := 1 - readBank s\<rparr>"
  define b where "b = readBank s1"
  define s2 where "s2 = (if get_w s1 (readPtr s1 b) = 0 then s1\<lparr>readPtr := (readPtr s1)(b := firstPtr s1 b)\<rparr> else s1)"
  define s3 where "s3 = s2\<lparr>readPtr := (readPtr s2)(b := readPtr s2 b + up4 (get_w s2 (readPtr s2 b)) + 4)\<rparr>"
  define s4 where "s4 = (if get_w s3 (readPtr s3 b) = 0 then s3\<lparr>readPtr := (readPtr s3)(b := firstPtr s3 b)\<rparr> else s3)"
  have "snd (get_from_bank s) = (if get_w s2 (readPtr s2 b) \<noteq> 1 then s4 else s2)"
    by (simp only: get_from_bank_def Let_def s1_def [symmetric] b_def [symmetric] s2_def [symmetric]
        s3_def [symmetric] s4_def [symmetric] if_distrib [of snd] snd_conv)
  moreover have "quiet s s2" by (simp add: quiet_def s2_def s1_def)
  moreover have "quiet s2 s4" by (simp add: quiet_def s4_def s3_def)
  ultimately show ?thesis using quiet_trans by auto
qed

lemma quiet_server:
  "mii_free_in_buffer a s = Some s' \<Longrightarrow> quiet s s'" "quiet s (mii_restart_buffer s)"
  "mii_get_in_buffer s = (r, s'') \<Longrightarrow> quiet s s''"
proof -
  note g = quiet_from_bank
  show "mii_get_in_buffer s = (r, s'') \<Longrightarrow> quiet s s''"
    using g [of s] g [of "snd (get_from_bank s)"] quiet_trans
    by (auto simp: mii_get_in_buffer_def split: prod.splits option.splits)
  show "mii_free_in_buffer a s = Some s' \<Longrightarrow> quiet s s'"
    by (auto simp: mii_free_in_buffer_def Let_def quiet_def)
  show "quiet s (mii_restart_buffer s)" by (simp add: mii_restart_buffer_def Let_def quiet_def)
qed

lemma quiet_check:
  assumes "lite_check v = (w, o1)"
  shows "quiet (srv v) (srv w)"
proof -
  obtain r s where g: "mii_get_in_buffer (srv v) = (r, s)" by fastforce
  have "srv w = s \<or> srv w = srv v" using assms g by (auto simp: lite_check_def split: if_splits)
  then show ?thesis using quiet_server(3) [OF g] by (auto simp: quiet_def)
qed

lemma quiet_serve:
  assumes "lite_serve v = Some (w, o1)"
  shows "quiet (srv v) (srv w)"
proof -
  obtain s r s' where f: "mii_free_in_buffer (fst (cur v)) (srv v) = Some s"
    and g: "mii_get_in_buffer (mii_restart_buffer s) = (r, s')" and w: "srv w = s'"
    using assms by (auto simp: lite_serve_def split: option.splits prod.splits)
  from quiet_trans [OF quiet_trans [OF quiet_server(1) [OF f] quiet_server(2)] quiet_server(3) [OF g]]
  show ?thesis by (simp add: w)
qed

lemma interrupt_shake:
  assumes s: "shake s"
  shows "shake (miiInterruptHandler e s) \<and>
    (commit_log s e com = com \<and> tokens (miiInterruptHandler e s) = tokens s \<or>
     tokens (miiInterruptHandler e s) \<noteq> [])"
proof -
  obtain len u where g: "packetGood (packetInLLD s) e (s\<lparr>packetInLLD := nextBuffer s\<rparr>) = (len, u)" by fastforce
  have q: "quiet s u" "len = lld_length s e"
    using g by (auto simp: packetGood_def quiet_def Let_def lld_length_def split: if_splits)
  then have u: "shake u" "tokens u = tokens s" using s quiet_shake by auto
  consider "nextBuffer s = - 1" | "nextBuffer s \<noteq> - 1" "len = 0" | "nextBuffer s \<noteq> - 1" "len \<noteq> 0" by blast
  then show ?thesis
  proof cases
    case 1
    then have "quiet s (miiInterruptHandler e s)" by (simp add: miiInterruptHandler_def quiet_def)
    then show ?thesis using s quiet_shake 1 by (simp add: commit_log_def)
  next
    case 2
    then have "quiet u (miiInterruptHandler e s)"
      using g by (simp add: miiInterruptHandler_def miiClientUser_def miiRejectBuffer_def quiet_def)
    then show ?thesis using u quiet_shake 2 q(2) by (simp add: commit_log_def)
  next
    case 3
    then have "miiInterruptHandler e s = miiCommitBuffer (packetInLLD s) len u"
      using g by (simp add: miiInterruptHandler_def miiClientUser_def)
    then show ?thesis using shake_commit [OF u(1)] by simp
  qed
qed

text \<open>A packet that the server does not hold has a notification under way.\<close>

definition awake :: "lite_config \<Rightarrow> bool" where
  "awake x \<longleftrightarrow>
     (let (v, com, del) = x
      in shake (srv v) \<and> (havePacket v \<or> tokens (srv v) \<noteq> [] \<or> com 0 = del 0 \<and> com 1 = del 1))"

lemma check_awake:
  assumes i: "run_inv (v, com, del) held qs" and c: "lite_check v = (w, o1)" and s: "shake (srv v)"
  shows "awake (w, com, del)"
proof -
  obtain held' where h: "run_inv (w, com, del) held' qs" "havePacket w \<or> all_of qs 0 = [] \<and> all_of qs 1 = []"
    using check_inv [OF i c] by blast
  have "lite_inv (srv w) (current w) com del held' qs" using h(1) by (simp add: run_inv_def)
  from bank_invD [OF this] have "com x = del x @ map (packet_of (srv w)) (all_of qs x)" if "x < 2" for x
    using that by (simp add: bank_inv_def)
  from this [of 0] this [of 1] show ?thesis
    using h(2) s quiet_shake(1) [OF quiet_check [OF c]] by (auto simp: awake_def)
qed

lemma notified_shake: "shake s \<Longrightarrow> mii_notified s = Some s' \<Longrightarrow> shake s'"
  by (auto simp: shake_def mii_notified_def split: list.splits if_splits)

lemma lite_run_awake:
  assumes b: "0 < b" "4 dvd b" "1536 \<le> words" and r: "lite_run b words x"
  shows "awake x"
  using r
proof induction
  case (start s0 c0)
  show ?case by (simp add: awake_def lite_server_init_def shake_def mii_buffer_init_def Let_def)
next
  case (driver v com del x y)
  then show ?case by (simp add: awake_def shake_def)
next
  case (interrupt v com del e)
  then have "shake (srv v)" by (simp add: awake_def)
  from interrupt_shake [OF this, of e com] show ?case using interrupt by (auto simp: awake_def)
next
  case (serve v com del w o1 w' o2)
  obtain held qs where "run_inv (v, com, del) held qs" using lite_run_inv [OF b serve.hyps(1)] by auto
  from serve_inv [OF this serve.hyps(2)] serve.hyps(3) obtain held' qs'
    where i: "run_inv (w, com, deliver v del) held' qs'" by auto
  have "shake (srv w)" using quiet_shake(1) [OF quiet_serve [OF serve.hyps(3)]] serve.IH by (simp add: awake_def)
  from check_awake [OF i serve.hyps(4) this] show ?case .
next
  case (notified v com del s w o2)
  obtain held qs where "run_inv (v, com, del) held qs" using lite_run_inv [OF b notified.hyps(1)] by auto
  note i = notified_inv [OF this notified.hyps(2)]
  have "shake s" using notified_shake [OF _ notified.hyps(2)] notified.IH by (simp add: awake_def)
  then show ?case using check_awake [OF i notified.hyps(3)] by simp
next
  case (link v com del st w o1 w' o2)
  obtain held qs where "run_inv (v, com, del) held qs" using lite_run_inv [OF b link.hyps(1)] by auto
  note i = link_inv [OF this link.hyps(2)]
  have "srv w = srv v" using link.hyps(2) by (auto simp: lite_link_check_def split: if_splits)
  then show ?case using check_awake [OF i link.hyps(3)] link.IH by (simp add: awake_def)
qed

lemma idle_not_stuck:
  assumes i: "lite_inv s c com del held qs" and e: "all_of qs 0 = []" "all_of qs 1 = []"
  shows "nextBuffer s \<noteq> - 1"
proof
  assume n: "nextBuffer s = - 1"
  obtain a where a: "a < 2" "driver_ok s qs a" using i by (auto simp: lite_inv_def)
  define d where "d = 1 - a"
  have "d = 0 \<or> d = 1" by (auto simp: d_def)
  then have d: "d < 2" and q: "fst (qs d) = []" "snd (qs d) = []" using e by (auto simp: all_of_def)
  have B: "bank s d [] []" using bank_of_inv [OF i d] q by simp
  note A = bank_align [OF B [unfolded bank_def]] and W = bank_w [OF B [unfolded bank_def]]
  have "0 < wrPtr s d" using W(1) A(6) by simp
  then have k: "stuck s d []" using a(2) n q(1) unfolding driver_ok_def d_def by auto
  have "segs (get_w s) (lastSafePtr s d) (freePtr s d) [] (wrPtr s d - 4)" using B by (simp add: bank_def bank_ok_def)
  from segs_length [OF this] show False using k A(5) by (simp add: stuck_def)
qed

lemma pending_parts:
  assumes b: "0 < b" "4 dvd b" "1536 \<le> words" and r: "lite_run b words (v, com, del)"
  obtains pending where "\<forall>x < 2. com x = del x @ pending x"
    "havePacket v \<longrightarrow> (\<exists>w o1. lite_serve v = Some (w, map App_word (held_words v) @ o1)) \<and>
       (\<exists>rest. pending (bank_at (srv v) (fst (cur v))) = held_contents v # rest)"
    "\<not> havePacket v \<and> tokens (srv v) = [] \<longrightarrow> pending 0 = [] \<and> pending 1 = []"
    "pending 0 = [] \<and> pending 1 = [] \<longrightarrow> nextBuffer (srv v) \<noteq> - 1"
proof -
  obtain held qs where i: "run_inv (v, com, del) held qs" using lite_run_inv [OF b r] by auto
  have l: "lite_inv (srv v) (current v) com del held qs" using i by (simp add: run_inv_def)
  define pending where "pending = (\<lambda>x. map (packet_of (srv v)) (all_of qs x))"
  have c: "\<forall>x < 2. com x = del x @ pending x"
    using bank_invD [OF l] by (simp add: bank_inv_def pending_def)
  have h: "(\<exists>w o1. lite_serve v = Some (w, map App_word (held_words v) @ o1)) \<and>
       (\<exists>rest. pending (bank_at (srv v) (fst (cur v))) = held_contents v # rest)" if p: "havePacket v"
  proof -
    obtain w o1 where s: "lite_serve v = Some (w, o1)" using serve_inv [OF i p] by auto
    then have "\<exists>o2. o1 = map App_word (held_words v) @ o2"
      by (auto simp: lite_serve_def split: option.splits prod.splits)
    moreover obtain x k u where H: "held_contents v = packet_of (srv v) (k, u)"
      "bank_at (srv v) (fst (cur v)) = x" "hd (all_of qs x) = (k, u)" "all_of qs x \<noteq> []"
      by (rule held_contents_packet [OF i p])
    ultimately show ?thesis using s by (cases "all_of qs x") (auto simp: pending_def)
  qed
  have "awake (v, com, del)" by (rule lite_run_awake [OF b r])
  then have n: "\<not> havePacket v \<and> tokens (srv v) = [] \<longrightarrow> pending 0 = [] \<and> pending 1 = []"
    using c by (auto simp: awake_def)
  have "pending 0 = [] \<and> pending 1 = [] \<longrightarrow> nextBuffer (srv v) \<noteq> - 1"
    using idle_not_stuck [OF l] by (auto simp: pending_def)
  then show thesis using that [of pending] c h n by blast
qed

text \<open>C4: On every run of the lite server on a buffer of at least 1536 words with frames of at most
  1528 bytes, each bank delivers the packets that the interrupt committed to it in order, each with
  its length, time stamp and words as committed; a packet that the server holds is the oldest
  of its bank, and serving it returns, its words first; no packet waits unless the server holds one or a
  notification is under way; and with nothing waiting the driver has a buffer to go on with.
\<close>

theorem lite_server_delivers:
  assumes "0 < b" "4 dvd b" "1536 \<le> words" "lite_run b words (v, com, del)"
  shows "\<exists>pending. (\<forall>x < 2. com x = del x @ pending x) \<and>
    (havePacket v \<longrightarrow> (\<exists>w o1. lite_serve v = Some (w, map App_word (held_words v) @ o1)) \<and>
       (\<exists>rest. pending (bank_at (srv v) (fst (cur v))) = held_contents v # rest)) \<and>
    (\<not> havePacket v \<and> tokens (srv v) = [] \<longrightarrow> pending 0 = [] \<and> pending 1 = []) \<and>
    (pending 0 = [] \<and> pending 1 = [] \<longrightarrow> nextBuffer (srv v) \<noteq> - 1)"
  by (rule pending_parts [OF assms]) blast

text \<open>A run: a frame of 64 bytes arrives in the first buffer, and its notification wakes the server.\<close>

definition example_lite :: "(addr \<Rightarrow> word32) \<Rightarrow> miiData" where
  "example_lite m =
     \<lparr>lmem = m, nextBuffer = 0, packetInLLD = 0, miiPacketsOverran = 0, refillBankNumber = 0,
      freePtr = (\<lambda>_. 0), wrPtr = (\<lambda>_. 0), lastSafePtr = (\<lambda>_. 0), firstPtr = (\<lambda>_. 0), readPtr = (\<lambda>_. 0),
      notifyLast = False, notifySeen = False, miiPacketsTransmitted = 0, miiPacketsReceived = 0,
      miiPacketsCRCError = 0, readBank = 0, tokens = []\<rparr>"

definition example_start :: lite_server where
  "example_start =
     lite_server_init 4 1536 (example_lite (\<lambda>a. if a = 84 then - 1 else if a = 8 then 7 else 0)) (0, 0, 0)"

definition example_frame :: lite_server where
  "example_frame = example_start\<lparr>srv := miiInterruptHandler 72 (srv example_start)\<rparr>"

definition example_held :: "(lite_server \<times> app_out list) option" where
  "example_held = map_option (\<lambda>s. lite_check (example_frame\<lparr>srv := s\<rparr>)) (mii_notified (srv example_frame))"

lemma example_values:
  "lld_length (srv example_start) 72 = 64" "example_held \<noteq> None"
  "map_option (\<lambda>(w, o1). (havePacket w, cur w, o1)) example_held = Some (True, (12, 60, 7), [App_uint 60])"
  "havePacket (fst (the example_held))"
  by code_simp+

lemma example_run:
  "lite_run 4 1536 (fst (the example_held), commit_log (srv example_start) 72 (\<lambda>_. []), \<lambda>_. [])"
proof -
  have "lite_run 4 1536 (example_start, \<lambda>_. [], \<lambda>_. [])"
    unfolding example_start_def by (rule lite_run.start)
  from lite_run.interrupt [OF this, of 72] have
    "lite_run 4 1536 (example_frame, commit_log (srv example_start) 72 (\<lambda>_. []), \<lambda>_. [])"
    by (simp add: example_values(1) example_frame_def)
  moreover obtain s where s: "mii_notified (srv example_frame) = Some s"
    using example_values(2) by (auto simp: example_held_def)
  moreover obtain w o1 where w: "lite_check (example_frame\<lparr>srv := s\<rparr>) = (w, o1)" by fastforce
  ultimately show ?thesis using lite_run.notified by (simp add: example_held_def)
qed

theorem lite_server_delivers_witness:
  "havePacket (fst (the example_held)) \<and> (\<exists>pending. pending 0 = commit_log (srv example_start) 72 (\<lambda>_. []) 0 \<and>
     (\<exists>w o1. lite_serve (fst (the example_held)) = Some (w, map App_word (held_words (fst (the example_held))) @ o1)))"
proof -
  have "havePacket (fst (the example_held))"
    by (rule example_values)
  then show ?thesis using lite_server_delivers [OF _ _ _ example_run] by auto
qed

end
