(* ===== verification/Lite_Limits.thy ===== *)
theory Lite_Limits
  imports Lite_Server
begin

text \<open>
  Why the runs of the lite server ask for 1536 words of buffer and for frames of at most 1528 bytes:
  with the 1520 words that \<open>mii_client.h\<close> names as the minimum one full frame stops the receiver for
  good, and a packet of the 1530 bytes that \<open>MAXPACKET\<close> allows can overwrite the other bank.
\<close>

declare advance_free.simps [code]

text \<open>With 1520 words the second bank starts 3040 bytes behind the first.\<close>

lemma small_init:
  fixes b :: int and s :: miiData
  defines "s0 \<equiv> mii_buffer_init b 1520 s"
  shows "nextBuffer s0 = b + 3044" "packetInLLD s0 = b + 4" "miiPacketsOverran s0 = 0"
    "firstPtr s0 = (\<lambda>k. if k = 0 then b else b + 3040)" "freePtr s0 = firstPtr s0"
    "readPtr s0 = firstPtr s0" "wrPtr s0 = (\<lambda>k. firstPtr s0 k + 4)" "lastSafePtr s0 0 = b + 1510"
    "readBank s0 = 0" "lmem s0 (b + 3040) = 1"
  by (auto simp: s0_def mii_buffer_init_def Let_def set_w_def MAXPACKET_def)

text \<open>
  The first bank after its first packet, of \<open>v\<close> bytes, filled it: the packet waits, and there
  is no buffer for the driver.
\<close>

definition bank_full :: "int \<Rightarrow> int \<Rightarrow> word32 \<Rightarrow> miiData \<Rightarrow> bool" where
  "bank_full b v stamp s \<longleftrightarrow>
     nextBuffer s = - 1 \<and> refillBankNumber s = 0 \<and> readBank s = 0 \<and>
     firstPtr s = (\<lambda>k. if k = 0 then b else b + 3040) \<and> freePtr s = firstPtr s \<and> readPtr s = firstPtr s \<and>
     wrPtr s 0 = b + up4 v + 8 \<and> lastSafePtr s 0 = b + 1510 \<and>
     get_w s b = v \<and> get_w s (b + up4 v + 4) = 1 \<and> get_w s (b + 3040) = 1 \<and> lmem s (b + 4) = stamp"

text \<open>The packet is freed, the bank has wrapped, and still there is no room for a buffer.\<close>

definition bank_stuck :: "int \<Rightarrow> int \<Rightarrow> miiData \<Rightarrow> bool" where
  "bank_stuck b v s \<longleftrightarrow>
     nextBuffer s = - 1 \<and> refillBankNumber s = 0 \<and>
     firstPtr s = (\<lambda>k. if k = 0 then b else b + 3040) \<and> freePtr s 0 = b + up4 v + 4 \<and>
     (readPtr s 0 = b + up4 v + 4 \<or> readPtr s 0 = b) \<and> readPtr s 1 = b + 3040 \<and> wrPtr s 0 = b + 4 \<and> lastSafePtr s 0 = b + 1510 \<and>
     get_w s b = 1 \<and> get_w s (b + up4 v + 4) = 0 \<and> get_w s (b + 3040) = 1 \<and> readBank s < 2"

lemma up4_small: "1501 \<le> v \<Longrightarrow> v \<le> 1528 \<Longrightarrow> 1504 \<le> up4 v \<and> up4 v \<le> 1528"
  using up4_mono [of 1501 v] up4_mono [of v 1528] by (simp add: up4_def)

lemma sint_length: "0 \<le> v \<Longrightarrow> v \<le> 1528 \<Longrightarrow> sint (word_of_int v :: word32) = v"
  by (simp add: sint_sbintrunc' signed_take_bit_int_eq_self)

lemma first_packet_fills:
  assumes m: "\<And>x. b + 3040 \<le> x \<Longrightarrow> m x = lmem (mii_buffer_init b 1520 s) x" and b: "0 < b"
    and v: "1501 \<le> v" "v \<le> 1528" "sint (CRCBad m (b + 4) e) = v"
    and s1: "s1 = miiInterruptHandler e (mii_buffer_init b 1520 s\<lparr>lmem := m\<rparr>)"
  shows "bank_full b v (m (b + 4)) s1 \<and> miiPacketsOverran s1 = 0"
proof -
  have u: "1504 \<le> up4 v" "up4 v \<le> 1528" using up4_small v by auto
  have "m (b + 3040) = 1" using m [of "b + 3040"] small_init(10) by simp
  then have g: "get_w (s\<lparr>lmem := m\<rparr>) (b + 3040) = 1" for s by (simp add: get_w_def)
  show ?thesis
    using u b v g unfolding s1
    by (simp add: miiInterruptHandler_def miiClientUser_def packetGood_def miiCommitBuffer_def
        miiNotify_def Let_def small_init bank_full_def set_w_def get_w_def split_beta sint_length)
qed

lemma overrun_only: "nextBuffer s = - 1 \<Longrightarrow> miiInterruptHandler e s = s\<lparr>miiPacketsOverran := miiPacketsOverran s + 1\<rparr>"
  by (simp add: miiInterruptHandler_def)

lemma overruns_only:
  "nextBuffer s = - 1 \<Longrightarrow> fold miiInterruptHandler es s = s\<lparr>miiPacketsOverran := miiPacketsOverran s + int (length es)\<rparr>"
proof (induction es arbitrary: s)
  case (Cons e es)
  then show ?case using Cons.IH [of "miiInterruptHandler e s"] by (simp add: overrun_only algebra_simps)
qed simp

lemma bank_full_overrun: "bank_full b v stamp (s\<lparr>miiPacketsOverran := n\<rparr>) = bank_full b v stamp s"
  by (simp add: bank_full_def get_w_def)

lemma bank_stuck_overrun: "bank_stuck b v (s\<lparr>miiPacketsOverran := n\<rparr>) = bank_stuck b v s"
  by (simp add: bank_stuck_def get_w_def)

text \<open>The client takes the packet.\<close>

lemma bank_full_taken:
  assumes s: "bank_full b v stamp s" and v: "1501 \<le> v" "v \<le> 1528"
  shows "mii_get_in_buffer s = ((b + 8, v - 4, sint stamp), s\<lparr>readPtr := (readPtr s)(0 := b + up4 v + 4)\<rparr>)"
proof -
  have u: "1504 \<le> up4 v" "up4 v \<le> 1528" using up4_small v by auto
  have "get_from_bank s = (None, s\<lparr>readBank := 1\<rparr>)"
    using s by (simp add: bank_full_def get_from_bank_def Let_def get_w_def)
  moreover have "get_from_bank (s\<lparr>readBank := 1\<rparr>)
      = (Some (b + 8, v - 4, sint stamp), s\<lparr>readPtr := (readPtr s)(0 := b + up4 v + 4)\<rparr>)"
    using s v u by (simp add: bank_full_def get_from_bank_def Let_def get_w_def algebra_simps)
  ultimately show ?thesis by (simp add: mii_get_in_buffer_def)
qed

lemma advance_free_step:
  "m p < 0 \<Longrightarrow> advance_free m F p = advance_free m F (p + up4 (- m p) + 4)"
  "0 < m p \<Longrightarrow> advance_free m F p = Some p"
  by (subst advance_free.simps, simp add: Let_def)+

text \<open>The client frees it, and restarts the driver in vain.\<close>

lemma bank_full_freed:
  assumes s: "bank_full b v stamp s" and v: "1501 \<le> v" "v \<le> 1528"
  shows "\<exists>t. mii_free_in_buffer (b + 8) (s\<lparr>readPtr := (readPtr s)(0 := b + up4 v + 4)\<rparr>) = Some t \<and>
    bank_stuck b v (mii_restart_buffer t) \<and> miiPacketsOverran (mii_restart_buffer t) = miiPacketsOverran s"
proof -
  have u: "1504 \<le> up4 v" "up4 v \<le> 1528" using up4_small v by auto
  let ?t = "set_w b (- v) (s\<lparr>readPtr := (readPtr s)(0 := b + up4 v + 4)\<rparr>)"
  have g: "get_w ?t = (get_w s)(b := - v)"
    using v by (subst get_w_set_w) (auto simp: get_w_def)
  have loop: "advance_free (get_w ?t) b b = Some (b + up4 v + 4)"
    unfolding g using s v u by (simp add: advance_free_step bank_full_def algebra_simps)
  have "mii_free_in_buffer (b + 8) (s\<lparr>readPtr := (readPtr s)(0 := b + up4 v + 4)\<rparr>)
      = Some (?t\<lparr>freePtr := (freePtr s)(0 := b + up4 v + 4)\<rparr>)"
  proof -
    have "firstPtr ?t 0 = b" "firstPtr ?t 1 = b + 3040" "freePtr ?t = freePtr s" "freePtr s 0 = b"
      using s by (simp_all add: bank_full_def set_w_def)
    moreover have "get_w (s\<lparr>readPtr := (readPtr s)(0 := b + up4 v + 4)\<rparr>) b = v" "firstPtr s 1 = b + 3040"
      using s by (simp_all add: bank_full_def get_w_def)
    ultimately show ?thesis using loop by (simp add: mii_free_in_buffer_def Let_def)
  qed
  moreover have "bank_stuck b v (mii_restart_buffer (?t\<lparr>freePtr := (freePtr s)(0 := b + up4 v + 4)\<rparr>)) \<and>
      miiPacketsOverran (mii_restart_buffer (?t\<lparr>freePtr := (freePtr s)(0 := b + up4 v + 4)\<rparr>)) = miiPacketsOverran s"
    using s u by (simp add: bank_full_def bank_stuck_def mii_restart_buffer_def wrap_bank_def Let_def
        set_w_def get_w_def MAXPACKET_def algebra_simps)
  ultimately show ?thesis by blast
qed

lemma get_from_stuck:
  assumes s: "bank_stuck b v s" and v: "1501 \<le> v" "v \<le> 1528"
  shows "\<exists>t. get_from_bank s = (None, t) \<and> bank_stuck b v t"
proof -
  have u: "1504 \<le> up4 v" "up4 v \<le> 1528" using up4_small v by auto
  have "readBank s = 0 \<or> readBank s = 1" using s by (auto simp: bank_stuck_def)
  then show ?thesis
    using s u by (elim disjE) (auto simp: bank_stuck_def get_from_bank_def Let_def get_w_def)
qed

lemma bank_stuck_stays:
  assumes s: "bank_stuck b v s" and v: "1501 \<le> v" "v \<le> 1528"
  shows "mii_restart_buffer s = s" "fst (mii_get_in_buffer s) = (0, 0, 0)"
proof -
  have u: "1504 \<le> up4 v" "up4 v \<le> 1528" using up4_small v by auto
  show "mii_restart_buffer s = s"
    using s u by (simp add: bank_stuck_def mii_restart_buffer_def Let_def MAXPACKET_def)
  obtain t where t: "get_from_bank s = (None, t)" "bank_stuck b v t" using get_from_stuck [OF s v] by blast
  then show "fst (mii_get_in_buffer s) = (0, 0, 0)"
    using get_from_stuck [OF t(2) v] by (auto simp: mii_get_in_buffer_def)
qed

text \<open>C39: With 1520 words of buffer, the least that \<open>mii_client.h\<close> allows, one full frame stops the
receiver for good. Wherever the buffer lies and whatever the memory holds, if the first frame after
\<open>mii_buffer_init\<close> takes 1501 to 1528 bytes with its time stamp, it is committed, and the client gets
it and frees it; but from its end on no buffer is offered to the driver again: each further frame is
counted as overrun and changes nothing else, before and after the packet is freed,
\<open>mii_restart_buffer\<close> changes nothing after its first call, and the client gets no other packet.\<close>

theorem minimum_buffer_stops:
  assumes m: "\<And>x. b + 3040 \<le> x \<Longrightarrow> m x = lmem (mii_buffer_init b 1520 s) x" and b: "0 < b"
    and v: "1501 \<le> v" "v \<le> 1528" "sint (CRCBad m (b + 4) e) = v"
    and s1: "s1 = miiInterruptHandler e (mii_buffer_init b 1520 s\<lparr>lmem := m\<rparr>)"
    and s2: "s2 = fold miiInterruptHandler es s1"
  shows "s2 = s1\<lparr>miiPacketsOverran := int (length es)\<rparr> \<and>
    fst (mii_get_in_buffer s2) = (b + 8, v - 4, sint (m (b + 4))) \<and>
    (\<exists>s3 s4. mii_free_in_buffer (b + 8) (snd (mii_get_in_buffer s2)) = Some s3 \<and> s4 = mii_restart_buffer s3 \<and>
      (\<forall>es' s5. s5 = fold miiInterruptHandler es' s4 \<longrightarrow>
        nextBuffer s5 = - 1 \<and> miiPacketsOverran s5 = int (length es) + int (length es') \<and>
        s5 = s4\<lparr>miiPacketsOverran := miiPacketsOverran s5\<rparr> \<and>
        mii_restart_buffer s5 = s5 \<and> fst (mii_get_in_buffer s5) = (0, 0, 0)))"
proof -
  have f1: "bank_full b v (m (b + 4)) s1" "miiPacketsOverran s1 = 0"
    using first_packet_fills [OF m b v s1] by simp_all
  have e2: "s2 = s1\<lparr>miiPacketsOverran := int (length es)\<rparr>"
    using f1 overruns_only [of s1 es] by (simp add: s2 bank_full_def)
  then have f2: "bank_full b v (m (b + 4)) s2" using f1 by (simp add: bank_full_overrun)
  obtain s3 where s3: "mii_free_in_buffer (b + 8) (snd (mii_get_in_buffer s2)) = Some s3"
    "bank_stuck b v (mii_restart_buffer s3)" "miiPacketsOverran (mii_restart_buffer s3) = int (length es)"
    using bank_full_freed [OF f2 v(1,2)] bank_full_taken [OF f2 v(1,2)] e2 by auto
  define s4 where "s4 = mii_restart_buffer s3"
  have n4: "nextBuffer s4 = - 1" "miiPacketsOverran s4 = int (length es)" "bank_stuck b v s4"
    using s3(2,3) by (simp_all add: s4_def bank_stuck_def)
  have "nextBuffer s5 = - 1 \<and> miiPacketsOverran s5 = int (length es) + int (length es') \<and>
        s5 = s4\<lparr>miiPacketsOverran := miiPacketsOverran s5\<rparr> \<and>
        mii_restart_buffer s5 = s5 \<and> fst (mii_get_in_buffer s5) = (0, 0, 0)"
    if "s5 = fold miiInterruptHandler es' s4" for es' s5
  proof -
    have e5: "s5 = s4\<lparr>miiPacketsOverran := int (length es) + int (length es')\<rparr>"
      using overruns_only [OF n4(1), of es'] n4(2) that by simp
    then have "bank_stuck b v s5" using n4(3) by (simp add: bank_stuck_overrun)
    then show ?thesis using bank_stuck_stays [OF _ v(1,2), of b s5] e5 n4(1) by simp
  qed
  then have "\<forall>es' s5. s5 = fold miiInterruptHandler es' s4 \<longrightarrow>
      nextBuffer s5 = - 1 \<and> miiPacketsOverran s5 = int (length es) + int (length es') \<and>
      s5 = s4\<lparr>miiPacketsOverran := miiPacketsOverran s5\<rparr> \<and>
      mii_restart_buffer s5 = s5 \<and> fst (mii_get_in_buffer s5) = (0, 0, 0)"
    by blast
  with s3(1) s4_def show ?thesis
    unfolding bank_full_taken [OF f2 v(1,2)] fst_conv by (intro conjI e2 refl exI [of _ s3] exI [of _ s4])
qed

text \<open>A frame of 1516 bytes: with its time stamp 1520, in the buffer at address 4.\<close>

definition small_memory :: "addr \<Rightarrow> word32" where
  "small_memory = (lmem (mii_buffer_init 4 1520 (example_lite (\<lambda>_. 0))))
     (8 := 7, 1536 := 0, 1540 := - 1)"

lemma small_values:
  "sint (CRCBad small_memory 8 1528) = 1520"
  by (simp add: CRCBad_def small_memory_def)

theorem minimum_buffer_stops_witness:
  "\<exists>s3. mii_free_in_buffer 12 (snd (mii_get_in_buffer (miiInterruptHandler 1528
       (mii_buffer_init 4 1520 (example_lite (\<lambda>_. 0))\<lparr>lmem := small_memory\<rparr>)))) = Some s3 \<and>
    miiPacketsOverran (fold miiInterruptHandler [3116, 3116] (mii_restart_buffer s3)) = 2"
proof -
  have "small_memory x = lmem (mii_buffer_init 4 1520 (example_lite (\<lambda>_. 0))) x" if "4 + 3040 \<le> x" for x
    using that by (simp add: small_memory_def)
  then have "\<exists>s3 s4. mii_free_in_buffer (4 + 8) (snd (mii_get_in_buffer (miiInterruptHandler 1528
       (mii_buffer_init 4 1520 (example_lite (\<lambda>_. 0))\<lparr>lmem := small_memory\<rparr>)))) = Some s3 \<and>
      s4 = mii_restart_buffer s3 \<and> (\<forall>es' s5. s5 = fold miiInterruptHandler es' s4 \<longrightarrow> miiPacketsOverran s5 = int (length es'))"
    using minimum_buffer_stops [of 4 small_memory "example_lite (\<lambda>_. 0)" 1520 1528, OF _ _ _ _ _ refl, of _ "[]"]
      small_values by (auto; blast)
  moreover have "int (length [3116 :: int, 3116]) = 2" "(4 :: int) + 8 = 12" by simp_all
  ultimately show ?thesis by metis
qed

text \<open>
  Two packets of 1530 bytes in the first bank, with a packet of 100 bytes in the second in between:
  the mark behind the second packet overwrites the header of the packet in the second bank.
\<close>

definition full_start :: miiData where
  "full_start = miiCommitBuffer 3080 100 (miiCommitBuffer 8 1530 (mii_buffer_init 4 1536 (example_lite (\<lambda>_. 0))))"

lemma full_packet_overwrites:
  "wrPtr full_start 0 = 1544" "wrPtr full_start 0 \<le> lastSafePtr full_start 0" "nextBuffer full_start = wrPtr full_start 1"
  "get_w full_start (firstPtr full_start 1) = 100"
  "get_w (miiCommitBuffer 1544 1530 full_start) (firstPtr full_start 1) = 1"
  by code_simp+

end
