(* ===== verification/Tx_Client.thy ===== *)
theory Tx_Client
  imports Rx_Client Mii_Tx_Pins
begin

text \<open>
  The client side of the transmit interface, \<open>ethernet_tx_client.xc\<close>. A call sends a command word
  and then, in a transaction, what the command needs; \<open>tx_request\<close> is what a call puts on the
  channel, with whether it then waits for the time at which the frame was sent.
\<close>

record tx_request =
  req_cmd :: ethernet_protocol_t
  req_items :: "chan_item list"
  req_waits :: bool

text \<open>A tagged frame, one whose Ethernet type is 0x8100, goes to the high priority queue.\<close>

fun ethernet_choose_hp_cmd :: "word16 \<Rightarrow> ethernet_protocol_t \<Rightarrow> ethernet_protocol_t" where
  "ethernet_choose_hp_cmd etype Cmd =
     (if etype = 0x0081 then
        (case Cmd of
           ETHERNET_TX_REQ \<Rightarrow> ETHERNET_TX_REQ_HP
         | ETHERNET_TX_REQ_TIMED \<Rightarrow> ETHERNET_TX_REQ_TIMED_HP
         | ETHERNET_TX_REQ_OFFSET2 \<Rightarrow> ETHERNET_TX_REQ_OFFSET2_HP
         | _ \<Rightarrow> Cmd)
      else Cmd)"

definition ethernet_send_frame_unify ::
  "mac_config \<Rightarrow> word32 list \<Rightarrow> word32 \<Rightarrow> ethernet_protocol_t \<Rightarrow> word32 \<Rightarrow> tx_request" where
  "ethernet_send_frame_unify c Buf cnt Cmd ifnum =
     (let Cmd = (if tx_hp_queue c then ethernet_choose_hp_cmd (ucast (Buf ! 3)) Cmd else Cmd)
      in \<lparr>req_cmd = Cmd,
          req_items = [Word_item cnt, Word_item ifnum] @ map (\<lambda>i. Word_item (Buf ! i)) [0..<word_count cnt],
          req_waits = (Cmd = ETHERNET_TX_REQ_TIMED \<or> Cmd = ETHERNET_TX_REQ_TIMED_HP)\<rparr>)"

definition mac_tx_full :: "mac_config \<Rightarrow> word32 list \<Rightarrow> word32 \<Rightarrow> word32 \<Rightarrow> tx_request" where
  "mac_tx_full c Buf cnt ifnum = ethernet_send_frame_unify c Buf cnt ETHERNET_TX_REQ ifnum"

definition mac_tx_timed :: "mac_config \<Rightarrow> word32 list \<Rightarrow> word32 \<Rightarrow> word32 \<Rightarrow> tx_request" where
  "mac_tx_timed c Buf cnt ifnum = ethernet_send_frame_unify c Buf cnt ETHERNET_TX_REQ_TIMED ifnum"

text \<open>The frame starts two bytes into the buffer.\<close>

definition mac_tx_offset2 :: "mac_config \<Rightarrow> word32 list \<Rightarrow> word32 \<Rightarrow> word32 \<Rightarrow> tx_request" where
  "mac_tx_offset2 c Buf cnt ifnum =
     (let Cmd = (if tx_hp_queue c
                 then ethernet_choose_hp_cmd (ucast (drop_bit 16 (Buf ! 3))) ETHERNET_TX_REQ_OFFSET2
                 else ETHERNET_TX_REQ_OFFSET2)
      in \<lparr>req_cmd = Cmd,
          req_items = [Word_item cnt, Word_item ifnum]
            @ map (\<lambda>i. Word_item (byterev (Buf ! i))) [0..<nat ((sint cnt + 7) div 4)],
          req_waits = False\<rparr>)"

text \<open>The address comes back in a transaction of six bytes.\<close>

definition mac_get_macaddr_full :: "tx_request" where
  "mac_get_macaddr_full = \<lparr>req_cmd = ETHERNET_GET_MAC_ADRS, req_items = [], req_waits = False\<rparr>"

definition macaddr_reply :: "byte list \<Rightarrow> byte list" where
  "macaddr_reply bs = map (\<lambda>i. bs ! i) [0..<6]"

definition mac_1722_router_enable_forwarding :: "word32 \<Rightarrow> word32 \<Rightarrow> tx_request" where
  "mac_1722_router_enable_forwarding key0 key1 =
     \<lparr>req_cmd = ETHERNET_TX_UPDATE_AVB_FORWARDING,
      req_items = map Word_item [key0, key1, word_of_int ETHERNET_AVB_ENABLE_FORWARDING], req_waits = False\<rparr>"

definition mac_1722_router_disable_forwarding :: "word32 \<Rightarrow> word32 \<Rightarrow> tx_request" where
  "mac_1722_router_disable_forwarding key0 key1 =
     \<lparr>req_cmd = ETHERNET_TX_UPDATE_AVB_FORWARDING,
      req_items = map Word_item [key0, key1, word_of_int ETHERNET_AVB_DISABLE_FORWARDING], req_waits = False\<rparr>"

definition mac_1722_update_router :: "word32 \<Rightarrow> word32 \<Rightarrow> word32 \<Rightarrow> word32 \<Rightarrow> word32 \<Rightarrow> tx_request" where
  "mac_1722_update_router remove_entry key0 key1 link hash =
     \<lparr>req_cmd = ETHERNET_TX_UPDATE_AVB_ROUTER,
      req_items = map Word_item [remove_entry, key0, key1, link, hash], req_waits = False\<rparr>"

definition mac_initialize_routing_table :: tx_request where
  "mac_initialize_routing_table =
     \<lparr>req_cmd = ETHERNET_TX_INIT_AVB_ROUTER, req_items = [], req_waits = False\<rparr>"

text \<open>Nothing is sent in builds without the traffic shaper.\<close>

definition mac_set_qav_bandwidth ::
  "mac_config \<Rightarrow> word32 \<Rightarrow> word32 \<Rightarrow> tx_request option" where
  "mac_set_qav_bandwidth c port_num bps =
     (if tx_hp_queue c \<and> traffic_shaper c then
        Some \<lparr>req_cmd = ETHERNET_TX_SET_QAV_IDLE_SLOPE,
              req_items = map Word_item [port_num, mac_calc_idle_slope bps], req_waits = False\<rparr>
      else None)"

text \<open>
  The notification of a link change that a client of the older protocol waits for: the link, the
  status and a byte that is not used, then the end token.
\<close>

definition mac_check_link_client :: "byte list \<Rightarrow> byte \<times> byte" where
  "mac_check_link_client bs = (bs ! 0, bs ! 1)"

end
