(* ===== verification/Tx_Server.thy ===== *)
theory Tx_Server
  imports Tx_Client
begin

text \<open>
  The transmit server \<open>ethernet_tx_server.xc\<close>. A client's request to send is noted and, when every
  port's pool has room, its frame is written into the pools of all ports and committed in
  those it is for. One turn of the loop goes through the noted requests, then takes one event, then
  returns the times of the frames that were sent. What a client has ready on its channel is a list
  of bytes.
\<close>

definition ETHERNET_TX_PHY_TIMER_OFFSET :: word32 where
  "ETHERNET_TX_PHY_TIMER_OFFSET = 48"

definition MAX_LINKS :: nat where
  "MAX_LINKS = 10"

definition LINK_POLL_PERIOD :: int where
  "LINK_POLL_PERIOD = 10000000"

text \<open>
  The pools of the ports, the address, whether \<open>ENABLE_ETHERNET_SOURCE_ADDRESS_WRITE\<close> and
  \<open>AVB_MAC\<close> are defined, and the number of clients.
\<close>

record tx_server_args =
  tx_mem_hp_of :: "addr list"
  tx_mem_lp_of :: "addr list"
  tx_mac_addr :: "byte list"
  source_address_write :: bool
  avb_mac :: bool
  num_tx :: nat

record tx_server =
  tx_enabled :: "bool list"
  pendingCmd :: "ethernet_protocol_t option list"
  idle_slopes :: "nat \<Rightarrow> word32"
  linkCheckTime :: int

subsection \<open>The frame of a request\<close>

text \<open>The arrays of the loop: a port's buffer and its data pointer, and whether every port has one.\<close>

record tx_work =
  w_ram :: ram
  w_buf :: "nat \<Rightarrow> addr"
  w_dptr :: "nat \<Rightarrow> addr"
  w_ok :: bool

text \<open>One word goes to every port.\<close>

definition store_datum :: "(nat \<Rightarrow> addr) \<Rightarrow> word32 \<Rightarrow> nat \<Rightarrow> tx_work \<Rightarrow> tx_work" where
  "store_datum wrap_ptr datum p w =
     (let s = stw (w_ram w) (w_dptr w p) datum
      in w\<lparr>w_ram := s, w_dptr := (w_dptr w)(p := wrap_dptr s (wrap_ptr p) (w_dptr w p + 4))\<rparr>)"

fun get_data :: "nat \<Rightarrow> (nat \<Rightarrow> addr) \<Rightarrow> bool \<Rightarrow> nat \<Rightarrow> tx_work \<Rightarrow> byte list \<Rightarrow> tx_work \<times> byte list" where
  "get_data ports wrap_ptr offset2 0 w bs = (w, bs)"
| "get_data ports wrap_ptr offset2 (Suc j) w bs =
     (let (datum, bs) = input_word bs;
          datum = (if offset2 then byterev datum else datum)
      in get_data ports wrap_ptr offset2 j (fold (store_datum wrap_ptr datum) [0..<ports] w) bs)"

definition get_packet_from_client ::
  "nat \<Rightarrow> ethernet_protocol_t \<Rightarrow> (nat \<Rightarrow> addr) \<Rightarrow> tx_work \<Rightarrow> byte list \<Rightarrow> word32 \<times> word32 \<times> tx_work \<times> byte list" where
  "get_packet_from_client ports cmd wrap_ptr w bs =
     (let (len, bs) = input_word bs;
          (dst_port, bs) = input_word bs;
          offset2 = (cmd = ETHERNET_TX_REQ_OFFSET2);
          (w, bs) = get_data ports wrap_ptr offset2 (word_count len) w (if offset2 then drop 2 bs else bs)
      in (len, dst_port, w, if offset2 then drop 2 bs else bs))"

text \<open>A request and whether it is for the high priority queue; \<open>None\<close> is any other command.\<close>

definition tx_request_kind :: "mac_config \<Rightarrow> ethernet_protocol_t \<Rightarrow> (ethernet_protocol_t \<times> bool) option" where
  "tx_request_kind c cmd =
     (case cmd of
        ETHERNET_TX_REQ \<Rightarrow> Some (cmd, False)
      | ETHERNET_TX_REQ_OFFSET2 \<Rightarrow> Some (cmd, False)
      | ETHERNET_TX_REQ_TIMED \<Rightarrow> Some (cmd, False)
      | ETHERNET_TX_REQ_HP \<Rightarrow> if tx_hp_queue c then Some (ETHERNET_TX_REQ, True) else None
      | ETHERNET_TX_REQ_OFFSET2_HP \<Rightarrow> if tx_hp_queue c then Some (ETHERNET_TX_REQ_OFFSET2, True) else None
      | ETHERNET_TX_REQ_TIMED_HP \<Rightarrow> if tx_hp_queue c then Some (ETHERNET_TX_REQ_TIMED, True) else None
      | _ \<Rightarrow> None)"

definition tx_pool :: "tx_server_args \<Rightarrow> bool \<Rightarrow> nat \<Rightarrow> addr" where
  "tx_pool a hp p = (if hp then tx_mem_hp_of a ! p else tx_mem_lp_of a ! p)"

definition full_packet_size :: "mac_config \<Rightarrow> bool \<Rightarrow> int" where
  "full_packet_size c hp =
     (if hp then MII_MALLOC_FULL_PACKET_SIZE_HP c else MII_MALLOC_FULL_PACKET_SIZE_LP c)"

definition reserve_port :: "mac_config \<Rightarrow> tx_server_args \<Rightarrow> bool \<Rightarrow> nat \<Rightarrow> tx_work \<Rightarrow> tx_work" where
  "reserve_port c a hp p w =
     (let (buf, s) = mii_reserve_at_least c (w_ram w) (tx_pool a hp p) (full_packet_size c hp);
          w = w\<lparr>w_ram := s, w_buf := (w_buf w)(p := buf)\<rparr>
      in if buf = 0 then w\<lparr>w_ok := False\<rparr>
         else w\<lparr>w_dptr := (w_dptr w)(p := mii_packet_get_data_ptr buf)\<rparr>)"

text \<open>Client \<open>i\<close>'s frame of \<open>len\<close> bytes for \<open>dst_port\<close>, on port \<open>p\<close>.\<close>

definition commit_port ::
  "mac_config \<Rightarrow> tx_server_args \<Rightarrow> nat \<Rightarrow> bool \<Rightarrow> word32 \<Rightarrow> word32 \<Rightarrow> nat \<Rightarrow> tx_work \<Rightarrow> tx_work" where
  "commit_port c a i timed len dst_port p w =
     (if of_nat p = dst_port \<or> dst_port = word_of_int ETH_BROADCAST then
        let buf = w_buf w p;
            s = mii_packet_set_length (w_ram w) buf len;
            s = (if source_address_write a
                 then fold (\<lambda>j s. mii_packet_set_data_byte s buf (6 + int j) (ucast (tx_mac_addr a ! j))) [0..<6] s
                 else s);
            s = mii_packet_set_timestamp_id s buf (if timed then of_nat (i + 1) else 0);
            s = snd (mii_commit c s buf (w_dptr w p));
            s = mii_packet_set_tcount s buf 0;
            s = mii_packet_set_stage s buf 1
        in w\<lparr>w_ram := s\<rparr>
      else w)"

text \<open>
  A noted request of client \<open>i\<close>, whose channel holds \<open>bs\<close>; the result says whether the transaction
  took place. \<open>w\<close> holds the arrays with what earlier requests left in them.
\<close>

definition serve_request ::
  "mac_config \<Rightarrow> tx_server_args \<Rightarrow> nat \<Rightarrow> byte list \<Rightarrow> tx_server \<times> tx_work \<Rightarrow> (tx_server \<times> tx_work) \<times> bool" where
  "serve_request c a i bs = (\<lambda>(v, w).
     (case Option.bind (pendingCmd v ! i) (tx_request_kind c) of
        None \<Rightarrow> ((v, w), False)
      | Some (cmd, hp) \<Rightarrow>
          let wrap_ptr = (\<lambda>p. mii_get_wrap_ptr (w_ram w) (tx_pool a hp p));
              w = fold (reserve_port c a hp) [0..<num_ports c] (w\<lparr>w_ok := True\<rparr>)
          in if w_ok w then
               let (len, dst_port, w, rest) = get_packet_from_client (num_ports c) cmd wrap_ptr w bs;
                   w = fold (commit_port c a i (cmd = ETHERNET_TX_REQ_TIMED) len dst_port) [0..<num_ports c] w
               in ((v\<lparr>tx_enabled := (tx_enabled v)[i := False], pendingCmd := (pendingCmd v)[i := None]\<rparr>, w), True)
             else ((v, w), False)))"

definition serve_requests ::
  "mac_config \<Rightarrow> tx_server_args \<Rightarrow> (nat \<Rightarrow> byte list) \<Rightarrow> tx_server \<times> tx_work \<Rightarrow> tx_server \<times> tx_work" where
  "serve_requests c a data x = fold (\<lambda>i x. fst (serve_request c a i (data i) x)) [0..<num_tx a] x"

subsection \<open>Events\<close>

text \<open>
  The AVB routing table is kept by code outside the repository: its operations and its state are
  parameters.
\<close>

record 'r avb_router =
  router_add :: "word32 \<Rightarrow> word32 \<Rightarrow> word32 \<Rightarrow> word32 \<Rightarrow> 'r \<Rightarrow> 'r"
  router_remove :: "word32 \<Rightarrow> word32 \<Rightarrow> 'r \<Rightarrow> 'r"
  router_forwarding :: "word32 \<Rightarrow> word32 \<Rightarrow> word32 \<Rightarrow> 'r \<Rightarrow> 'r"
  router_init :: "'r \<Rightarrow> 'r"

definition get_and_update_avb_router :: "'r avb_router \<Rightarrow> byte list \<Rightarrow> 'r \<Rightarrow> 'r" where
  "get_and_update_avb_router ops bs r =
     (let (remove_entry, bs) = input_word bs; (key0, bs) = input_word bs; (key1, bs) = input_word bs;
          (link, bs) = input_word bs; (hash, bs) = input_word bs
      in if remove_entry = 0 then router_add ops key0 key1 link hash r
         else router_remove ops key0 key1 r)"

definition get_and_update_avb_forwarding :: "'r avb_router \<Rightarrow> byte list \<Rightarrow> 'r \<Rightarrow> 'r" where
  "get_and_update_avb_forwarding ops bs r =
     (let (key0, bs) = input_word bs; (key1, bs) = input_word bs; (forward_bool, bs) = input_word bs
      in router_forwarding ops key0 key1 forward_bool r)"

definition get_and_update_qav_idle_slope :: "byte list \<Rightarrow> tx_server \<Rightarrow> tx_server" where
  "get_and_update_qav_idle_slope bs v =
     (let (port_num, bs) = input_word bs; (slope, bs) = input_word bs
      in v\<lparr>idle_slopes := (idle_slopes v)(unat port_num := slope)\<rparr>)"

text \<open>A command of client \<open>i\<close>, with what follows it on the channel and what is sent back.\<close>

definition tx_command ::
  "mac_config \<Rightarrow> tx_server_args \<Rightarrow> 'r avb_router \<Rightarrow> nat \<Rightarrow> ethernet_protocol_t \<Rightarrow> byte list \<Rightarrow>
     tx_server \<times> 'r \<Rightarrow> (tx_server \<times> 'r) \<times> outputs" where
  "tx_command c a ops i cmd bs = (\<lambda>(v, r).
     (if tx_request_kind c cmd \<noteq> None then ((v\<lparr>pendingCmd := (pendingCmd v)[i := Some cmd]\<rparr>, r), [])
      else
        case cmd of
          ETHERNET_GET_MAC_ADRS \<Rightarrow> ((v, r), [(i, Slave (map (\<lambda>j. Char_item (tx_mac_addr a ! j)) [0..<6]))])
        | ETHERNET_TX_UPDATE_AVB_ROUTER \<Rightarrow>
            ((v, if avb_mac a then get_and_update_avb_router ops bs r else r), [])
        | ETHERNET_TX_UPDATE_AVB_FORWARDING \<Rightarrow>
            ((v, if avb_mac a then get_and_update_avb_forwarding ops bs r else r), [])
        | ETHERNET_TX_INIT_AVB_ROUTER \<Rightarrow> ((v, if avb_mac a then router_init ops r else r), [])
        | ETHERNET_TX_SET_QAV_IDLE_SLOPE \<Rightarrow>
            ((if tx_hp_queue c \<and> traffic_shaper c then get_and_update_qav_idle_slope bs v else v, r), [])
        | _ \<Rightarrow> ((v, r), [])))"

text \<open>The link check: \<open>None\<close> is a PHY that is not there.\<close>

definition do_link_check :: "int option \<Rightarrow> nat \<Rightarrow> link_status_t \<Rightarrow> link_status_t" where
  "do_link_check status linkNum links =
     (case status of None \<Rightarrow> links | Some new_status \<Rightarrow> ethernet_update_link_status linkNum new_status links)"

datatype tx_event =
    Tx_link_check "int option" "int option"
  | Tx_client nat ethernet_protocol_t "byte list"
  | Tx_default

definition tx_select ::
  "mac_config \<Rightarrow> tx_server_args \<Rightarrow> 'r avb_router \<Rightarrow> tx_event \<Rightarrow> tx_server \<times> 'r \<Rightarrow> link_status_t \<Rightarrow>
     (tx_server \<times> 'r) \<times> link_status_t \<times> outputs" where
  "tx_select c a ops e x links =
     (case e of
        Tx_link_check s1 s2 \<Rightarrow>
          ((\<lambda>(v, r). (v\<lparr>linkCheckTime := linkCheckTime v + LINK_POLL_PERIOD\<rparr>, r)) x,
           do_link_check s2 1 (do_link_check s1 0 links), [])
      | Tx_client i cmd bs \<Rightarrow> (let (x, outs) = tx_command c a ops i cmd bs x in (x, links, outs))
      | Tx_default \<Rightarrow>
          ((\<lambda>(v, r). (v\<lparr>tx_enabled := fold (\<lambda>i e. e[i := True]) [0..<num_tx a] (tx_enabled v)\<rparr>, r)) x, links, []))"

subsection \<open>Times of sent frames\<close>

text \<open>
  The first entry of a port's queue: its time goes to the client whose number is in the packet,
  and the packet is freed.
\<close>

definition reply_timestamp ::
  "mac_config \<Rightarrow> mii_ts_queue_t \<Rightarrow> ram \<Rightarrow> (mii_ts_queue_t \<times> ram \<times> outputs) option" where
  "reply_timestamp c tsq s =
     (let (buf, tsq) = get_ts_queue_entry c tsq
      in if buf = 0 then Some (tsq, s, [])
         else
           let i = unat (mii_packet_get_timestamp_id s buf);
               ts = mii_packet_get_timestamp s buf;
               out = (i - 1, chan_out.Out_word (ts + ETHERNET_TX_PHY_TIMER_OFFSET));
               (remaining, s) = get_and_dec_transmit_count s buf
           in map_option (\<lambda>s. (tsq, s, [out])) (if remaining = 0 then mii_free s buf else Some s))"

fun reply_timestamps ::
  "mac_config \<Rightarrow> nat list \<Rightarrow> mii_ts_queue_t list \<Rightarrow> ram \<Rightarrow> (mii_ts_queue_t list \<times> ram \<times> outputs) option" where
  "reply_timestamps c [] tsqs s = Some (tsqs, s, [])"
| "reply_timestamps c (p # ps) tsqs s =
     (case reply_timestamp c (tsqs ! p) s of
        None \<Rightarrow> None
      | Some (q, s, o1) \<Rightarrow>
          map_option (\<lambda>(tsqs, s, o2). (tsqs, s, o1 @ o2)) (reply_timestamps c ps (tsqs[p := q]) s))"

subsection \<open>The loop\<close>

text \<open>At the start no request is noted and the slopes of the ports are 11 in fixed point.\<close>

definition tx_server_init :: "mac_config \<Rightarrow> nat \<Rightarrow> int \<Rightarrow> tx_server \<Rightarrow> tx_server" where
  "tx_server_init c n now v =
     v\<lparr>pendingCmd := replicate MAX_LINKS None, linkCheckTime := now + LINK_POLL_PERIOD,
       idle_slopes := (if tx_hp_queue c \<and> traffic_shaper c
         then (\<lambda>i. if i < num_ports c then push_bit MII_CREDIT_FRACTIONAL_BITS 11 else idle_slopes v i)
         else idle_slopes v),
       tx_enabled := fold (\<lambda>i e. e[i := True]) [0..<n] (tx_enabled v)\<rparr>"

definition tx_server_turn ::
  "mac_config \<Rightarrow> tx_server_args \<Rightarrow> 'r avb_router \<Rightarrow> (nat \<Rightarrow> byte list) \<Rightarrow> tx_event \<Rightarrow>
     tx_server \<times> tx_work \<Rightarrow> 'r \<Rightarrow> link_status_t \<Rightarrow> mii_ts_queue_t list \<Rightarrow>
     ((tx_server \<times> tx_work) \<times> 'r \<times> link_status_t \<times> mii_ts_queue_t list \<times> outputs) option" where
  "tx_server_turn c a ops data e x r links tsqs =
     (let (v, w) = serve_requests c a data x;
          ((v, r), links, o1) = tx_select c a ops e (v, r) links
      in map_option (\<lambda>(tsqs, s, o2). ((v, w\<lparr>w_ram := s\<rparr>), r, links, tsqs, o1 @ o2))
           (reply_timestamps c [0..<num_master_ports c] tsqs (w_ram w)))"

end
