(* ===== verification/Tx_Ports.thy ===== *)
theory Tx_Ports
  imports Tx_Server Rx_System
begin

text \<open>
  The frames that the transmit server writes, port by port. The pools of the ports lie apart, so what
  a step does to one port leaves the others as they are (\<open>touches\<close>, \<open>same_port\<close>); a loop over
  the ports then takes each of them from its own precondition to its own result (\<open>fold_ports\<close>).
\<close>

subsection \<open>Ports apart\<close>

definition port_span :: "ram \<Rightarrow> addr \<Rightarrow> addr set" where
  "port_span s mp = {pool_start (pools s mp)..pool_end (pools s mp)}"

definition same_port :: "addr \<Rightarrow> ram \<Rightarrow> ram \<Rightarrow> bool" where
  "same_port mp s s' \<longleftrightarrow> pools s' mp = pools s mp \<and> (\<forall>a \<in> port_span s mp. ldw s' a = ldw s a)"

definition touches :: "addr \<Rightarrow> ram \<Rightarrow> ram \<Rightarrow> bool" where
  "touches mp s s' \<longleftrightarrow>
     port_span s' mp = port_span s mp \<and> (\<forall>m. m \<noteq> mp \<longrightarrow> pools s' m = pools s m) \<and>
     (\<forall>a. a \<notin> port_span s mp \<longrightarrow> ldw s' a = ldw s a)"

definition ports_apart :: "nat \<Rightarrow> (nat \<Rightarrow> addr) \<Rightarrow> ram \<Rightarrow> bool" where
  "ports_apart n mps s \<longleftrightarrow>
     (\<forall>p < n. \<forall>q < n. p \<noteq> q \<longrightarrow> mps p \<noteq> mps q \<and> port_span s (mps p) \<inter> port_span s (mps q) = {})"

lemma touches_refl [simp]: "touches mp s s"
  by (simp add: touches_def)

lemma touches_trans: "touches mp s s' \<Longrightarrow> touches mp s' s'' \<Longrightarrow> touches mp s s''"
  by (simp add: touches_def)

lemma touches_same_port:
  assumes "ports_apart n mps s" "p < n" "q < n" "p \<noteq> q" "touches (mps p) s s'"
  shows "same_port (mps q) s s'"
proof -
  have d: "mps p \<noteq> mps q" "port_span s (mps p) \<inter> port_span s (mps q) = {}"
    using assms(1-4) by (auto simp: ports_apart_def)
  then have "ldw s' a = ldw s a" if "a \<in> port_span s (mps q)" for a
    using assms(5) that by (auto simp: touches_def)
  then show ?thesis using assms(5) d(1) by (simp add: same_port_def touches_def)
qed

lemma touches_span: "touches mp s s' \<Longrightarrow> port_span s' m = port_span s m"
  by (cases "m = mp") (simp_all add: touches_def port_span_def)

lemma touches_apart: "touches mp s s' \<Longrightarrow> ports_apart n mps s' = ports_apart n mps s"
  using touches_span [of mp s s'] by (simp add: ports_apart_def)

text \<open>A loop over the ports.\<close>

lemma fold_ports:
  assumes apart: "ports_apart n mps (w_ram w)"
    and start: "\<And>p. p < n \<Longrightarrow> A p (w_ram w) (w_buf w p) (w_dptr w p)"
    and step: "\<And>p w. p < n \<Longrightarrow> A p (w_ram w) (w_buf w p) (w_dptr w p) \<Longrightarrow>
      B p (w_ram (f p w)) (w_buf (f p w) p) (w_dptr (f p w) p) \<and> touches (mps p) (w_ram w) (w_ram (f p w))"
    and arrays: "\<And>p q w. q \<noteq> p \<Longrightarrow> w_buf (f p w) q = w_buf w q \<and> w_dptr (f p w) q = w_dptr w q"
    and congA: "\<And>p s s' b d. A p s b d \<Longrightarrow> same_port (mps p) s s' \<Longrightarrow> A p s' b d"
    and congB: "\<And>p s s' b d. B p s b d \<Longrightarrow> same_port (mps p) s s' \<Longrightarrow> B p s' b d"
  shows "ports_apart n mps (w_ram (fold f [0..<n] w)) \<and>
    (\<forall>p < n. B p (w_ram (fold f [0..<n] w)) (w_buf (fold f [0..<n] w) p) (w_dptr (fold f [0..<n] w) p))"
proof -
  define C where "C m p = (if p < m then B p else A p)" for m p :: nat
  have "m \<le> n \<Longrightarrow> ports_apart n mps (w_ram (fold f [0..<m] w)) \<and>
    (\<forall>p < n. C m p (w_ram (fold f [0..<m] w)) (w_buf (fold f [0..<m] w) p) (w_dptr (fold f [0..<m] w) p))" for m
  proof (induction m)
    case 0
    then show ?case using apart start by (simp add: C_def)
  next
    case (Suc m)
    let ?w = "fold f [0..<m] w"
    have IH: "ports_apart n mps (w_ram ?w)" "\<And>p. p < n \<Longrightarrow> C m p (w_ram ?w) (w_buf ?w p) (w_dptr ?w p)"
      and m: "m < n" using Suc by auto
    have s: "B m (w_ram (f m ?w)) (w_buf (f m ?w) m) (w_dptr (f m ?w) m)"
      "touches (mps m) (w_ram ?w) (w_ram (f m ?w))"
      using step [OF m, of ?w] IH(2) [OF m] by (simp_all add: C_def)
    have "C (Suc m) p (w_ram (f m ?w)) (w_buf (f m ?w) p) (w_dptr (f m ?w) p)" if p: "p < n" for p
    proof (cases "p = m")
      case True
      then show ?thesis using s(1) by (simp add: C_def)
    next
      case False
      note sp = touches_same_port [OF IH(1) m p False [symmetric] s(2)]
      have "C (Suc m) p = C m p" using False by (simp add: C_def less_Suc_eq fun_eq_iff)
      then show ?thesis
        using IH(2) [OF p] congA [OF _ sp] congB [OF _ sp] arrays [OF False] by (auto simp: C_def)
    qed
    then show ?case using touches_apart [OF s(2)] IH(1) by simp
  qed
  from this [of n] show ?thesis by (simp add: C_def)
qed

lemma pool_inv_same_port:
  assumes inv: "pool_inv s mp q" and e: "same_port mp s s'"
  shows "pool_inv s' mp q"
proof -
  note wf = pool_inv_wf [OF inv]
  have l: "ldw s' a = ldw s a" if "pool_start (pools s mp) \<le> a" "a \<le> pool_end (pools s mp)" for a
    using e that by (simp add: same_port_def port_span_def)
  have "pool_wf s' mp q"
  proof (rule pool_wf_frame [OF wf])
    show "pools s' mp = pools s mp" using e by (simp add: same_port_def)
    show "ldw s' (pool_end (pools s mp)) = ldw s (pool_end (pools s mp))"
      using pool_wf_shape [OF wf] by (intro l) (auto simp: pool_shape_def)
    show "ldw s' h = ldw s h \<and> ldw s' (h + 4) = ldw s (h + 4)" if "h \<in> fst ` set q" for h
      using pool_wf_slot [OF wf that] by (auto simp: slot_ok_def intro!: l)
  qed
  then show ?thesis using inv by (simp add: pool_inv_def)
qed

lemma rx_reserved_same_port:
  assumes inv: "pool_inv s mp q" and r: "rx_reserved s mp buf" and e: "same_port mp s s'"
  shows "rx_reserved s' mp buf"
proof -
  have "ldw s' (wrptr (pools s mp) + 4) = ldw s (wrptr (pools s mp) + 4)"
    using e pool_wf_wr_slot [OF pool_inv_wf [OF inv]] by (auto simp: same_port_def port_span_def slot_ok_def)
  then show ?thesis using r e by (simp add: rx_reserved_def hdr_info_def same_port_def)
qed

subsection \<open>One port while its frame is written\<close>

text \<open>
  The frame has \<open>length ws\<close> words, of which \<open>k\<close> are written; the space that was reserved is larger
  than the frame, and far enough from the end of the pool when the pool starts at its beginning.
\<close>

definition port_filling :: "ram \<Rightarrow> addr \<Rightarrow> pool_queue \<Rightarrow> word32 list \<Rightarrow> nat \<Rightarrow> addr \<Rightarrow> addr \<Rightarrow> bool" where
  "port_filling s mp q ws k buf d \<longleftrightarrow>
     pool_inv s mp q \<and> rx_reserved s mp buf \<and> 48 + 4 * int (length ws) < free_bytes (pools s mp) \<and>
     (rdptr (pools s mp) = pool_start (pools s mp) \<longrightarrow> 48 + 4 * int (length ws) + 88 \<le> free_bytes (pools s mp)) \<and>
     k \<le> length ws \<and> d = data_addr (pools s mp) buf k \<and>
     (\<forall>j < k. ldw s (data_addr (pools s mp) buf j) = ws ! j)"

lemma port_filling_room:
  "port_filling s mp q ws k buf d \<Longrightarrow> packet_room s mp (wrptr (pools s mp)) (length ws)"
  using wr_packet_room [OF pool_inv_wf] by (auto simp: port_filling_def)

lemma port_filling_same:
  assumes f: "port_filling s mp q ws k buf d" and e: "same_port mp s s'"
  shows "port_filling s' mp q ws k buf d"
proof -
  have i: "pool_inv s mp q" and r: "rx_reserved s mp buf" and k: "k \<le> length ws"
    using f by (simp_all add: port_filling_def)
  have "ldw s' (data_addr (pools s mp) buf j) = ldw s (data_addr (pools s mp) buf j)" if "j < k" for j
    using data_addr_range [OF port_filling_room [OF f], of j] that k e r
    by (auto simp: same_port_def port_span_def rx_reserved_def)
  then show ?thesis
    using f pool_inv_same_port [OF i e] rx_reserved_same_port [OF i r e] e
    by (simp add: port_filling_def same_port_def)
qed

lemma store_datum_fields:
  "w_buf (store_datum wrap_ptr x p w) = w_buf w"
  "r \<noteq> p \<Longrightarrow> w_dptr (store_datum wrap_ptr x p w) r = w_dptr w r"
  "w_ok (store_datum wrap_ptr x p w) = w_ok w"
  by (simp_all add: store_datum_def Let_def)

lemma store_datum_step:
  assumes f: "port_filling (w_ram w) mp q ws k buf (w_dptr w p)" and k: "k < length ws"
    and wrap: "wrap_ptr p = pool_end (pools (w_ram w) mp)"
  shows "port_filling (w_ram (store_datum wrap_ptr (ws ! k) p w)) mp q ws (Suc k) buf
      (w_dptr (store_datum wrap_ptr (ws ! k) p w) p) \<and>
    touches mp (w_ram w) (w_ram (store_datum wrap_ptr (ws ! k) p w))"
proof -
  let ?s = "w_ram w" and ?i = "pools (w_ram w) mp" and ?h = "wrptr (pools (w_ram w) mp)"
  let ?d = "data_addr ?i buf k" and ?t = "stw (w_ram w) (data_addr (pools (w_ram w) mp) buf k) (ws ! k)"
  note room = port_filling_room [OF f]
  have inv: "pool_inv ?s mp q" and buf: "buf = buf_of_hdr ?h" and r: "rx_reserved ?s mp buf"
    and d: "w_dptr w p = ?d" and fr: "48 + 4 * int (length ws) < free_bytes ?i"
    using f by (auto simp: port_filling_def rx_reserved_def)
  have D: "pool_start ?i \<le> ?d" "?d < pool_end ?i" using data_addr_range [OF room, of k] k buf by auto
  have e: "w_ram (store_datum wrap_ptr (ws ! k) p w) = ?t"
    "w_dptr (store_datum wrap_ptr (ws ! k) p w) p = wrap_dptr ?t (pool_end ?i) (?d + 4)"
    by (simp_all add: store_datum_def Let_def d wrap)
  have t: "pool_inv ?t mp q" using data_store_pool_inv [OF inv, of k] fr k by (simp add: buf)
  have wr: "ldw ?t (pool_end ?i) = word_of_int (pool_start ?i)"
    using D room by (simp add: packet_room_def Let_def)
  have "wrap_dptr ?t (pool_end ?i) (?d + 4) = data_addr ?i buf (Suc k)"
    using data_addr_Suc [OF room _ wr] k by (simp add: buf)
  moreover have "rx_reserved ?t mp buf"
    using r header_addr_apart(3) [OF room k] by (simp add: rx_reserved_def hdr_info_def buf)
  moreover have "ldw ?t (data_addr ?i buf j) = ws ! j" if j: "j < Suc k" for j
  proof (cases "j = k")
    case False
    then have "j < k" using j by simp
    moreover have "?d \<noteq> data_addr ?i buf j"
      using data_addr_inj [OF room, of k j] False k j by (auto simp: buf)
    ultimately show ?thesis using f by (simp add: port_filling_def)
  qed simp
  ultimately have "port_filling ?t mp q ws (Suc k) buf (wrap_dptr ?t (pool_end ?i) (?d + 4))"
    using f t k by (simp add: port_filling_def)
  moreover have "touches mp ?s ?t" using D by (auto simp: touches_def port_span_def)
  ultimately show ?thesis by (simp add: e)
qed

subsection \<open>Reserving\<close>

definition port_ready :: "mac_config \<Rightarrow> ram \<Rightarrow> addr \<Rightarrow> int \<Rightarrow> bool" where
  "port_ready c s mp n \<longleftrightarrow> fst (mii_reserve_at_least c s mp n) \<noteq> 0"

lemma reserve_at_least_pools:
  "mii_reserve_at_least c s mp n = (buf, s') \<Longrightarrow> pools s' = pools s"
  by (auto simp: mii_reserve_at_least_def Let_def split: if_splits)

lemma port_ready_pools: "pools s' mp = pools s mp \<Longrightarrow> port_ready c s' mp n = port_ready c s mp n"
  by (simp add: port_ready_def mii_reserve_at_least_def Let_def)

lemma reserve_port_fields:
  "pools (w_ram (reserve_port c a hp p w)) = pools (w_ram w)"
  "w_ok (reserve_port c a hp p w) \<longleftrightarrow> w_ok w \<and> port_ready c (w_ram w) (tx_pool a hp p) (full_packet_size c hp)"
  "r \<noteq> p \<Longrightarrow> w_buf (reserve_port c a hp p w) r = w_buf w r"
  "r \<noteq> p \<Longrightarrow> w_dptr (reserve_port c a hp p w) r = w_dptr w r"
  using reserve_at_least_pools [of c "w_ram w" "tx_pool a hp p" "full_packet_size c hp"]
  by (auto simp: reserve_port_def Let_def port_ready_def split: prod.splits)

lemma reserve_ports_ok:
  "pools (w_ram (fold (reserve_port c a hp) ps w)) = pools (w_ram w) \<and>
   (w_ok (fold (reserve_port c a hp) ps w) \<longleftrightarrow>
      w_ok w \<and> (\<forall>p \<in> set ps. port_ready c (w_ram w) (tx_pool a hp p) (full_packet_size c hp)))"
proof (induction ps arbitrary: w)
  case (Cons p ps)
  have "port_ready c (w_ram (reserve_port c a hp p w)) = port_ready c (w_ram w)"
    by (intro ext port_ready_pools) (simp add: reserve_port_fields)
  then show ?case using Cons [of "reserve_port c a hp p w"] by (auto simp: reserve_port_fields)
qed simp

lemma full_packet_size_48: "0 \<le> max_tx_hp_packet_size c \<Longrightarrow> 0 \<le> max_tx_lp_packet_size c \<Longrightarrow> 48 \<le> full_packet_size c hp"
  by (simp add: full_packet_size_def MII_MALLOC_FULL_PACKET_SIZE_HP_def MII_MALLOC_FULL_PACKET_SIZE_LP_def
      MII_PACKET_HEADER_SIZE_40)

lemma reserve_touches:
  assumes inv: "pool_inv s mp q" and r: "mii_reserve_at_least c s mp n = (buf, s')"
  shows "touches mp s s'"
proof -
  have "s' = s \<or> s' = stw s (wrptr (pools s mp) + 4) (word_of_int mp)"
    using r by (auto simp: mii_reserve_at_least_def Let_def split: if_splits)
  then show ?thesis
    using pool_wf_wr_slot [OF pool_inv_wf [OF inv]] by (auto simp: touches_def port_span_def slot_ok_def)
qed

text \<open>A port in its turn: with or without room, its packets are as they were.\<close>

lemma reserve_port_inv:
  assumes inv: "pool_inv (w_ram w) (tx_pool a hp p) q" and n: "48 \<le> full_packet_size c hp"
  shows "pool_inv (w_ram (reserve_port c a hp p w)) (tx_pool a hp p) q \<and>
    touches (tx_pool a hp p) (w_ram w) (w_ram (reserve_port c a hp p w))"
proof -
  obtain buf s' where r: "mii_reserve_at_least c (w_ram w) (tx_pool a hp p) (full_packet_size c hp) = (buf, s')"
    by fastforce
  then have "w_ram (reserve_port c a hp p w) = s'" by (simp add: reserve_port_def Let_def)
  then show ?thesis using mii_reserve_at_least_inv(1) [OF inv r n] reserve_touches [OF inv r] by simp
qed

lemma reserve_port_step:
  assumes inv: "pool_inv (w_ram w) mp q" and mp: "mp = tx_pool a hp p"
    and rd: "port_ready c (w_ram w) mp (full_packet_size c hp)"
    and len: "48 + 4 * int (length ws) < full_packet_size c hp" "88 \<le> full_packet_size c hp"
  shows "port_filling (w_ram (reserve_port c a hp p w)) mp q ws 0
      (w_buf (reserve_port c a hp p w) p) (w_dptr (reserve_port c a hp p w) p) \<and>
    w_buf (reserve_port c a hp p w) p = buf_of_hdr (wrptr (pools (w_ram w) mp)) \<and>
    touches mp (w_ram w) (w_ram (reserve_port c a hp p w))"
proof -
  obtain buf s' where r: "mii_reserve_at_least c (w_ram w) mp (full_packet_size c hp) = (buf, s')" by fastforce
  then have nz: "buf \<noteq> 0" using rd by (simp add: port_ready_def)
  have n: "48 \<le> full_packet_size c hp" using len by simp
  note wf = pool_inv_wf [OF inv] and sp = mii_reserve_at_least_space [OF pool_inv_wf [OF inv] r nz n]
  note ri = mii_reserve_at_least_inv [OF inv r n]
  have e: "w_ram (reserve_port c a hp p w) = s'" "w_buf (reserve_port c a hp p w) p = buf"
    "w_dptr (reserve_port c a hp p w) p = mii_packet_get_data_ptr buf"
    using r nz by (simp_all add: reserve_port_def Let_def mp)
  have fr: "48 + 4 * int (length ws) < free_bytes (pools s' mp)"
    "rdptr (pools s' mp) = pool_start (pools s' mp) \<Longrightarrow> 48 + 4 * int (length ws) + 88 \<le> free_bytes (pools s' mp)"
    using sp(3,4) len by (auto simp: ri(2))
  have "88 \<le> free_bytes (pools s' mp)" using sp(3) len(2) by (simp add: ri(2))
  moreover have "hdr_info s' (wrptr (pools (w_ram w) mp)) = mp"
    using sp(2) pool_wf_shape [OF wf] by (simp add: hdr_info_def pool_shape_def sizeof_mempool_info_def uint_of_ptr)
  ultimately have "rx_reserved s' mp buf" using sp(1) by (simp add: rx_reserved_def ri(2))
  moreover have "mii_packet_get_data_ptr buf = data_addr (pools s' mp) buf 0"
    using data_addr_0 [OF wr_packet_room [OF pool_inv_wf [OF ri(1)]], of 0] fr(1) by (simp add: ri(2) sp(1))
  ultimately show ?thesis
    using reserve_touches [OF inv r] fr ri(1) by (simp add: e port_filling_def sp(1))
qed

subsection \<open>The data of the frame\<close>

fun data_words :: "bool \<Rightarrow> nat \<Rightarrow> byte list \<Rightarrow> word32 list" where
  "data_words offset2 0 bs = []"
| "data_words offset2 (Suc j) bs =
     (let (datum, bs) = input_word bs
      in (if offset2 then byterev datum else datum) # data_words offset2 j bs)"

lemma length_data_words [simp]: "length (data_words offset2 n bs) = n"
  by (induction n arbitrary: bs) (simp_all add: split_beta Let_def)

lemma get_data_fields:
  "w_ok (fst (get_data n wrap_ptr offset2 j w bs)) = w_ok w \<and>
   w_buf (fst (get_data n wrap_ptr offset2 j w bs)) = w_buf w \<and> snd (get_data n wrap_ptr offset2 j w bs) = drop (4 * j) bs"
proof (induction j arbitrary: w bs)
  case (Suc j)
  have "w_ok (fold (store_datum wrap_ptr x) ps w) = w_ok w \<and> w_buf (fold (store_datum wrap_ptr x) ps w) = w_buf w" for x ps
    by (induction ps arbitrary: w) (simp_all add: store_datum_fields)
  then show ?case using Suc by (simp add: input_word_def split_beta Let_def add.commute)
qed simp

definition ports_filling ::
  "nat \<Rightarrow> (nat \<Rightarrow> addr) \<Rightarrow> (nat \<Rightarrow> pool_queue) \<Rightarrow> (nat \<Rightarrow> addr) \<Rightarrow> (nat \<Rightarrow> addr) \<Rightarrow> word32 list \<Rightarrow> nat \<Rightarrow> tx_work \<Rightarrow> bool" where
  "ports_filling n mps qs wrap_ptr bufs ws k w \<longleftrightarrow>
     ports_apart n mps (w_ram w) \<and>
     (\<forall>p < n. port_filling (w_ram w) (mps p) (qs p) ws k (bufs p) (w_dptr w p) \<and>
        wrap_ptr p = pool_end (pools (w_ram w) (mps p)) \<and> w_buf w p = bufs p)"

lemma store_datum_ports:
  assumes f: "ports_filling n mps qs wrap_ptr bufs ws k w" and k: "k < length ws"
  shows "ports_filling n mps qs wrap_ptr bufs ws (Suc k) (fold (store_datum wrap_ptr (ws ! k)) [0..<n] w)"
proof -
  let ?w = "fold (store_datum wrap_ptr (ws ! k)) [0..<n] w"
  let ?P = "\<lambda>k p s b d. port_filling s (mps p) (qs p) ws k (bufs p) d \<and>
    wrap_ptr p = pool_end (pools s (mps p)) \<and> b = bufs p"
  have same: "?P k p s' b d" if "?P k p s b d" "same_port (mps p) s s'" for k p s s' b d
    using port_filling_same [OF _ that(2)] that by (simp add: same_port_def)
  have "ports_apart n mps (w_ram ?w) \<and> (\<forall>p < n. ?P (Suc k) p (w_ram ?w) (w_buf ?w p) (w_dptr ?w p))"
  proof (rule fold_ports [where A = "?P k" and B = "?P (Suc k)" and mps = mps])
    fix p and v :: tx_work
    assume "p < n" and v: "?P k p (w_ram v) (w_buf v p) (w_dptr v p)"
    then have "port_filling (w_ram v) (mps p) (qs p) ws k (bufs p) (w_dptr v p)"
      "wrap_ptr p = pool_end (pools (w_ram v) (mps p))" by simp_all
    note st = store_datum_step [where p = p and w = v and wrap_ptr = wrap_ptr, OF this(1) k this(2)]
    have "pool_end (pools (w_ram (store_datum wrap_ptr (ws ! k) p v)) (mps p)) = pool_end (pools (w_ram v) (mps p))"
      by (simp add: store_datum_def Let_def)
    with st v show "?P (Suc k) p (w_ram (store_datum wrap_ptr (ws ! k) p v)) (w_buf (store_datum wrap_ptr (ws ! k) p v) p)
        (w_dptr (store_datum wrap_ptr (ws ! k) p v) p) \<and>
      touches (mps p) (w_ram v) (w_ram (store_datum wrap_ptr (ws ! k) p v))"
      by (simp add: store_datum_fields)
  next
    fix p s s' b d
    show "?P k p s b d \<Longrightarrow> same_port (mps p) s s' \<Longrightarrow> ?P k p s' b d" by (rule same)
    show "?P (Suc k) p s b d \<Longrightarrow> same_port (mps p) s s' \<Longrightarrow> ?P (Suc k) p s' b d" by (rule same)
  qed (use f in \<open>simp_all add: ports_filling_def store_datum_fields\<close>)
  then show ?thesis by (simp add: ports_filling_def)
qed

lemma get_data_ports:
  assumes "ports_filling n mps qs wrap_ptr bufs ws k w" "drop k ws = data_words offset2 j bs" "k \<le> length ws"
  shows "ports_filling n mps qs wrap_ptr bufs ws (length ws) (fst (get_data n wrap_ptr offset2 j w bs))"
  using assms
proof (induction j arbitrary: k w bs)
  case 0
  then show ?case by simp
next
  case (Suc j)
  obtain datum bs' where i: "input_word bs = (datum, bs')" by fastforce
  let ?x = "if offset2 then byterev datum else datum"
  have d: "drop k ws = ?x # data_words offset2 j bs'" using Suc.prems(2) by (simp add: i)
  then have k: "k < length ws" "ws ! k = ?x" "drop (Suc k) ws = data_words offset2 j bs'"
    by (metis drop_all list.distinct(1) not_le_imp_less, metis nth_via_drop, metis drop_Suc list.sel(3) tl_drop)
  from Suc.IH [OF store_datum_ports [OF Suc.prems(1) k(1)] k(3)] show ?case using k(1,2) by (simp add: i)
qed

subsection \<open>Committing\<close>

text \<open>What a port holds when the frame is queued.\<close>

definition port_sent ::
  "mac_config \<Rightarrow> ram \<Rightarrow> addr \<Rightarrow> pool_queue \<Rightarrow> word32 list \<Rightarrow> word32 \<Rightarrow> word32 \<Rightarrow> addr \<Rightarrow> bool" where
  "port_sent c s mp q ws len tid buf \<longleftrightarrow>
     pool_inv s mp (commit_spec (hdr_of_buf buf) q) \<and> packet_room s mp (hdr_of_buf buf) (Suc (length ws)) \<and>
     hdr_info s (hdr_of_buf buf) = mp \<and>
     packet_words s buf (length ws) = ws \<and> mii_packet_get_length s buf = len \<and>
     mii_packet_get_timestamp_id s buf = tid \<and> mii_packet_get_tcount s buf = 0 \<and>
     mii_packet_get_stage s buf = 1 \<and> (port_forwarding c \<longrightarrow> mii_packet_get_forwarding s buf = 0)"

lemma port_sent_same:
  assumes f: "port_sent c s mp q ws len tid buf" and e: "same_port mp s s'"
  shows "port_sent c s' mp q ws len tid buf"
proof -
  define h where "h = hdr_of_buf buf"
  have b: "buf = buf_of_hdr h" by (simp add: h_def hdr_of_buf_def buf_of_hdr_def)
  have i: "pool_inv s mp (commit_spec h q)" and room: "packet_room s mp h (Suc (length ws))"
    and info: "hdr_info s h = mp" and ws: "packet_words s buf (length ws) = ws"
    using f by (simp_all add: port_sent_def h_def)
  have slot: "slot_ok (pools s mp) h" using room by (simp add: packet_room_def Let_def)
  have l: "ldw s' a = ldw s a" if "pool_start (pools s mp) \<le> a" "a \<le> pool_end (pools s mp)" for a
    using e that by (simp add: same_port_def port_span_def)
  have p: "pools s' mp = pools s mp" using e by (simp add: same_port_def)
  have g: "mii_packet_get x s' buf = mii_packet_get x s buf" for x
    using BUF_OFFSET_range [of x] slot
    by (auto simp: mii_packet_get_def b buf_of_hdr_def sizeof_malloc_hdr_def BUF_DATA_OFFSET_def slot_ok_def intro!: l)
  have info': "hdr_info s' h = mp" using l [of "h + 4"] slot info by (simp add: hdr_info_def slot_ok_def)
  have "ldw s' (data_addr (pools s mp) buf j) = ldw s (data_addr (pools s mp) buf j)" if "j < length ws" for j
    using data_addr_range [OF room, of j] that by (intro l) (simp_all add: b)
  then have "packet_words s' buf (length ws) = packet_words s buf (length ws)"
    by (simp add: packet_words_addr [OF info, folded b] packet_words_addr [OF info', folded b] p)
  moreover have "packet_room s' mp h (Suc (length ws))"
    using room l [of "pool_end (pools s mp)"] p by (simp add: packet_room_def Let_def pool_shape_def)
  ultimately show ?thesis
    using f pool_inv_same_port [OF i e] ws info' by (simp add: port_sent_def g flip: h_def)
qed

text \<open>A field of the buffer that is being filled, or of the packet when it is queued.\<close>

lemma port_filling_field:
  assumes f: "port_filling s mp q ws (length ws) buf d"
  shows "port_filling (mii_packet_set x s buf v) mp q ws (length ws) buf d"
    "touches mp s (mii_packet_set x s buf v)"
proof -
  let ?h = "wrptr (pools s mp)"
  have i: "pool_inv s mp q" and r: "rx_reserved s mp buf" and b: "buf = buf_of_hdr ?h"
    using f by (auto simp: port_filling_def rx_reserved_def)
  have "rx_reserved (mii_packet_set x s buf v) mp buf"
    using r BUF_OFFSET_range [of x]
    by (auto simp: rx_reserved_def hdr_info_def mii_packet_set_def buf_of_hdr_def sizeof_malloc_hdr_def)
  moreover have "ldw (mii_packet_set x s buf v) (data_addr (pools s mp) buf j) = ldw s (data_addr (pools s mp) buf j)"
    if "j < length ws" for j
    using header_addr_apart(1) [OF port_filling_room [OF f] that] by (intro ldw_packet_set) (simp add: b)
  ultimately show "port_filling (mii_packet_set x s buf v) mp q ws (length ws) buf d"
    using f header_store_pool_inv [OF i r] by (simp add: port_filling_def)
  show "touches mp s (mii_packet_set x s buf v)"
    using BUF_OFFSET_range [of x] pool_wf_wr_slot [OF pool_inv_wf [OF i]]
    by (auto simp: touches_def port_span_def mii_packet_set_def b buf_of_hdr_def sizeof_malloc_hdr_def
        BUF_DATA_OFFSET_def slot_ok_def)
qed

lemma commit_filled:
  assumes f: "port_filling s mp q ws (length ws) buf d" and c: "mii_commit c s buf d = (r, s')"
  shows "pool_inv s' mp (commit_spec (hdr_of_buf buf) q)" "packet_room s' mp (hdr_of_buf buf) (Suc (length ws))"
    "hdr_info s' (hdr_of_buf buf) = mp" "packet_words s' buf (length ws) = ws" "touches mp s s'"
    "mii_packet_get x s' buf =
      (if x = F_stage \<or> x = F_forwarding \<and> port_forwarding c then 0 else mii_packet_get x s buf)"
proof -
  let ?i = "pools s mp" and ?h = "wrptr (pools s mp)" and ?n = "length ws"
  let ?e = "data_addr (pools s mp) buf (length ws)"
  have inv: "pool_inv s mp q" and b: "buf = buf_of_hdr ?h" and info: "hdr_info s ?h = mp" and d: "d = ?e"
    and fr: "48 + 4 * int ?n < free_bytes ?i"
    "rdptr ?i = pool_start ?i \<Longrightarrow> 48 + 4 * int ?n + 88 \<le> free_bytes ?i"
    and ws: "\<And>j. j < ?n \<Longrightarrow> ldw s (data_addr ?i buf j) = ws ! j"
    using f by (auto simp: port_filling_def rx_reserved_def)
  note wf = pool_inv_wf [OF inv] and c' = c [unfolded b d]
  have room: "packet_room s mp ?h (Suc ?n)"
  proof (rule wr_packet_room [OF wf])
    have "4 dvd free_bytes ?i" by (rule free_bytes_dvd [OF wf])
    then show "48 + 4 * int (Suc ?n) \<le> free_bytes ?i" using fr(1) by presburger
  qed
  note e = data_addr_range [OF room, of ?n, folded b] data_addr_header [OF room, of ?n, folded b]
  have "\<not> (commit_wraps ?i ?e \<and> rdptr ?i = pool_start ?i)"
    using fr(2) e pool_wf_wr_slot [OF wf] pool_wf_shape [OF wf]
    by (auto simp: commit_wraps_def free_bytes_def pool_layout_defs data_addr_def b buf_of_hdr_def BUF_DATA_OFFSET_def
        Let_def split: if_splits)
  moreover have "off ?i ?h + 48 \<le> off ?i ?e" using data_addr_off [OF wf fr(1)] by (simp add: b)
  ultimately have C: "r = 1" "pool_inv s' mp (commit_spec ?h q)"
    using mii_commit_refines [OF inv refl info _ _ _ _ c [unfolded b d]] e by (auto simp: b split: if_splits)
  have hb: "hdr_of_buf buf = ?h" by (simp add: b)
  show "pool_inv s' mp (commit_spec (hdr_of_buf buf) q)" using C(2) hb by simp
  show "mii_packet_get x s' buf =
      (if x = F_stage \<or> x = F_forwarding \<and> port_forwarding c then 0 else mii_packet_get x s buf)"
    using mii_commit_fields [OF c'] C(1) by (simp add: b)
  have "\<exists>x. pools s' = (pools s)(mp := ?i\<lparr>wrptr := x\<rparr>)"
    using c' info C(1) by (auto simp: mii_commit_def Let_def split: if_splits)
  then obtain x' where p: "pools s' = (pools s)(mp := ?i\<lparr>wrptr := x'\<rparr>)" ..
  have da: "data_addr (pools s' mp) = data_addr ?i"
    by (simp add: p data_addr_def pool_len_def fun_eq_iff Let_def)
  have info': "hdr_info s' ?h = mp"
    using mii_commit_frame [OF c', of "?h + 4"] info by (simp add: hdr_info_def)
  then show "hdr_info s' (hdr_of_buf buf) = mp" by (simp only: hb)
  have "ldw s' (data_addr ?i buf j) = ws ! j" if "j < ?n" for j
    using ws [OF that] mii_commit_frame [OF c', of "data_addr ?i buf j"] data_addr_header [OF room, of j] that
    by (auto simp: b)
  then show "packet_words s' buf ?n = ws"
    unfolding packet_words_addr [OF info', folded b] da by (intro nth_equalityI) simp_all
  have l: "ldw s' a = ldw s a" if "a < ?h \<or> ?h + 48 \<le> a" for a using mii_commit_frame [OF c', of a] that by blast
  have slot: "slot_ok ?i ?h" by (rule pool_wf_wr_slot [OF wf])
  show "packet_room s' mp (hdr_of_buf buf) (Suc ?n)"
    using room l [of "pool_end ?i"] slot p
    by (simp add: hb packet_room_def Let_def pool_shape_def slot_ok_def pool_len_def)
  show "touches mp s s'"
    using l slot p by (auto simp: touches_def port_span_def slot_ok_def)
qed

subsection \<open>The source address\<close>

definition put_byte :: "word32 \<Rightarrow> nat \<Rightarrow> byte \<Rightarrow> word32" where
  "put_byte w i b =
     (let m = push_bit (8 * i) (mask 8) in (w AND NOT m) OR (push_bit (8 * i) (ucast b) AND m))"

definition set_byte :: "nat \<Rightarrow> byte \<Rightarrow> word32 list \<Rightarrow> word32 list" where
  "set_byte k b ws = ws[k div 4 := put_byte (ws ! (k div 4)) (k mod 4) b]"

definition words_bytes :: "word32 list \<Rightarrow> byte list" where
  "words_bytes ws = concat (map bytes_of_word ws)"

lemma length_words_bytes [simp]: "length (words_bytes ws) = 4 * length ws"
  by (simp add: words_bytes_def length_concat_same [where n = 4])

lemma length_set_byte [simp]: "length (set_byte k b ws) = length ws"
  by (simp add: set_byte_def)

lemma words_bytes_nth: "k < 4 * length ws \<Longrightarrow> words_bytes ws ! k = word_byte (ws ! (k div 4)) (k mod 4)"
proof (induction ws arbitrary: k)
  case (Cons w ws)
  show ?case
  proof (cases "k < 4")
    case True
    then have "k = 0 \<or> k = 1 \<or> k = 2 \<or> k = 3" by auto
    then show ?thesis by (auto simp: words_bytes_def bytes_of_word_4)
  next
    case False
    then have "words_bytes (w # ws) ! k = words_bytes ws ! (k - 4)"
      by (simp add: words_bytes_def nth_append)
    moreover have "k div 4 = Suc ((k - 4) div 4)" "k mod 4 = (k - 4) mod 4" using False by presburger+
    ultimately show ?thesis using Cons.IH [of "k - 4"] Cons.prems False by simp
  qed
qed simp

lemma word_byte_put:
  assumes "i < 4" "j < 4"
  shows "word_byte (put_byte w i b) j = (if j = i then b else word_byte w j)"
proof (rule bit_word_eqI)
  fix n :: nat
  assume n: "n < LENGTH(8)"
  have "8 * i \<le> 8 * j + n \<and> 8 * j + n < 8 * i + 8 \<longleftrightarrow> j = i" using n by auto
  then show "bit (word_byte (put_byte w i b) j) n = bit (if j = i then b else word_byte w j) n"
    using assms n by (auto simp: bit_word_byte put_byte_def bit_simps Let_def)
qed

lemma set_byte_bytes:
  assumes "k < 4 * length ws"
  shows "words_bytes (set_byte k b ws) = (words_bytes ws)[k := b]"
proof (rule nth_equalityI)
  fix j
  assume "j < length (words_bytes (set_byte k b ws))"
  then have j: "j < 4 * length ws" by simp
  have "j = k \<longleftrightarrow> j div 4 = k div 4 \<and> j mod 4 = k mod 4" by (metis div_mult_mod_eq)
  moreover have "k div 4 < length ws" using assms by linarith
  ultimately show "words_bytes (set_byte k b ws) ! j = (words_bytes ws)[k := b] ! j"
    using j assms
    by (cases "j div 4 = k div 4"; cases "j mod 4 = k mod 4")
      (simp_all add: words_bytes_nth set_byte_def word_byte_put)
qed simp

definition sourced :: "tx_server_args \<Rightarrow> word32 list \<Rightarrow> word32 list" where
  "sourced a ws =
     (if source_address_write a then fold (\<lambda>j. set_byte (6 + j) (tx_mac_addr a ! j)) [0..<6] ws else ws)"

lemma length_sourced [simp]: "length (sourced a ws) = length ws"
proof -
  have "length (fold (\<lambda>j. set_byte (6 + j) (tx_mac_addr a ! j)) js ws) = length ws" for js
    by (induction js arbitrary: ws) simp_all
  then show ?thesis by (simp add: sourced_def)
qed

lemma data_byte_word:
  assumes "4 dvd buf" "k < 12"
  shows "mii_packet_set_data_byte s buf (int k) (ucast b) =
    stw s (buf + 40 + 4 * int (k div 4)) (put_byte (ldw s (buf + 40 + 4 * int (k div 4))) (k mod 4) b)"
proof -
  have "(buf + (int k + BUF_DATA_OFFSET * 4)) mod 4 = int (k mod 4)"
    "4 * ((buf + (int k + BUF_DATA_OFFSET * 4)) div 4) = buf + 40 + 4 * int (k div 4)"
    using assms(1) unfolding BUF_DATA_OFFSET_def by presburger+
  then show ?thesis by (simp add: mii_packet_set_data_byte_def st_part_def Let_def put_byte_def)
qed

lemma port_filling_byte:
  assumes f: "port_filling s mp q ws (length ws) buf d" and k: "k < 12" "3 \<le> length ws"
  shows "port_filling (mii_packet_set_data_byte s buf (int k) (ucast b)) mp q (set_byte k b ws) (length ws) buf d"
    "touches mp s (mii_packet_set_data_byte s buf (int k) (ucast b))"
proof -
  let ?h = "wrptr (pools s mp)" and ?i = "pools s mp" and ?j = "k div 4"
  have inv: "pool_inv s mp q" and r: "rx_reserved s mp buf" and bf: "buf = buf_of_hdr ?h"
    and fr: "48 + 4 * int (length ws) < free_bytes ?i"
    using f by (auto simp: port_filling_def rx_reserved_def)
  note room = port_filling_room [OF f]
  have slot: "slot_ok ?i ?h" by (rule pool_wf_wr_slot [OF pool_inv_wf [OF inv]])
  have j: "?j < length ws" using k by linarith
  have a: "buf + 40 + 4 * int ?j = data_addr ?i buf ?j"
    using data_addr_first [OF slot, of ?j] k(1) by (simp add: bf mii_packet_get_data_ptr_def BUF_DATA_OFFSET_def)
  have "4 dvd buf" using slot by (simp add: bf buf_of_hdr_def sizeof_malloc_hdr_def slot_ok_def)
  from data_byte_word [OF this k(1), of s b]
  have e: "mii_packet_set_data_byte s buf (int k) (ucast b)
      = stw s (data_addr ?i buf ?j) (put_byte (ws ! ?j) (k mod 4) b)" (is "_ = ?t")
    using f j by (simp add: a port_filling_def)
  have "pool_inv ?t mp q" using data_store_pool_inv [OF inv, of ?j] fr j by (simp add: bf)
  moreover have "rx_reserved ?t mp buf"
    using r header_addr_apart(3) [OF room j] by (simp add: rx_reserved_def hdr_info_def bf)
  moreover have "ldw ?t (data_addr ?i buf m) = set_byte k b ws ! m" if m: "m < length ws" for m
    using f m j data_addr_inj [OF room j m] by (auto simp: port_filling_def set_byte_def bf nth_list_update)
  ultimately show "port_filling (mii_packet_set_data_byte s buf (int k) (ucast b)) mp q (set_byte k b ws) (length ws) buf d"
    unfolding e using f by (simp add: port_filling_def)
  show "touches mp s (mii_packet_set_data_byte s buf (int k) (ucast b))"
    unfolding e using data_addr_range [OF room, of ?j] j by (auto simp: touches_def port_span_def bf)
qed

lemma port_filling_source:
  assumes "port_filling s mp q ws (length ws) buf d" "3 \<le> length ws" "set js \<subseteq> {..<6}"
  shows "port_filling (fold (\<lambda>j s. mii_packet_set_data_byte s buf (6 + int j) (ucast (mac ! j))) js s) mp q
      (fold (\<lambda>j. set_byte (6 + j) (mac ! j)) js ws) (length ws) buf d \<and>
    touches mp s (fold (\<lambda>j s. mii_packet_set_data_byte s buf (6 + int j) (ucast (mac ! j))) js s) \<and>
    mii_packet_get_length (fold (\<lambda>j s. mii_packet_set_data_byte s buf (6 + int j) (ucast (mac ! j))) js s) buf
      = mii_packet_get_length s buf"
  using assms
proof (induction js arbitrary: s ws)
  case (Cons j js)
  let ?s = "mii_packet_set_data_byte s buf (6 + int j) (ucast (mac ! j))"
  have j: "6 + j < 12" using Cons.prems(3) by simp
  note B = port_filling_byte [OF Cons.prems(1) j Cons.prems(2), of "mac ! j"]
  have f: "port_filling ?s mp q (set_byte (6 + j) (mac ! j) ws) (length (set_byte (6 + j) (mac ! j) ws)) buf d"
    and t: "touches mp s ?s" using B by simp_all
  have "slot_ok (pools s mp) (wrptr (pools s mp))" "buf = buf_of_hdr (wrptr (pools s mp))"
    using Cons.prems(1) pool_wf_wr_slot [OF pool_inv_wf] by (auto simp: port_filling_def rx_reserved_def)
  then have "4 dvd buf" by (simp add: buf_of_hdr_def sizeof_malloc_hdr_def slot_ok_def)
  from data_byte_word [OF this j, of s "mac ! j"] have "mii_packet_get_length ?s buf = mii_packet_get_length s buf"
    by (simp add: mii_packet_get_def)
  then show ?case
    using Cons.IH [OF f] Cons.prems(2,3) touches_trans [OF t] by simp
qed simp

text \<open>A published packet's field.\<close>

lemma sent_field:
  assumes i: "pool_inv s mp q" and h: "h \<in> fst ` set q"
    and room: "packet_room s mp h (Suc n)" and info: "hdr_info s h = mp"
  shows "pool_inv (mii_packet_set x s (buf_of_hdr h) v) mp q"
    "packet_room (mii_packet_set x s (buf_of_hdr h) v) mp h (Suc n)"
    "hdr_info (mii_packet_set x s (buf_of_hdr h) v) h = mp"
    "packet_words (mii_packet_set x s (buf_of_hdr h) v) (buf_of_hdr h) n = packet_words s (buf_of_hdr h) n"
    "touches mp s (mii_packet_set x s (buf_of_hdr h) v)"
proof -
  let ?s = "mii_packet_set x s (buf_of_hdr h) v"
  have slot: "slot_ok (pools s mp) h" using room by (simp add: packet_room_def Let_def)
  show "pool_inv ?s mp q" by (rule field_pool_inv [OF i h])
  show "hdr_info ?s h = mp"
    using info BUF_OFFSET_range [of x] by (simp add: hdr_info_def mii_packet_set_def buf_of_hdr_def sizeof_malloc_hdr_def)
  show "packet_words ?s (buf_of_hdr h) n = packet_words s (buf_of_hdr h) n"
    by (rule packet_words_set [OF room info]) simp
  have "ldw ?s (pool_end (pools s mp)) = ldw s (pool_end (pools s mp))"
    using BUF_OFFSET_range [of x] slot
    by (auto simp: mii_packet_set_def buf_of_hdr_def sizeof_malloc_hdr_def BUF_DATA_OFFSET_def slot_ok_def)
  then show "packet_room ?s mp h (Suc n)" using room by (simp add: packet_room_def Let_def)
  show "touches mp s ?s"
    using BUF_OFFSET_range [of x] slot
    by (auto simp: touches_def port_span_def mii_packet_set_def buf_of_hdr_def sizeof_malloc_hdr_def
        BUF_DATA_OFFSET_def slot_ok_def)
qed

definition for_port :: "word32 \<Rightarrow> nat \<Rightarrow> bool" where
  "for_port dst_port p \<longleftrightarrow> of_nat p = dst_port \<or> dst_port = word_of_int ETH_BROADCAST"

definition sent_id :: "nat \<Rightarrow> bool \<Rightarrow> word32" where
  "sent_id i timed = (if timed then of_nat (i + 1) else 0)"

lemma commit_port_other: "\<not> for_port dst p \<Longrightarrow> commit_port c a i timed len dst p w = w"
  by (simp add: commit_port_def for_port_def)

lemma commit_port_arrays [simp]:
  "w_buf (commit_port c a i timed len dst p w) = w_buf w" "w_dptr (commit_port c a i timed len dst p w) = w_dptr w"
  "w_ok (commit_port c a i timed len dst p w) = w_ok w"
  by (simp_all add: commit_port_def Let_def)

lemma commit_port_step:
  assumes f: "port_filling (w_ram w) mp q ws (length ws) buf (w_dptr w p)" and b: "w_buf w p = buf"
    and n: "source_address_write a \<longrightarrow> 3 \<le> length ws" and fp: "for_port dst p"
  shows "port_sent c (w_ram (commit_port c a i timed len dst p w)) mp q (sourced a ws) len (sent_id i timed) buf \<and>
    touches mp (w_ram w) (w_ram (commit_port c a i timed len dst p w))"
proof -
  define h where "h = hdr_of_buf buf"
  have bh: "buf = buf_of_hdr h" by (simp add: h_def hdr_of_buf_def buf_of_hdr_def)
  define s1 where "s1 = mii_packet_set_length (w_ram w) buf len"
  define s2 where "s2 = (if source_address_write a
    then fold (\<lambda>j s. mii_packet_set_data_byte s buf (6 + int j) (ucast (tx_mac_addr a ! j))) [0..<6] s1 else s1)"
  define s3 where "s3 = mii_packet_set_timestamp_id s2 buf (sent_id i timed)"
  obtain r s4 where c: "mii_commit c s3 buf (w_dptr w p) = (r, s4)" by fastforce
  then have s4: "s4 = snd (mii_commit c s3 buf (w_dptr w p))" by simp
  define s5 where "s5 = mii_packet_set_tcount s4 buf 0"
  define s6 where "s6 = mii_packet_set_stage s5 buf 1"
  have e: "w_ram (commit_port c a i timed len dst p w) = s6"
    using fp by (simp add: commit_port_def for_port_def Let_def b s1_def s2_def s3_def s4 s5_def s6_def sent_id_def)
  have f1: "port_filling s1 mp q ws (length ws) buf (w_dptr w p)" "touches mp (w_ram w) s1"
    using port_filling_field [OF f] by (simp_all add: s1_def)
  have "port_filling s2 mp q (sourced a ws) (length ws) buf (w_dptr w p) \<and> touches mp s1 s2 \<and>
    mii_packet_get_length s2 buf = len"
  proof (cases "source_address_write a")
    case True
    have "set [0..<6] \<subseteq> {..<6::nat}" by auto
    from port_filling_source [OF f1(1) _ this, of "tx_mac_addr a"] show ?thesis
      using True n by (simp add: s2_def sourced_def) (simp add: s1_def)
  next
    case False
    then show ?thesis using f1 by (simp add: s2_def sourced_def) (simp add: s1_def)
  qed
  then have f2: "port_filling s2 mp q (sourced a ws) (length (sourced a ws)) buf (w_dptr w p)" "touches mp s1 s2"
    and l2: "mii_packet_get_length s2 buf = len" by simp_all
  have f3: "port_filling s3 mp q (sourced a ws) (length (sourced a ws)) buf (w_dptr w p)" "touches mp s2 s3"
    using port_filling_field [OF f2(1)] by (simp_all add: s3_def)
  note C = commit_filled [OF f3(1) c, folded h_def]
  have hm: "h \<in> fst ` set (commit_spec h q)" by (simp add: commit_spec_def)
  note S5 = sent_field [OF C(1) hm C(2,3), where x = F_tcount and v = 0, folded bh, folded s5_def]
  note S6 = sent_field [OF S5(1) hm S5(2,3), where x = F_stage and v = 1, folded bh, folded s6_def]
  have g: "mii_packet_get x s6 buf = (if x = F_stage then 1 else if x = F_tcount then 0
    else if x = F_forwarding \<and> port_forwarding c then 0 else mii_packet_get x s3 buf)" for x
    using C(6) [of x] by (simp add: s6_def s5_def)
  have "mii_packet_get_length s3 buf = len" "mii_packet_get_timestamp_id s3 buf = sent_id i timed"
    using l2 by (simp_all add: s3_def)
  moreover have "packet_words s6 buf (length (sourced a ws)) = sourced a ws" using C(4) S5(4) S6(4) by simp
  ultimately have "port_sent c s6 mp q (sourced a ws) len (sent_id i timed) buf"
    using S6(1-3) g by (simp add: port_sent_def flip: h_def)
  moreover have "touches mp (w_ram w) s6"
    using touches_trans f1(2) f2(2) f3(2) C(5) S5(5) S6(5) by blast
  ultimately show ?thesis by (simp add: e)
qed

end
