(* ===== verification/Tx_Delivery.thy ===== *)
theory Tx_Delivery
  imports Tx_Ports
begin

text \<open>
  What the transmit server does with a request: the frame that the client gave is queued on the
  ports it is for, unchanged, or nothing is queued and the request stays noted. The client's
  functions and the server's reading of their transactions are put together here, and the queued
  packet with the transmit thread and the wire.
\<close>

subsection \<open>A request on all ports\<close>

lemma reserve_ports:
  assumes apart: "ports_apart n (tx_pool a hp) (w_ram w)"
    and inv: "\<And>p. p < n \<Longrightarrow> pool_inv (w_ram w) (tx_pool a hp p) (qs p)"
    and sz: "48 \<le> full_packet_size c hp"
  shows "ports_apart n (tx_pool a hp) (w_ram (fold (reserve_port c a hp) [0..<n] w)) \<and>
    (\<forall>p < n. pool_inv (w_ram (fold (reserve_port c a hp) [0..<n] w)) (tx_pool a hp p) (qs p))"
  by (rule fold_ports [where A = "\<lambda>p s b d. pool_inv s (tx_pool a hp p) (qs p)"
        and B = "\<lambda>p s b d. pool_inv s (tx_pool a hp p) (qs p)" and mps = "tx_pool a hp" and w = w])
    (use apart inv reserve_port_inv [OF _ sz] pool_inv_same_port in \<open>simp_all add: reserve_port_fields\<close>)

lemma reserve_ports_filling:
  assumes apart: "ports_apart n (tx_pool a hp) (w_ram w)"
    and inv: "\<And>p. p < n \<Longrightarrow> pool_inv (w_ram w) (tx_pool a hp p) (qs p)"
    and rd: "\<And>p. p < n \<Longrightarrow> port_ready c (w_ram w) (tx_pool a hp p) (full_packet_size c hp)"
    and len: "48 + 4 * int (length ws) < full_packet_size c hp" "88 \<le> full_packet_size c hp"
  shows "ports_filling n (tx_pool a hp) qs (\<lambda>p. mii_get_wrap_ptr (w_ram w) (tx_pool a hp p))
    (\<lambda>p. buf_of_hdr (wrptr (pools (w_ram w) (tx_pool a hp p)))) ws 0 (fold (reserve_port c a hp) [0..<n] w)"
proof -
  let ?mp = "tx_pool a hp" and ?w = "fold (reserve_port c a hp) [0..<n] w"
  let ?A = "\<lambda>p s b d. pool_inv s (?mp p) (qs p) \<and> pools s (?mp p) = pools (w_ram w) (?mp p)"
  let ?B = "\<lambda>p s b d. port_filling s (?mp p) (qs p) ws 0 b d \<and> pools s (?mp p) = pools (w_ram w) (?mp p) \<and>
    b = buf_of_hdr (wrptr (pools (w_ram w) (?mp p)))"
  have "ports_apart n ?mp (w_ram ?w) \<and> (\<forall>p < n. ?B p (w_ram ?w) (w_buf ?w p) (w_dptr ?w p))"
  proof (rule fold_ports [where A = ?A and B = ?B and mps = ?mp and w = w])
    fix p and v :: tx_work
    assume p: "p < n" and v: "?A p (w_ram v) (w_buf v p) (w_dptr v p)"
    have "port_ready c (w_ram v) (?mp p) (full_packet_size c hp)"
      using rd [OF p] port_ready_pools [of "w_ram v" "?mp p" "w_ram w" c] v by simp
    from reserve_port_step [OF _ refl this len, of "qs p"] v
    show "?B p (w_ram (reserve_port c a hp p v)) (w_buf (reserve_port c a hp p v) p) (w_dptr (reserve_port c a hp p v) p) \<and>
      touches (?mp p) (w_ram v) (w_ram (reserve_port c a hp p v))"
      by (auto simp: reserve_port_fields)
  next
    fix p s s' b d
    show "?A p s b d \<Longrightarrow> same_port (?mp p) s s' \<Longrightarrow> ?A p s' b d"
      using pool_inv_same_port by (auto simp: same_port_def)
    show "?B p s b d \<Longrightarrow> same_port (?mp p) s s' \<Longrightarrow> ?B p s' b d"
      using port_filling_same by (auto simp: same_port_def)
  qed (use apart inv in \<open>simp_all add: reserve_port_fields\<close>)
  then show ?thesis by (auto simp: ports_filling_def mii_get_wrap_ptr_def)
qed

lemma commit_ports:
  assumes f: "ports_filling n mps qs wrap_ptr bufs ws (length ws) w"
    and src: "source_address_write a \<longrightarrow> 3 \<le> length ws"
  shows "\<forall>p < n. if for_port dst p
    then port_sent c (w_ram (fold (commit_port c a i timed len dst) [0..<n] w)) (mps p) (qs p) (sourced a ws) len
           (sent_id i timed) (bufs p)
    else pool_inv (w_ram (fold (commit_port c a i timed len dst) [0..<n] w)) (mps p) (qs p)"
proof -
  let ?w = "fold (commit_port c a i timed len dst) [0..<n] w"
  let ?A = "\<lambda>p s b d. port_filling s (mps p) (qs p) ws (length ws) (bufs p) d \<and> b = bufs p"
  let ?B = "\<lambda>p s b d. if for_port dst p then port_sent c s (mps p) (qs p) (sourced a ws) len (sent_id i timed) (bufs p)
    else pool_inv s (mps p) (qs p)"
  have "ports_apart n mps (w_ram ?w) \<and> (\<forall>p < n. ?B p (w_ram ?w) (w_buf ?w p) (w_dptr ?w p))"
  proof (rule fold_ports [where A = ?A and B = ?B and mps = mps and w = w])
    fix p and v :: tx_work
    assume v: "?A p (w_ram v) (w_buf v p) (w_dptr v p)"
    show "?B p (w_ram (commit_port c a i timed len dst p v)) (w_buf (commit_port c a i timed len dst p v) p)
        (w_dptr (commit_port c a i timed len dst p v) p) \<and>
      touches (mps p) (w_ram v) (w_ram (commit_port c a i timed len dst p v))"
    proof (cases "for_port dst p")
      case True
      from v have "port_filling (w_ram v) (mps p) (qs p) ws (length ws) (bufs p) (w_dptr v p)" "w_buf v p = bufs p"
        by simp_all
      from commit_port_step [where p = p and w = v, OF this src True] show ?thesis using True by simp
    next
      case False
      then show ?thesis using v by (simp add: commit_port_other port_filling_def)
    qed
  next
    fix p s s' b d
    show "?A p s b d \<Longrightarrow> same_port (mps p) s s' \<Longrightarrow> ?A p s' b d" using port_filling_same by blast
    show "?B p s b d \<Longrightarrow> same_port (mps p) s s' \<Longrightarrow> ?B p s' b d"
      using port_sent_same pool_inv_same_port by (auto split: if_splits)
  qed (use f in \<open>simp_all add: ports_filling_def\<close>)
  then show ?thesis by simp
qed

text \<open>The request of a client whose transaction is \<open>bs\<close>.\<close>

definition request_words :: "ethernet_protocol_t \<Rightarrow> byte list \<Rightarrow> word32 list" where
  "request_words cmd bs =
     data_words (cmd = ETHERNET_TX_REQ_OFFSET2) (word_count (fst (input_word bs)))
       (drop (if cmd = ETHERNET_TX_REQ_OFFSET2 then 10 else 8) bs)"

lemma get_packet_words:
  "get_packet_from_client n cmd wrap_ptr w bs =
     (fst (input_word bs), fst (input_word (drop 4 bs)),
      fst (get_data n wrap_ptr (cmd = ETHERNET_TX_REQ_OFFSET2) (word_count (fst (input_word bs))) w
        (drop (if cmd = ETHERNET_TX_REQ_OFFSET2 then 10 else 8) bs)),
      snd (snd (snd (get_packet_from_client n cmd wrap_ptr w bs))))"
  by (simp add: get_packet_from_client_def Let_def split_beta input_word_def)

lemma serve_request_sent:
  assumes pend: "pendingCmd v ! i = Some cmd0" "tx_request_kind c cmd0 = Some (cmd, hp)"
    and apart: "ports_apart (num_ports c) (tx_pool a hp) (w_ram w)"
    and inv: "\<And>p. p < num_ports c \<Longrightarrow> pool_inv (w_ram w) (tx_pool a hp p) (qs p)"
    and rd: "\<And>p. p < num_ports c \<Longrightarrow> port_ready c (w_ram w) (tx_pool a hp p) (full_packet_size c hp)"
    and ws: "ws = request_words cmd bs" and len: "48 + 4 * int (length ws) < full_packet_size c hp"
    "88 \<le> full_packet_size c hp" and src: "source_address_write a \<longrightarrow> 3 \<le> length ws"
  obtains w' where "serve_request c a i bs (v, w) =
      ((v\<lparr>tx_enabled := (tx_enabled v)[i := False], pendingCmd := (pendingCmd v)[i := None]\<rparr>, w'), True)"
    "\<And>p. p < num_ports c \<Longrightarrow>
       if for_port (fst (input_word (drop 4 bs))) p
       then port_sent c (w_ram w') (tx_pool a hp p) (qs p) (sourced a ws) (fst (input_word bs))
              (sent_id i (cmd = ETHERNET_TX_REQ_TIMED)) (buf_of_hdr (wrptr (pools (w_ram w) (tx_pool a hp p))))
       else pool_inv (w_ram w') (tx_pool a hp p) (qs p)"
proof -
  let ?n = "num_ports c" and ?len = "fst (input_word bs)" and ?dst = "fst (input_word (drop 4 bs))"
  let ?wrap = "\<lambda>p. mii_get_wrap_ptr (w_ram w) (tx_pool a hp p)" and ?off = "cmd = ETHERNET_TX_REQ_OFFSET2"
  let ?bufs = "\<lambda>p. buf_of_hdr (wrptr (pools (w_ram w) (tx_pool a hp p)))"
  let ?w0 = "w\<lparr>w_ok := True\<rparr>"
  let ?w1 = "fold (reserve_port c a hp) [0..<?n] ?w0"
  let ?w2 = "fst (get_data ?n ?wrap ?off (word_count ?len) ?w1 (drop (if ?off then 10 else 8) bs))"
  let ?w3 = "fold (commit_port c a i (cmd = ETHERNET_TX_REQ_TIMED) ?len ?dst) [0..<?n] ?w2"
  have "ports_filling ?n (tx_pool a hp) qs ?wrap ?bufs ws 0 ?w1"
    using reserve_ports_filling [of ?n a hp ?w0 qs c ws] apart inv rd len by simp
  moreover have "drop 0 ws = data_words ?off (word_count ?len) (drop (if ?off then 10 else 8) bs)"
    by (simp add: ws request_words_def)
  ultimately have "ports_filling ?n (tx_pool a hp) qs ?wrap ?bufs ws (length ws) ?w2"
    by (rule get_data_ports) simp
  note sent = commit_ports [OF this src]
  have ok: "w_ok ?w1" using reserve_ports_ok [of c a hp "[0..<?n]" ?w0] rd by simp
  have "serve_request c a i bs (v, w) =
      ((v\<lparr>tx_enabled := (tx_enabled v)[i := False], pendingCmd := (pendingCmd v)[i := None]\<rparr>, ?w3), True)"
    unfolding serve_request_def using pend ok
    by (subst get_packet_words) (simp add: Let_def)
  then show thesis using that sent by blast
qed

text \<open>Without room on some port nothing is queued, nothing is read and the request stays.\<close>

lemma serve_request_waits:
  assumes pend: "pendingCmd v ! i = Some cmd0" "tx_request_kind c cmd0 = Some (cmd, hp)"
    and apart: "ports_apart (num_ports c) (tx_pool a hp) (w_ram w)"
    and inv: "\<And>p. p < num_ports c \<Longrightarrow> pool_inv (w_ram w) (tx_pool a hp p) (qs p)"
    and sz: "48 \<le> full_packet_size c hp"
    and full: "p < num_ports c" "\<not> port_ready c (w_ram w) (tx_pool a hp p) (full_packet_size c hp)"
  obtains w' where "serve_request c a i bs (v, w) = ((v, w'), False)"
    "\<And>p. p < num_ports c \<Longrightarrow> pool_inv (w_ram w') (tx_pool a hp p) (qs p)"
proof -
  let ?w1 = "fold (reserve_port c a hp) [0..<num_ports c] (w\<lparr>w_ok := True\<rparr>)"
  have "\<not> w_ok ?w1" using reserve_ports_ok [of c a hp "[0..<num_ports c]" "w\<lparr>w_ok := True\<rparr>"] full by auto
  then have "serve_request c a i bs (v, w) = ((v, ?w1), False)"
    using pend by (simp add: serve_request_def Let_def)
  moreover have "\<forall>p < num_ports c. pool_inv (w_ram ?w1) (tx_pool a hp p) (qs p)"
    using reserve_ports [of "num_ports c" a hp "w\<lparr>w_ok := True\<rparr>" qs c] apart inv sz by simp
  ultimately show thesis using that by blast
qed

subsection \<open>The calls of a client\<close>

datatype tx_call = Call_full | Call_timed | Call_offset2

fun call_request :: "mac_config \<Rightarrow> tx_call \<Rightarrow> word32 list \<Rightarrow> word32 \<Rightarrow> word32 \<Rightarrow> tx_request" where
  "call_request c Call_full Buf cnt ifnum = mac_tx_full c Buf cnt ifnum"
| "call_request c Call_timed Buf cnt ifnum = mac_tx_timed c Buf cnt ifnum"
| "call_request c Call_offset2 Buf cnt ifnum = mac_tx_offset2 c Buf cnt ifnum"

fun call_cmd :: "tx_call \<Rightarrow> ethernet_protocol_t" where
  "call_cmd Call_full = ETHERNET_TX_REQ"
| "call_cmd Call_timed = ETHERNET_TX_REQ_TIMED"
| "call_cmd Call_offset2 = ETHERNET_TX_REQ_OFFSET2"

text \<open>Where the frame starts in the buffer, and the words that the call reads.\<close>

fun call_offset :: "tx_call \<Rightarrow> nat" where
  "call_offset Call_offset2 = 2"
| "call_offset _ = 0"

fun call_words :: "tx_call \<Rightarrow> nat \<Rightarrow> nat" where
  "call_words Call_offset2 len = (len + 7) div 4"
| "call_words _ len = (len + 3) div 4"

text \<open>The frame is tagged: bytes 12 and 13 are 0x81 and 0.\<close>

definition tagged :: "byte list \<Rightarrow> bool" where
  "tagged frame \<longleftrightarrow> frame ! 12 = 0x81 \<and> frame ! 13 = 0"

definition call_frame :: "tx_call \<Rightarrow> word32 list \<Rightarrow> nat \<Rightarrow> byte list" where
  "call_frame call Buf len = take len (drop (call_offset call) (words_bytes Buf))"

definition call_bytes :: "mac_config \<Rightarrow> tx_call \<Rightarrow> word32 list \<Rightarrow> nat \<Rightarrow> word32 \<Rightarrow> byte list" where
  "call_bytes c call Buf len ifnum = transaction_bytes (Slave (req_items (call_request c call Buf (of_nat len) ifnum)))"

lemma tag_bytes: "(ucast w :: word16) = 0x81 \<longleftrightarrow> word_byte w 0 = 0x81 \<and> word_byte w 1 = 0"
proof -
  have "(0x81 :: word16) = ucast (0x81 :: word32)" by simp
  then have "(ucast w :: word16) = 0x81 \<longleftrightarrow> word_byte w 0 = word_byte 0x81 0 \<and> word_byte w 1 = word_byte 0x81 1"
    by (simp only: ucast16_eq_bytes)
  then show ?thesis by (simp add: word_byte_def drop_bit_eq_div)
qed

lemma word_byte_high: "word_byte (drop_bit 16 w) 0 = word_byte w 2" "word_byte (drop_bit 16 w) (Suc 0) = word_byte w 3"
  by (simp_all add: word_byte_def)

lemma call_frame_nth:
  assumes "k < len" "call_words call len \<le> length Buf"
  shows "call_frame call Buf len ! k
    = word_byte (Buf ! ((call_offset call + k) div 4)) ((call_offset call + k) mod 4)"
proof -
  have "call_offset call + k < 4 * length Buf" using assms by (cases call) auto
  then show ?thesis using assms by (simp add: call_frame_def words_bytes_nth)
qed

lemma call_kind:
  assumes "14 \<le> len" "call_words call len \<le> length Buf"
  shows "tx_request_kind c (req_cmd (call_request c call Buf cnt ifnum))
    = Some (call_cmd call, tx_hp_queue c \<and> tagged (call_frame call Buf len))"
  using call_frame_nth [OF _ assms(2), of 12] call_frame_nth [OF _ assms(2), of 13] assms(1)
  by (cases call)
    (simp_all add: tx_request_kind_def tagged_def mac_tx_full_def mac_tx_timed_def mac_tx_offset2_def
      ethernet_send_frame_unify_def Let_def tag_bytes word_byte_high)

lemma data_words_items:
  "data_words False (length ws) (concat (map (rev \<circ> bytes_of_word) ws) @ rest) = ws"
  by (induction ws) (simp_all add: Let_def)

lemma data_words_bytes: "4 * n \<le> length bs \<Longrightarrow> words_bytes (data_words True n bs) = take (4 * n) bs"
proof (induction n arbitrary: bs)
  case (Suc n)
  then obtain x0 x1 x2 x3 bs' where bs: "bs = x0 # x1 # x2 # x3 # bs'"
    by (cases bs; cases "tl bs"; cases "tl (tl bs)"; cases "tl (tl (tl bs))") auto
  have i: "input_word bs = (word_of_bytes x3 x2 x1 x0, bs')" by (simp add: bs input_word_def numeral_eq_Suc)
  have "bytes_of_word (byterev (word_of_bytes x3 x2 x1 x0)) = [x0, x1, x2, x3]"
    by (simp add: bytes_of_word_byterev) (simp add: bytes_of_word_def)
  moreover have "words_bytes (data_words True n bs') = take (4 * n) bs'" using Suc by (simp add: bs)
  ultimately show ?case
    unfolding data_words.simps i Let_def prod.case mult_Suc_right
    by (simp add: words_bytes_def bs numeral_eq_Suc)
qed (simp add: words_bytes_def)

lemma words_bytes_take: "words_bytes (take n ws) = take (4 * n) (words_bytes ws)"
proof (induction n arbitrary: ws)
  case (Suc n)
  then show ?case by (cases ws) (simp_all add: words_bytes_def)
qed (simp add: words_bytes_def)

lemma call_transaction:
  assumes len: "len < 2 ^ 30" and n: "call_words call len \<le> length Buf"
  shows "fst (input_word (call_bytes c call Buf len ifnum)) = of_nat len"
    "fst (input_word (drop 4 (call_bytes c call Buf len ifnum))) = ifnum"
    "length (request_words (call_cmd call) (call_bytes c call Buf len ifnum)) = (len + 3) div 4"
    "take len (words_bytes (request_words (call_cmd call) (call_bytes c call Buf len ifnum))) = call_frame call Buf len"
proof -
  let ?rest = "if call = Call_offset2 then concat (map bytes_of_word (take ((len + 7) div 4) Buf))
    else concat (map (rev \<circ> bytes_of_word) (take ((len + 3) div 4) Buf))"
  have wc: "word_count (of_nat len) = (len + 3) div 4" by (rule word_count_of_nat [OF len])
  have sl: "sint (of_nat len :: word32) = int len" using sint_of_ptr [of "int len"] len by simp
  then have "nat ((sint (of_nat len :: word32) + 7) div 4) = (len + 7) div 4"
    by (simp add: nat_div_distrib nat_add_distrib)
  moreover have m: "map (\<lambda>i. f (Buf ! i)) [0..<k] = map f (take k Buf)" if "k \<le> length Buf" for k and f :: "word32 \<Rightarrow> 'z"
    using that by (intro nth_equalityI) simp_all
  ultimately have b: "call_bytes c call Buf len ifnum = rev (bytes_of_word (of_nat len)) @ rev (bytes_of_word ifnum) @ ?rest"
    using n wc
    by (cases call) (simp_all add: call_bytes_def mac_tx_full_def mac_tx_timed_def mac_tx_offset2_def
      ethernet_send_frame_unify_def Let_def m comp_def bytes_of_word_byterev)
  show c1: "fst (input_word (call_bytes c call Buf len ifnum)) = of_nat len" by (simp add: b)
  show "fst (input_word (drop 4 (call_bytes c call Buf len ifnum))) = ifnum" by (simp add: b)
  show "length (request_words (call_cmd call) (call_bytes c call Buf len ifnum)) = (len + 3) div 4"
    by (simp add: request_words_def b wc)
  show "take len (words_bytes (request_words (call_cmd call) (call_bytes c call Buf len ifnum))) = call_frame call Buf len"
  proof (cases "call = Call_offset2")
    case True
    let ?M = "(len + 7) div 4" and ?N = "(len + 3) div 4"
    have M: "len \<le> 4 * ?N" "4 * ?N \<le> 4 * ?M - 2" "len + 2 \<le> 4 * ?M" by presburger+
    have "drop 10 (call_bytes c call Buf len ifnum) = drop 2 (words_bytes (take ?M Buf))"
      unfolding b using True by (simp add: words_bytes_def)
    then have "request_words (call_cmd call) (call_bytes c call Buf len ifnum)
        = data_words True ?N (drop 2 (words_bytes (take ?M Buf)))"
      using True wc c1 by (simp add: request_words_def)
    moreover have "words_bytes (data_words True ?N (drop 2 (words_bytes (take ?M Buf))))
        = take (4 * ?N) (drop 2 (words_bytes (take ?M Buf)))"
      using M n True by (intro data_words_bytes) (simp add: min_absorb2)
    ultimately show ?thesis
      using True M by (simp add: call_frame_def words_bytes_take drop_take min_def)
  next
    case False
    then have N: "(len + 3) div 4 \<le> length Buf" "call_cmd call \<noteq> ETHERNET_TX_REQ_OFFSET2" "call_offset call = 0"
      using n by (cases call; simp)+
    have "drop 8 (call_bytes c call Buf len ifnum) = concat (map (rev \<circ> bytes_of_word) (take ((len + 3) div 4) Buf)) @ []"
      unfolding b using False by simp
    then have "request_words (call_cmd call) (call_bytes c call Buf len ifnum) = take ((len + 3) div 4) Buf"
      using data_words_items [of "take ((len + 3) div 4) Buf" "[]"] N wc c1 by (simp add: request_words_def)
    moreover have "len \<le> 4 * ((len + 3) div 4)" by simp
    ultimately show ?thesis using N(3) by (simp add: call_frame_def words_bytes_take min_def)
  qed
qed

subsection \<open>The queued frame\<close>

definition with_source :: "tx_server_args \<Rightarrow> byte list \<Rightarrow> byte list" where
  "with_source a bs = (if source_address_write a then take 6 bs @ tx_mac_addr a @ drop 12 bs else bs)"

lemma words_bytes_sourced:
  assumes "length (tx_mac_addr a) = 6" "12 \<le> 4 * length ws"
  shows "words_bytes (sourced a ws) = with_source a (words_bytes ws)"
proof -
  let ?g = "\<lambda>m. fold (\<lambda>j. set_byte (6 + j) (tx_mac_addr a ! j)) [0..<m] ws"
  have "m \<le> 6 \<Longrightarrow> length (?g m) = length ws \<and> (\<forall>k < 4 * length ws. words_bytes (?g m) ! k
      = (if 6 \<le> k \<and> k < 6 + m then tx_mac_addr a ! (k - 6) else words_bytes ws ! k))" for m
  proof (induction m)
    case (Suc m)
    then have m: "6 + m < 4 * length (?g m)" using assms(2) by simp
    show ?case
    proof (intro conjI allI impI)
      fix k
      assume "k < 4 * length ws"
      then show "words_bytes (?g (Suc m)) ! k
          = (if 6 \<le> k \<and> k < 6 + Suc m then tx_mac_addr a ! (k - 6) else words_bytes ws ! k)"
        using set_byte_bytes [OF m, of "tx_mac_addr a ! m"] Suc m by (cases "k = 6 + m") auto
    qed (use Suc in simp)
  qed auto
  from this [of 6] show ?thesis
    using assms by (intro nth_equalityI) (auto simp: sourced_def with_source_def nth_append)
qed

lemma take_with_source:
  "length (tx_mac_addr a) = 6 \<Longrightarrow> 12 \<le> len \<Longrightarrow> 12 \<le> length bs \<Longrightarrow>
     take len (with_source a bs) = with_source a (take len bs)"
  by (simp add: with_source_def take_drop min_def)

text \<open>
  A packet in a queue, as its readers see it: its length, the client that waits for its time, and
  its bytes; it is marked as filtered, nobody else uses it, and it is not to be forwarded.
\<close>

definition queued_frame ::
  "mac_config \<Rightarrow> ram \<Rightarrow> addr \<Rightarrow> addr \<Rightarrow> byte list \<Rightarrow> word32 \<Rightarrow> bool" where
  "queued_frame c s mp h frame tid \<longleftrightarrow>
     packet_room s mp h (Suc ((length frame + 3) div 4)) \<and> hdr_info s h = mp \<and>
     mii_packet_get_length s (buf_of_hdr h) = of_nat (length frame) \<and>
     take (length frame) (packet_bytes s (buf_of_hdr h) (length frame)) = frame \<and>
     mii_packet_get_timestamp_id s (buf_of_hdr h) = tid \<and> mii_packet_get_tcount s (buf_of_hdr h) = 0 \<and>
     mii_packet_get_stage s (buf_of_hdr h) = 1 \<and>
     (port_forwarding c \<longrightarrow> mii_packet_get_forwarding s (buf_of_hdr h) = 0)"

definition tx_ready :: "mac_config \<Rightarrow> tx_server_args \<Rightarrow> bool \<Rightarrow> ram \<Rightarrow> (nat \<Rightarrow> pool_queue) \<Rightarrow> bool" where
  "tx_ready c a hp s qs \<longleftrightarrow>
     ports_apart (num_ports c) (tx_pool a hp) s \<and> (\<forall>p < num_ports c. pool_inv s (tx_pool a hp p) (qs p)) \<and>
     length (tx_mac_addr a) = 6 \<and> 88 \<le> full_packet_size c hp"

lemma frame_queued:
  assumes len: "14 \<le> len" "len < 2 ^ 30" and n: "call_words call len \<le> length Buf"
    and fits: "48 + 4 * int ((len + 3) div 4) < full_packet_size c hp"
    and pend: "pendingCmd v ! i = Some (req_cmd (call_request c call Buf (of_nat len) ifnum))"
    and hp: "hp = (tx_hp_queue c \<and> tagged (call_frame call Buf len))"
    and ready: "tx_ready c a hp (w_ram w) qs"
    and room: "\<forall>p < num_ports c. port_ready c (w_ram w) (tx_pool a hp p) (full_packet_size c hp)"
  shows "\<exists>w'. serve_request c a i (call_bytes c call Buf len ifnum) (v, w) =
      ((v\<lparr>tx_enabled := (tx_enabled v)[i := False], pendingCmd := (pendingCmd v)[i := None]\<rparr>, w'), True) \<and>
    (\<forall>p < num_ports c. if for_port ifnum p
       then pool_inv (w_ram w') (tx_pool a hp p) (commit_spec (wrptr (pools (w_ram w) (tx_pool a hp p))) (qs p)) \<and>
         queued_frame c (w_ram w') (tx_pool a hp p) (wrptr (pools (w_ram w) (tx_pool a hp p)))
           (with_source a (call_frame call Buf len)) (sent_id i (call = Call_timed))
       else pool_inv (w_ram w') (tx_pool a hp p) (qs p))"
proof -
  let ?bs = "call_bytes c call Buf len ifnum" and ?frame = "call_frame call Buf len"
  define ws where "ws = request_words (call_cmd call) ?bs"
  note T = call_transaction [OF len(2) n, of c ifnum]
  have l: "length ws = (len + 3) div 4" using T(3) by (simp add: ws_def)
  have fl: "length (with_source a ?frame) = len"
    using len(1) n ready by (cases call) (auto simp: with_source_def call_frame_def tx_ready_def)
  have timed: "(call_cmd call = ETHERNET_TX_REQ_TIMED) = (call = Call_timed)" by (cases call) simp_all
  have q: "queued_frame c s mp (hdr_of_buf buf) (with_source a ?frame) tid \<and> pool_inv s mp (commit_spec (hdr_of_buf buf) q)"
    if s: "port_sent c s mp q (sourced a ws) (of_nat len) tid buf" for s mp q tid buf
  proof -
    have b: "buf_of_hdr (hdr_of_buf buf) = buf" by (simp add: buf_of_hdr_def hdr_of_buf_def)
    have "take len (packet_bytes s buf len) = take len (words_bytes (sourced a ws))"
      using s l by (simp add: packet_bytes_def words_bytes_def port_sent_def)
    also have "\<dots> = take len (with_source a (words_bytes ws))"
      using words_bytes_sourced [of a ws] ready len(1) l by (simp add: tx_ready_def)
    also have "\<dots> = with_source a (take len (words_bytes ws))"
      using ready len(1) l by (intro take_with_source) (auto simp: tx_ready_def)
    also have "\<dots> = with_source a ?frame" using T(4) by (simp add: ws_def)
    finally show ?thesis using s l by (simp add: queued_frame_def fl port_sent_def b)
  qed
  show ?thesis
  proof (rule serve_request_sent [where a = a and w = w and c = c and qs = qs and ws = ws and bs = ?bs and hp = hp and i = i, OF pend])
    show "tx_request_kind c (req_cmd (call_request c call Buf (of_nat len) ifnum)) = Some (call_cmd call, hp)"
      using call_kind [OF len(1) n] hp by simp
    show "ws = request_words (call_cmd call) ?bs" by (fact ws_def)
    have "3 \<le> (len + 3) div 4" using len(1) by presburger
    then show "source_address_write a \<longrightarrow> 3 \<le> length ws" using l by simp
    fix w'
    assume w': "serve_request c a i ?bs (v, w) =
        ((v\<lparr>tx_enabled := (tx_enabled v)[i := False], pendingCmd := (pendingCmd v)[i := None]\<rparr>, w'), True)"
      and p: "\<And>p. p < num_ports c \<Longrightarrow> if for_port (fst (input_word (drop 4 ?bs))) p
        then port_sent c (w_ram w') (tx_pool a hp p) (qs p) (sourced a ws) (fst (input_word ?bs))
               (sent_id i (call_cmd call = ETHERNET_TX_REQ_TIMED)) (buf_of_hdr (wrptr (pools (w_ram w) (tx_pool a hp p))))
        else pool_inv (w_ram w') (tx_pool a hp p) (qs p)"
    show ?thesis
    proof (intro exI conjI allI impI)
      show "serve_request c a i ?bs (v, w) =
        ((v\<lparr>tx_enabled := (tx_enabled v)[i := False], pendingCmd := (pendingCmd v)[i := None]\<rparr>, w'), True)" by (fact w')
      fix x
      assume "x < num_ports c"
      from p [OF this] show "if for_port ifnum x
       then pool_inv (w_ram w') (tx_pool a hp x) (commit_spec (wrptr (pools (w_ram w) (tx_pool a hp x))) (qs x)) \<and>
         queued_frame c (w_ram w') (tx_pool a hp x) (wrptr (pools (w_ram w) (tx_pool a hp x)))
           (with_source a (call_frame call Buf len)) (sent_id i (call = Call_timed))
       else pool_inv (w_ram w') (tx_pool a hp x) (qs x)"
        using q by (fastforce simp: T(1,2) timed split: if_splits)
    qed
  qed (use ready room fits l in \<open>auto simp: tx_ready_def\<close>)
qed

subsection \<open>On the wire\<close>

definition byte_bits :: "byte \<Rightarrow> bool list" where
  "byte_bits b = map (bit b) [0..<8]"

lemma word_bits_bytes: "k \<le> 4 \<Longrightarrow> word_bits (8 * k) w = concat (map byte_bits (take k (bytes_of_word w)))"
proof (induction k)
  case (Suc k)
  have "word_bits (8 * Suc k) w = word_bits (8 * k) w @ map (\<lambda>n. bit w (8 * k + n)) [0..<8]"
    using upt_add_eq_append [of 0 "8 * k" 8] by (simp add: word_bits_def add.commute flip: map_add_upt)
  moreover have "map (\<lambda>n. bit w (8 * k + n)) [0..<8] = byte_bits (word_byte w k)"
    by (simp add: byte_bits_def bit_word_byte)
  moreover have "take (Suc k) (bytes_of_word w) = take k (bytes_of_word w) @ [word_byte w k]"
  proof -
    have "k = 0 \<or> k = 1 \<or> k = 2 \<or> k = 3" using Suc.prems by auto
    then show ?thesis by (auto simp: bytes_of_word_4)
  qed
  ultimately show ?case using Suc by simp
qed (simp add: word_bits_def)

lemma words_bits_bytes: "concat (map (word_bits 32) ws) = concat (map byte_bits (words_bytes ws))"
  using word_bits_bytes [of 4] by (induction ws) (simp_all add: words_bytes_def)

lemma take_words_bytes:
  assumes "m < length ws" "k < 4"
  shows "take (4 * m + k) (words_bytes ws) = words_bytes (take m ws) @ take k (bytes_of_word (ws ! m))"
proof -
  have "ws = take m ws @ ws ! m # drop (Suc m) ws" by (rule id_take_nth_drop [OF assms(1)])
  then have "words_bytes ws = words_bytes (take m ws) @ bytes_of_word (ws ! m) @ words_bytes (drop (Suc m) ws)"
    unfolding words_bytes_def by (metis concat.simps(2) concat_append list.simps(9) map_append)
  moreover have "length (words_bytes (take m ws)) = 4 * m" using assms(1) by simp
  ultimately show ?thesis using assms(2) by simp
qed

lemma queued_frame_on_wire:
  assumes q: "queued_frame c s mp h frame tid" and len: "8 \<le> length frame" "length frame < 2 ^ 30"
    and tx: "mii_transmit_packet s (buf_of_hdr h) time = (outs, s')"
  shows "\<exists>fcs. wire_bits (drop 2 outs) = concat (map byte_bits frame) @ word_bits 32 fcs \<and>
    crc_bits (wire_bits (drop 2 outs)) crc_init = NOT 0"
proof -
  let ?len = "length frame" and ?m = "length frame div 4" and ?k = "length frame mod 4"
  let ?N = "(length frame + 3) div 4" and ?b = "buf_of_hdr h"
  let ?ws = "packet_words s ?b (Suc ?m)"
  have N: "?m \<le> ?N" "?N \<le> Suc ?m" "?len \<le> 4 * ?N" by presburger+
  have room: "packet_room s mp h (Suc ?m)" and info: "hdr_info s h = mp"
    and bytes: "take ?len (packet_bytes s ?b ?len) = frame"
    using q packet_room_mono [of s mp h "Suc ?N" "Suc ?m"] N by (auto simp: queued_frame_def)
  have "4 * int ?m + int ?k = int ?len" by (metis mult_div_mod_eq of_nat_add of_nat_mult of_nat_numeral)
  then have l: "mii_packet_get_length s ?b = word_of_int (4 * int ?m + int ?k)"
    by (simp only:) (use q in \<open>simp add: queued_frame_def\<close>)
  have m2: "2 \<le> ?m" "4 * ?m + 4 < 2 ^ 31" and k: "?k < 4" using len by auto
  obtain fcs where w: "wire_bits (drop 2 outs) = concat (map (word_bits 32) (packet_words s ?b ?m))
        @ word_bits (8 * ?k) (?ws ! ?m) @ word_bits 32 fcs"
    and crc: "crc_bits (wire_bits (drop 2 outs)) crc_init = NOT 0"
    using mii_transmit_packet_wire(1) [OF room info l k m2 tx] by blast
  have m: "packet_words s ?b j = take j ?ws" if "j \<le> Suc ?m" for j
    using that by (simp add: packet_words_def take_map del: upt_Suc)
  have "frame = take ?len (words_bytes (take ?N ?ws))"
    using bytes m [OF N(2)] by (simp add: packet_bytes_def words_bytes_def)
  also have "\<dots> = take (4 * ?m + ?k) (words_bytes ?ws)"
    using N(3) by (simp add: words_bytes_take min_absorb1)
  also have "\<dots> = words_bytes (take ?m ?ws) @ take ?k (bytes_of_word (?ws ! ?m))"
    by (rule take_words_bytes) (simp_all add: packet_words_def)
  finally have "concat (map byte_bits frame)
      = concat (map byte_bits (words_bytes (take ?m ?ws) @ take ?k (bytes_of_word (?ws ! ?m))))"
    by (rule arg_cong)
  then have "concat (map byte_bits frame) = concat (map (word_bits 32) (take ?m ?ws)) @ word_bits (8 * ?k) (?ws ! ?m)"
    using word_bits_bytes [of ?k "?ws ! ?m"] words_bits_bytes [of "take ?m ?ws"] k by simp
  then show ?thesis using w crc m [of ?m] by auto
qed

text \<open>C7: A frame that a client gives to \<open>mac_tx\<close>, \<open>mac_tx_timed\<close> or \<open>mac_tx_offset2\<close> is queued. When every
  port's pool has room, the server takes the client's bytes, in either of the two layouts, and each
  port the frame is for gets one packet at the end of its queue with exactly these bytes, the source
  address overwritten if the build asks for it, their number, and the client's number if it
  waits for the time; a tagged frame goes to the high priority pools. Without room the request
  stays noted and no queue changes.
\<close>

theorem tx_request_queued:
  assumes "14 \<le> len" "len < 2 ^ 30" "call_words call len \<le> length Buf"
    and "48 + 4 * int ((len + 3) div 4) < full_packet_size c hp"
    and "pendingCmd v ! i = Some (req_cmd (call_request c call Buf (of_nat len) ifnum))"
    and "hp = (tx_hp_queue c \<and> tagged (call_frame call Buf len))"
    and "tx_ready c a hp (w_ram w) qs"
  shows "if \<forall>p < num_ports c. port_ready c (w_ram w) (tx_pool a hp p) (full_packet_size c hp)
    then \<exists>w'. serve_request c a i (call_bytes c call Buf len ifnum) (v, w) =
        ((v\<lparr>tx_enabled := (tx_enabled v)[i := False], pendingCmd := (pendingCmd v)[i := None]\<rparr>, w'), True) \<and>
      (\<forall>p < num_ports c. if for_port ifnum p
         then pool_inv (w_ram w') (tx_pool a hp p) (commit_spec (wrptr (pools (w_ram w) (tx_pool a hp p))) (qs p)) \<and>
           queued_frame c (w_ram w') (tx_pool a hp p) (wrptr (pools (w_ram w) (tx_pool a hp p)))
             (with_source a (call_frame call Buf len)) (sent_id i (call = Call_timed))
         else pool_inv (w_ram w') (tx_pool a hp p) (qs p))
    else \<exists>w'. serve_request c a i (call_bytes c call Buf len ifnum) (v, w) = ((v, w'), False) \<and>
      (\<forall>p < num_ports c. pool_inv (w_ram w') (tx_pool a hp p) (qs p))"
proof (cases "\<forall>p < num_ports c. port_ready c (w_ram w) (tx_pool a hp p) (full_packet_size c hp)")
  case True
  then show ?thesis using frame_queued [OF assms True] by simp
next
  case False
  then obtain p where p: "p < num_ports c" "\<not> port_ready c (w_ram w) (tx_pool a hp p) (full_packet_size c hp)" by blast
  have k: "tx_request_kind c (req_cmd (call_request c call Buf (of_nat len) ifnum)) = Some (call_cmd call, hp)"
    using call_kind [OF assms(1,3)] assms(6) by simp
  have "\<exists>w'. serve_request c a i (call_bytes c call Buf len ifnum) (v, w) = ((v, w'), False) \<and>
      (\<forall>p < num_ports c. pool_inv (w_ram w') (tx_pool a hp p) (qs p))"
    by (rule serve_request_waits [where a = a and w = w and qs = qs and bs = "call_bytes c call Buf len ifnum", OF assms(5) k])
      (use assms(7) p in \<open>auto simp: tx_ready_def\<close>)
  then show ?thesis unfolding if_not_P [OF False] .
qed

text \<open>C5: From the client to the wire. The packet that a client's call leaves in the queue of a port, when
  the transmit thread sends it, puts the bits of the client's frame on the wire after the
  preamble, byte by byte and least significant bit first, followed by a checksum that takes
  the receiver's register to all ones.
\<close>

theorem client_frame_on_wire:
  assumes "14 \<le> len" "len < 2 ^ 30" "call_words call len \<le> length Buf"
    and "48 + 4 * int ((len + 3) div 4) < full_packet_size c hp"
    and "pendingCmd v ! i = Some (req_cmd (call_request c call Buf (of_nat len) ifnum))"
    and "hp = (tx_hp_queue c \<and> tagged (call_frame call Buf len))"
    and "tx_ready c a hp (w_ram w) qs"
    and "\<forall>p < num_ports c. port_ready c (w_ram w) (tx_pool a hp p) (full_packet_size c hp)"
    and "serve_request c a i (call_bytes c call Buf len ifnum) (v, w) = ((v', w'), ok)"
    and "p < num_ports c" "for_port ifnum p"
    and "mii_transmit_packet (w_ram w') (buf_of_hdr (wrptr (pools (w_ram w) (tx_pool a hp p)))) time = (outs, s')"
  shows "\<exists>fcs. wire_bits (drop 2 outs)
      = concat (map byte_bits (with_source a (call_frame call Buf len))) @ word_bits 32 fcs \<and>
    crc_bits (wire_bits (drop 2 outs)) crc_init = NOT 0"
proof -
  have q: "queued_frame c (w_ram w') (tx_pool a hp p) (wrptr (pools (w_ram w) (tx_pool a hp p)))
      (with_source a (call_frame call Buf len)) (sent_id i (call = Call_timed))"
    using frame_queued [OF assms(1-8)] assms(9-11) by auto
  have "length (with_source a (call_frame call Buf len)) = len"
    using assms(1,3,7) by (cases call) (auto simp: with_source_def call_frame_def tx_ready_def)
  then show ?thesis using queued_frame_on_wire [OF q _ _ assms(12)] assms(1,2) by simp
qed

text \<open>A frame of 60 bytes for port 0 in an empty pool, with the time wanted.\<close>

definition example_args :: tx_server_args where
  "example_args =
     \<lparr>tx_mem_hp_of = [], tx_mem_lp_of = [1024], tx_mac_addr = [2, 0, 0, 0, 0, 1],
      source_address_write = True, avb_mac = False, num_tx = 1\<rparr>"

definition example_tx :: "ethernet_protocol_t \<Rightarrow> tx_server" where
  "example_tx cmd = \<lparr>tx_enabled = [True], pendingCmd = [Some cmd], idle_slopes = (\<lambda>_. 0), linkCheckTime = 0\<rparr>"

definition example_work :: "int \<Rightarrow> tx_work" where
  "example_work bytes =
     \<lparr>w_ram = mii_init_mempool example_ram 1024 bytes, w_buf = (\<lambda>_. 0), w_dptr = (\<lambda>_. 0), w_ok = True\<rparr>"

definition example_words :: "word32 list" where
  "example_words = map word_of_nat [0..<15]"

lemma example_tx_ready:
  "tx_ready default_config example_args False (w_ram (example_work 4096)) (\<lambda>_. [])"
  "\<forall>p < num_ports default_config. port_ready default_config (w_ram (example_work 4096)) (tx_pool example_args False p)
     (full_packet_size default_config False)"
proof -
  have n: "num_ports default_config = 1" by (simp add: default_config_def)
  have p: "tx_pool example_args False 0 = 1024" by (simp add: tx_pool_def example_args_def)
  have "pool_inv (w_ram (example_work 4096)) 1024 []"
    unfolding example_work_def by simp (rule mii_init_mempool_inv; simp)
  then show "tx_ready default_config example_args False (w_ram (example_work 4096)) (\<lambda>_. [])"
    by (simp add: tx_ready_def n p ports_apart_def)
      (simp add: example_args_def full_packet_size_def MII_MALLOC_FULL_PACKET_SIZE_LP_def
        MII_PACKET_HEADER_SIZE_40 default_config_def)
  have "port_ready default_config (w_ram (example_work 4096)) 1024 (full_packet_size default_config False)"
    by code_simp
  then show "\<forall>p < num_ports default_config. port_ready default_config (w_ram (example_work 4096))
      (tx_pool example_args False p) (full_packet_size default_config False)"
    by (simp add: n p)
qed

lemma example_request:
  "call_words Call_timed 60 \<le> length example_words"
  "48 + 4 * int ((60 + 3) div 4) < full_packet_size default_config False"
  "pendingCmd (example_tx ETHERNET_TX_REQ_TIMED) ! 0
     = Some (req_cmd (call_request default_config Call_timed example_words (of_nat 60) 0))"
  "False = (tx_hp_queue default_config \<and> tagged (call_frame Call_timed example_words 60))"
  "for_port 0 0"
  by code_simp+

theorem tx_request_queued_witness:
  "\<exists>s. pool_inv s 1024 [(1044, False)] \<and>
     queued_frame default_config s 1024 1044 (with_source example_args (call_frame Call_timed example_words 60)) 1"
proof -
  have w: "wrptr (pools (w_ram (example_work 4096)) 1024) = 1044" by code_simp
  have p: "tx_pool example_args False 0 = 1024" by (simp add: tx_pool_def example_args_def)
  have n: "(0::nat) < num_ports default_config" by (simp add: default_config_def)
  have l: "14 \<le> (60::nat)" "(60::nat) < 2 ^ 30" by simp_all
  obtain w' :: tx_work where "\<forall>p < num_ports default_config. if for_port 0 p
      then pool_inv (w_ram w') (tx_pool example_args False p)
             (commit_spec (wrptr (pools (w_ram (example_work 4096)) (tx_pool example_args False p))) []) \<and>
           queued_frame default_config (w_ram w') (tx_pool example_args False p)
             (wrptr (pools (w_ram (example_work 4096)) (tx_pool example_args False p)))
             (with_source example_args (call_frame Call_timed example_words 60)) (sent_id 0 (Call_timed = Call_timed))
      else pool_inv (w_ram w') (tx_pool example_args False p) []"
    using tx_request_queued [OF l example_request(1-4) example_tx_ready(1)]
    unfolding if_P [OF example_tx_ready(2)] by blast
  from this [rule_format, OF n, unfolded if_P [OF example_request(5)] p w]
  show ?thesis by (auto simp: commit_spec_def sent_id_def)
qed

theorem client_frame_on_wire_witness:
  "\<exists>outs fcs. wire_bits (drop 2 outs)
      = concat (map byte_bits (with_source example_args (call_frame Call_timed example_words 60))) @ word_bits 32 fcs \<and>
    crc_bits (wire_bits (drop 2 outs)) crc_init = NOT 0"
proof -
  have n: "(0::nat) < num_ports default_config" by (simp add: default_config_def)
  obtain v' w' ok where s: "serve_request default_config example_args 0
      (call_bytes default_config Call_timed example_words 60 0) (example_tx ETHERNET_TX_REQ_TIMED, example_work 4096)
      = ((v', w'), ok)" by (metis prod.exhaust)
  obtain outs s' where t: "mii_transmit_packet (w_ram w')
      (buf_of_hdr (wrptr (pools (w_ram (example_work 4096)) (tx_pool example_args False 0)))) 7 = (outs, s')"
    by (metis prod.exhaust)
  have l: "14 \<le> (60::nat)" "(60::nat) < 2 ^ 30" by simp_all
  from client_frame_on_wire [OF l example_request(1-4) example_tx_ready s n example_request(5) t]
  show ?thesis by blast
qed

subsection \<open>The time of a sent frame\<close>

text \<open>C16: A client that asked for the time gets it. Once the transmit thread has sent a frame with a
  client's number, it leaves the packet in the queue of times; the server's next look at that queue
  sends that client, and nobody else, the time at which the frame was sent plus the offset of the
  PHY, and frees the packet.
\<close>

theorem timed_frame_reply:
  assumes "queued_frame c s mp h frame (sent_id i True)" "i + 1 < 2 ^ 32"
    and "pool_inv s mp q" "(h, False) \<in> set q"
    and "mii_transmit_packet s (buf_of_hdr h) time = (outs, s1)"
    and "ts_queue_inv c tsq" "ts_queue_list tsq = []" "1 < MAC_MAX_ENTRIES c"
  shows "\<exists>s2 tsq2 l2. tx_done c a high eof_time s1 tsq l (buf_of_hdr h) = Some (s2, tsq2, l2) \<and>
    (\<exists>tsq3 s3. reply_timestamp c tsq2 s2 = Some (tsq3, s3, [(i, chan_out.Out_word (time + ETHERNET_TX_PHY_TIMER_OFFSET))]) \<and>
      pool_inv s3 mp (free_spec h q) \<and> ts_queue_list tsq3 = [])"
proof -
  let ?b = "buf_of_hdr h"
  have hq: "h \<in> fst ` set q" using assms(4) by force
  have s1: "s1 = mii_packet_set_timestamp s ?b time"
    using assms(5) by (auto simp: mii_transmit_packet_def Let_def split: prod.splits)
  define s2 where "s2 = mii_packet_set_stage (if mii_packet_get_forwarding s1 ?b \<noteq> 0
    then mii_packet_set_forwarding s1 ?b 0 else s1) ?b 2"
  have g: "mii_packet_get_timestamp s2 ?b = time" "mii_packet_get_timestamp_id s2 ?b = of_nat (i + 1)"
    "mii_packet_get_tcount s2 ?b = 0"
    using assms(1) by (simp_all add: s2_def s1 queued_frame_def sent_id_def)
  have nz: "(of_nat (i + 1) :: word32) \<noteq> 0" and u: "unat (of_nat (i + 1) :: word32) = i + 1"
    using assms(2) by (simp_all only: unat_of_nat take_bit_nat_eq_self word_unat_eq_iff) (simp_all add: take_bit_nat_eq_self unat_of_nat)
  have d: "\<exists>l2. tx_done c a high eof_time s1 tsq l ?b = Some (s2, add_ts_queue_entry c tsq ?b, l2)"
    using assms(1) nz
    by (simp add: tx_done_def Let_def get_and_dec_transmit_count_def mii_packet_get_and_clear_forwarding_def
        queued_frame_def sent_id_def s1 s2_def)
  have i2: "pool_inv s2 mp q"
    using assms(3) field_pool_inv [OF _ hq] by (simp add: s2_def s1)
  have "ts_queue_list (add_ts_queue_entry c tsq ?b) = [?b]"
    using add_ts_queue_entry_list [OF assms(6)] assms(7,8) by simp
  then obtain tsq3 where t3: "get_ts_queue_entry c (add_ts_queue_entry c tsq ?b) = (?b, tsq3)" "ts_queue_list tsq3 = []"
    using get_ts_queue_entry_head [OF add_ts_queue_entry_inv [OF assms(6)]] by blast
  obtain s3 where s3: "mii_free s2 ?b = Some s3" "pool_inv s3 mp (free_spec h q)"
    using mii_free_refines [OF i2 hq] by blast
  have "?b \<noteq> 0"
    using pool_wf_slot [OF pool_inv_wf [OF i2] hq] pool_wf_shape [OF pool_inv_wf [OF i2]]
    by (auto simp: slot_ok_def pool_shape_def buf_of_hdr_def sizeof_malloc_hdr_def sizeof_mempool_info_def)
  then have "reply_timestamp c (add_ts_queue_entry c tsq ?b) s2
      = Some (tsq3, s3, [(i, chan_out.Out_word (time + ETHERNET_TX_PHY_TIMER_OFFSET))])"
    using g t3 s3(1) u by (simp add: reply_timestamp_def Let_def get_and_dec_transmit_count_def)
  then show ?thesis using d s3(2) t3(2) by blast
qed

lemma example_queued:
  obtains s where "pool_inv s 1024 [(1044, False)]"
    "queued_frame default_config s 1024 1044 (with_source example_args (call_frame Call_timed example_words 60)) (sent_id 0 True)"
proof -
  have w: "wrptr (pools (w_ram (example_work 4096)) 1024) = 1044" by code_simp
  have p: "tx_pool example_args False 0 = 1024" by (simp add: tx_pool_def example_args_def)
  have n: "(0::nat) < num_ports default_config" by (simp add: default_config_def)
  have l: "14 \<le> (60::nat)" "(60::nat) < 2 ^ 30" by simp_all
  obtain w' :: tx_work where "if for_port 0 0
      then pool_inv (w_ram w') 1024 (commit_spec 1044 []) \<and>
           queued_frame default_config (w_ram w') 1024 1044
             (with_source example_args (call_frame Call_timed example_words 60)) (sent_id 0 (Call_timed = Call_timed))
      else pool_inv (w_ram w') 1024 []"
    using frame_queued [OF l example_request(1-4) example_tx_ready] n p w by metis
  then show thesis using that example_request(5) by (auto simp: commit_spec_def)
qed

definition example_ts_queue :: mii_ts_queue_t where
  "example_ts_queue = \<lparr>ts_lock = 0, rdIndex = 0, wrIndex = 0, fifo = [0, 0, 0, 0, 0, 0]\<rparr>"

theorem timed_frame_reply_witness:
  "\<exists>s tsq tsq' s'. reply_timestamp default_config tsq s
     = Some (tsq', s', [(0, chan_out.Out_word (100 + ETHERNET_TX_PHY_TIMER_OFFSET))]) \<and> pool_inv s' 1024 []"
proof -
  obtain s where s: "pool_inv s 1024 [(1044, False)]"
    "queued_frame default_config s 1024 1044 (with_source example_args (call_frame Call_timed example_words 60)) (sent_id 0 True)"
    by (rule example_queued)
  obtain outs s1 where t: "mii_transmit_packet s (buf_of_hdr 1044) 100 = (outs, s1)" by (metis prod.exhaust)
  have q: "ts_queue_inv default_config example_ts_queue" "ts_queue_list example_ts_queue = []"
    "1 < MAC_MAX_ENTRIES default_config" by code_simp+
  have i: "(0::nat) + 1 < 2 ^ 32" "(1044, False) \<in> set [(1044::addr, False)]" by simp_all
  have e: "free_spec 1044 [(1044, False)] = []" by code_simp
  show ?thesis
    using timed_frame_reply [OF s(2) i(1) s(1) i(2) t q, where high = True and eof_time = 0] unfolding e by blast
qed

subsection \<open>A frame that fills the pool exactly\<close>

text \<open>
  The reservation accepts a frame that leaves no space at all. The commit then puts the write pointer
  on the read pointer, and the pool looks empty: the frame and every packet before it are lost.
\<close>

lemma exact_fit_empties:
  assumes inv: "pool_inv s mp q" and i: "hdr_info s (wrptr (pools s mp)) = mp"
    and n: "48 + 4 * int n = free_bytes (pools s mp)"
    and c: "mii_commit c s (buf_of_hdr (wrptr (pools s mp))) (data_addr (pools s mp) (buf_of_hdr (wrptr (pools s mp))) n) = (r, s')"
  shows "r = 1 \<and> mii_get_next_buf s' mp = 0"
proof -
  have e: "data_addr (pools s mp) (buf_of_hdr (wrptr (pools s mp))) n = rdptr (pools s mp)"
    using data_addr_rdptr [OF pool_inv_wf [OF inv]] n by simp
  have "\<not> to_unsigned (pool_end (pools s mp) - rdptr (pools s mp)) < 88"
    using pool_wf_rd_slot [OF pool_inv_wf [OF inv]] pool_wf_shape [OF pool_inv_wf [OF inv]]
    by (auto simp: slot_ok_def pool_shape_def sizeof_mempool_info_def to_unsigned_id)
  then show ?thesis
    using c i by (auto simp: e mii_commit_def Let_def mii_get_next_buf_def split: if_splits)
qed

text \<open>
  It happens in a pool of the default size: after frames of 60, 1518 and 888 bytes, of which the first is
  sent, there are 1568 bytes left, which is what a frame of 1518 bytes takes.
\<close>

declare mii_free_loop.simps [code]

definition example_commit :: "addr \<Rightarrow> ram \<Rightarrow> ram" where
  "example_commit e s =
     (let (buf, s) = mii_reserve_at_least default_config s 1024 (full_packet_size default_config False)
      in snd (mii_commit default_config s buf e))"

definition example_almost_full :: ram where
  "example_almost_full =
     (let s = example_commit 3656 (example_commit 2720 (example_commit 1152 (mii_init_mempool example_ram 1024 4096)))
      in snd (mii_reserve_at_least default_config (the (mii_free s 1052)) 1024 (full_packet_size default_config False)))"

lemma exact_fit_example:
  "pool_inv example_almost_full 1024 [(1152, False), (2720, False)]"
  "port_ready default_config example_almost_full 1024 (full_packet_size default_config False)"
  "hdr_info example_almost_full (wrptr (pools example_almost_full 1024)) = 1024"
  "48 + 4 * int ((1518 + 3) div 4) = free_bytes (pools example_almost_full 1024)"
  by code_simp+

end
