(* ===== verification/Lite_Transmit.thy ===== *)
theory Lite_Transmit
  imports Tx_Delivery
begin

text \<open>
  Sending with the lite implementation: \<open>mac_tx_lite\<close> of \<open>mii_client_lite.xc\<close>, the transmit case of
  \<open>mii_single_server.xc\<close>, \<open>mii_out_packet\<close> of \<open>mii_client_user.xc\<close> and the \<open>OUT\<close> coroutine of
  \<open>mii_lld.S\<close>, from the call of the client to the bits on the wire. The server's stack is a map from
  addresses to words with the array \<open>txbuf\<close> of 400 words at \<open>b\<close>.
\<close>

type_synonym tx_mem = "addr \<Rightarrow> word32"

subsection \<open>Client and server\<close>

text \<open>\<open>(n + 3) >> 2\<close> of an \<open>int\<close>; an index out of the bounds of an array is an exception, \<open>None\<close>.\<close>

definition lite_words :: "word32 \<Rightarrow> nat" where
  "lite_words nBytes = nat (sint (nBytes + 3) div 4)"

definition mac_tx_lite :: "word32 list \<Rightarrow> word32 \<Rightarrow> word32 list option" where
  "mac_tx_lite buffer nBytes =
     (let n = lite_words nBytes in if n \<le> length buffer then Some (nBytes # take n buffer) else None)"

definition txbuf_words :: nat where
  "txbuf_words = 400"

text \<open>The server's loop: what comes from the client goes into the array.\<close>

definition receive_words :: "addr \<Rightarrow> word32 list \<Rightarrow> tx_mem \<Rightarrow> tx_mem" where
  "receive_words b ws m = fold (\<lambda>i m. m(b + 4 * int i := ws ! i)) [0..<length ws] m"

definition lite_accept :: "addr \<Rightarrow> word32 list \<Rightarrow> tx_mem \<Rightarrow> (word32 \<times> tx_mem) option" where
  "lite_accept b ts m =
     (let outBytes = hd ts; n = lite_words outBytes
      in if n \<le> txbuf_words then Some (outBytes, receive_words b (take n (tl ts)) m) else None)"

subsection \<open>The packet for the driver\<close>

text \<open>
  The words behind the packet tell the driver how to send it: the last bytes, the address of the
  code for their number, and the negative index of the first word. \<open>tailValues\<close> holds the addresses
  that the linker gives to the four labels. The result has the pointer that is sent to the driver
  and the time at which the destination address leaves.
\<close>

definition mii_out_packet ::
  "(nat \<Rightarrow> word32) \<Rightarrow> addr \<Rightarrow> word32 \<Rightarrow> word32 \<Rightarrow> tx_mem \<Rightarrow> tx_mem \<times> addr \<times> word32" where
  "mii_out_packet tailValues b len precise m =
     (let oddBytes = unat (len AND 3);
          roundedLength = sint len div 4;
          at = (\<lambda>i. b + 4 * i);
          m = m(at (roundedLength + 1) := tailValues oddBytes);
          m = m(at roundedLength := m (at roundedLength) AND (push_bit (8 * oddBytes) 1 - 1));
          m = m(at (roundedLength + 2) := word_of_int (- roundedLength + 1))
      in (m, b + sint len - int oddBytes - 4, precise + 64))"

text \<open>\<open>mii_out_packet_\<close>, the variant with an address, which reads the word before it writes it.\<close>

definition mii_out_packet_addr ::
  "(nat \<Rightarrow> word32) \<Rightarrow> addr \<Rightarrow> word32 \<Rightarrow> word32 \<Rightarrow> tx_mem \<Rightarrow> tx_mem \<times> addr \<times> word32" where
  "mii_out_packet_addr tailValues a len precise m =
     (let oddBytes = unat (len AND 3);
          roundedLength = sint len div 4;
          m = m(a + 4 * (roundedLength + 1) := tailValues oddBytes);
          x = m (a + 4 * roundedLength);
          m = m(a + 4 * roundedLength := x AND (push_bit (8 * oddBytes) 1 - 1));
          m = m(a + 4 * (roundedLength + 2) := word_of_int (- roundedLength + 1))
      in (m, a + sint len - int oddBytes - 4, precise + 64))"

subsection \<open>The driver\<close>

text \<open>
  The loop at \<open>outPacket\<close>: \<open>r7\<close> is the address of the last whole word and \<open>r8\<close> the index of the next
  word from there, tested after it was increased. An index that starts above 0 never gets to 0
  in range of the memory.
\<close>

partial_function (option) out_packet ::
  "tx_mem \<Rightarrow> addr \<Rightarrow> int \<Rightarrow> word32 \<Rightarrow> (tx_out list \<times> word32) option" where
  "out_packet m r7 r8 r9 =
     (let r5 = m (r7 + 4 * r8);
          r8 = r8 + 1;
          r9 = crc32 r9 r5
      in if r8 \<noteq> 0
         then Option.bind (out_packet m r7 r8 r9) (\<lambda>(outs, r9). Some (Out_word r5 # outs, r9))
         else Some ([Out_word r5], r9))"

text \<open>
  The code at \<open>Tail0\<close> to \<open>Tail3\<close>: the checksum of the left over bytes, and their output together with
  the inverted checksum.
\<close>

definition out_tail :: "nat \<Rightarrow> word32 \<Rightarrow> word32 \<Rightarrow> tx_out list" where
  "out_tail k r9 r7 =
     (let (r9, r8) = (if k = 0 then (r9, 0) else crc_tail k (r9, r7));
          r9 = NOT (crc32 r9 r8)
      in if k = 0 then [Out_word r9]
         else if k = 1 then [Out_word (r7 OR push_bit 8 r9), Out_part 8 (drop_bit 24 r9)]
         else if k = 2 then [Out_word (r7 OR push_bit 16 r9), Out_part 16 (drop_bit 16 r9)]
         else [Out_part 24 r7, Out_word r9])"

text \<open>The label at an address, and the coroutine from the pointer to the end of the frame.\<close>

definition label_at :: "(nat \<Rightarrow> word32) \<Rightarrow> word32 \<Rightarrow> nat option" where
  "label_at tailValues r5 = List.find (\<lambda>k. tailValues k = r5) [0..<4]"

definition lld_out :: "(nat \<Rightarrow> word32) \<Rightarrow> tx_mem \<Rightarrow> addr \<Rightarrow> tx_out list option" where
  "lld_out tailValues m r7 =
     (let r8 = sint (m (r7 + 12));
          first = m (r7 + 4 * r8);
          r8 = r8 + 1;
          r9 = crc32 crc_init first
      in (case out_packet m r7 r8 r9 of None \<Rightarrow> None
          | Some (outs, r9) \<Rightarrow>
              let lst = m r7; r9 = crc32 r9 lst
              in map_option (\<lambda>k. [Out_word 0x55555555, Out_word 0xD5555555, Out_word first] @ outs @
                     [Out_word lst] @ out_tail k r9 (m (r7 + 4)))
                   (label_at tailValues (m (r7 + 8)))))"

text \<open>The transmit case of the server with the driver: the server's memory and the output of the port.\<close>

definition lite_transmit ::
  "(nat \<Rightarrow> word32) \<Rightarrow> addr \<Rightarrow> word32 list \<Rightarrow> word32 \<Rightarrow> tx_mem \<Rightarrow> (tx_mem \<times> tx_out list) option" where
  "lite_transmit tailValues b ts precise m =
     (case lite_accept b ts m of None \<Rightarrow> None
      | Some (outBytes, m) \<Rightarrow>
          let (m, r7, time) = mii_out_packet tailValues b outBytes precise m
          in map_option (Pair m) (lld_out tailValues m r7))"

subsection \<open>The two variants\<close>

lemma mii_out_packet_same: "mii_out_packet_addr tailValues b len precise m = mii_out_packet tailValues b len precise m"
  by (simp add: mii_out_packet_addr_def mii_out_packet_def Let_def)

subsection \<open>The bits\<close>

lemma out_packet_words:
  "out_packet m r7 (- int (Suc n)) r9 =
     Some (map (\<lambda>i. Out_word (m (r7 - 4 * int (Suc n) + 4 * int i))) [0..<Suc n],
           fold (\<lambda>w r. crc32 r w) (map (\<lambda>i. m (r7 - 4 * int (Suc n) + 4 * int i)) [0..<Suc n]) r9)"
proof (induction n arbitrary: r9)
  case 0
  then show ?case by (simp add: out_packet.simps [of _ _ "- 1"] Let_def)
next
  case (Suc n)
  let ?a = "\<lambda>i. m (r7 - 4 * int (Suc (Suc n)) + 4 * int i)"
  have s: "m (r7 - 4 * int (Suc n) + 4 * int i) = ?a (Suc i)" for i by (simp add: algebra_simps)
  have u: "map f [0..<Suc (Suc n)] = f 0 # map (\<lambda>i. f (Suc i)) [0..<Suc n]" for f :: "nat \<Rightarrow> 'a"
    by (simp add: map_upt_Suc del: upt_Suc)
  have "out_packet m r7 (- int (Suc (Suc n))) r9 =
      Option.bind (out_packet m r7 (- int (Suc n)) (crc32 r9 (?a 0)))
        (\<lambda>(outs, r9). Some (Out_word (?a 0) # outs, r9))"
    by (subst out_packet.simps) (simp add: Let_def algebra_simps)
  then show ?case
    unfolding Suc.IH s u by simp
qed

text \<open>A masked word has no bits above its bytes, so the checksum can be put there.\<close>

lemma word_bits_or:
  assumes "a + n \<le> 32" "\<And>i. a \<le> i \<Longrightarrow> \<not> bit t i"
  shows "word_bits (a + n) (t OR push_bit a c) = word_bits a t @ word_bits n (c :: word32)"
proof (rule nth_equalityI)
  show "length (word_bits (a + n) (t OR push_bit a c)) = length (word_bits a t @ word_bits n c)" by simp
  fix i assume "i < length (word_bits (a + n) (t OR push_bit a c))"
  then show "word_bits (a + n) (t OR push_bit a c) ! i = (word_bits a t @ word_bits n c) ! i"
    using assms by (auto simp: word_bits_def nth_append bit_simps)
qed

lemma crc_tail_rest: "snd (crc_tail n (r, t)) = drop_bit (8 * n) t"
  by (induction n arbitrary: r t) (simp_all add: crc8shr_def add.commute)

lemma out_tail_bits:
  assumes k: "k < 4" and t: "\<And>i. 8 * k \<le> i \<Longrightarrow> \<not> bit t i"
  shows "wire_bits (out_tail k r t) =
     word_bits (8 * k) t @ word_bits 32 (crc32 (crc_bits (word_bits (8 * k) t) r) (NOT 0))"
proof -
  let ?fcs = "crc32 (crc_bits (word_bits (8 * k) t) r) (NOT 0)"
  have z: "snd (crc_tail k (r, t)) = 0"
    unfolding crc_tail_rest using t by (intro bit_eqI) (simp add: bit_drop_bit_eq)
  obtain c where c: "crc_tail k (r, t) = (crc_bits (word_bits (8 * k) t) r, 0)"
    using z crc_tail_bits [of k r t] by (metis prod.collapse)
  have n: "NOT (crc32 x 0) = crc32 x (NOT 0)" for x
    using crc32_split [of x "NOT 0"] by simp
  have s: "word_bits 32 c = word_bits m c @ word_bits (32 - m) (drop_bit m c)" if "m \<le> 32" for m c
    using word_bits_split [of m "32 - m" c] that by simp
  consider "k = 0" | "k = 1" | "k = 2" | "k = 3" using k by linarith
  then show ?thesis
  proof cases
    case 1
    then show ?thesis by (simp add: out_tail_def wire_bits_def n word_bits_def [of 0])
  next
    case 2
    then show ?thesis
      using word_bits_or [of 8 24 t ?fcs] t s [of 24 ?fcs]
      unfolding out_tail_def c by (simp add: n wire_bits_def Let_def)
  next
    case 3
    then show ?thesis
      using word_bits_or [of 16 16 t ?fcs] t s [of 16 ?fcs]
      unfolding out_tail_def c by (simp add: n wire_bits_def Let_def)
  next
    case 4
    then show ?thesis unfolding out_tail_def c by (simp add: n wire_bits_def Let_def)
  qed
qed

subsection \<open>The server's memory\<close>

lemma receive_words_at:
  "receive_words b ws m x =
     (if \<exists>i < length ws. x = b + 4 * int i then ws ! nat ((x - b) div 4) else m x)"
proof -
  have "fold (\<lambda>i m. m(b + 4 * int i := ws ! i)) [0..<n] m x =
      (if \<exists>i < n. x = b + 4 * int i then ws ! nat ((x - b) div 4) else m x)" for n
    by (induction n) (auto simp: less_Suc_eq)
  then show ?thesis by (simp add: receive_words_def)
qed

lemma out_length:
  fixes len :: word32
  assumes "len = of_nat L" "L < 2 ^ 30"
  shows "sint len = int L" "unat (len AND 3) = L mod 4" "lite_words len = (L + 3) div 4"
proof -
  have l: "len = word_of_int (int L)" by (simp add: assms(1))
  show "sint len = int L" unfolding l using assms(2) by (intro sint_of_ptr) simp_all
  have "unat len = L" using assms by (simp add: unat_of_nat take_bit_nat_eq_self)
  then show "unat (len AND 3) = L mod 4" by (simp add: word_and_3)
  have "len + 3 = word_of_int (int (L + 3))" by (simp add: assms(1))
  moreover have "sint (word_of_int (int (L + 3)) :: word32) = int (L + 3)"
    using assms(2) by (intro sint_of_ptr) simp_all
  ultimately have "sint (len + 3) = int (L + 3)" by simp
  moreover have "nat (int (L + 3) div 4) = (L + 3) div 4"
    using zdiv_int [of "L + 3" 4] by (metis nat_int of_nat_numeral)
  ultimately show "lite_words len = (L + 3) div 4" by (simp only: lite_words_def)
qed

text \<open>What the driver reads of the packet that the server prepared.\<close>

lemma mii_out_packet_reads:
  assumes m': "mii_out_packet tails b len precise m = (m', r7, time)"
    and len: "len = of_nat (4 * r + k)" "k < 4" "4 * r + k < 2 ^ 30"
  shows "r7 = b + 4 * int r - 4" "m' (r7 + 8) = tails k" "m' (r7 + 12) = word_of_int (1 - int r)"
    "m' (r7 + 4) = m (b + 4 * int r) AND (push_bit (8 * k) 1 - 1)"
    "i < r \<Longrightarrow> m' (b + 4 * int i) = m (b + 4 * int i)"
    "x < b \<or> b + 4 * int r + 12 \<le> x \<Longrightarrow> m' x = m x"
proof -
  note l = out_length [OF len(1,3)]
  have e: "m' = m(b + 4 * (int r + 1) := tails k,
      b + 4 * int r := m (b + 4 * int r) AND (push_bit (8 * k) 1 - 1), b + 4 * (int r + 2) := word_of_int (1 - int r))"
    and r7: "r7 = b + (4 * int r + int k) - int k - 4"
    using m' len(2) by (auto simp: mii_out_packet_def Let_def l)
  show p: "r7 = b + 4 * int r - 4" using r7 by simp
  show "m' (r7 + 8) = tails k" "m' (r7 + 12) = word_of_int (1 - int r)"
    "m' (r7 + 4) = m (b + 4 * int r) AND (push_bit (8 * k) 1 - 1)"
    "i < r \<Longrightarrow> m' (b + 4 * int i) = m (b + 4 * int i)"
    "x < b \<or> b + 4 * int r + 12 \<le> x \<Longrightarrow> m' x = m x"
    by (auto simp: e p)
qed

lemma label_at_label:
  assumes "inj_on tails {..<4}" "k < 4"
  shows "label_at tails (tails k) = Some k"
proof -
  have d: "i < 4 \<Longrightarrow> tails i = tails k \<longleftrightarrow> i = k" for i
    using inj_onD [OF assms(1), of i k] assms(2) by auto
  have u: "[0..<4] = [0, 1, 2, 3]" by code_simp
  consider "k = 0" | "k = 1" | "k = 2" | "k = 3" using assms(2) by linarith
  then show ?thesis
    by cases (use d [of 0] d [of 1] d [of 2] d [of 3] in \<open>auto simp: label_at_def u\<close>)
qed

lemma lld_out_bits:
  assumes inj: "inj_on tails {..<4}" and k: "k < 4" and r: "3 \<le> r" "r < 2 ^ 29"
    and m: "m (r7 + 8) = tails k" "m (r7 + 12) = word_of_int (1 - int r)" "r7 = b + 4 * int r - 4"
    and t: "\<And>i. 8 * k \<le> i \<Longrightarrow> \<not> bit (m (r7 + 4)) i"
    and ws: "ws = map (\<lambda>i. m (b + 4 * int i)) [0..<r]"
  shows "\<exists>outs fcs. lld_out tails m r7 = Some outs \<and> take 2 outs = [Out_word 0x55555555, Out_word 0xD5555555] \<and>
    wire_bits (drop 2 outs) =
      concat (map (word_bits 32) ws) @ word_bits (8 * k) (m (r7 + 4)) @ word_bits 32 fcs \<and>
    crc_bits (wire_bits (drop 2 outs)) crc_init = NOT 0"
proof -
  obtain n where "r = 3 + n" using r(1) le_Suc_ex by blast
  then have n: "r = Suc (Suc (Suc n))" by simp
  let ?mid = "map (\<lambda>i. m (b + 4 + 4 * int i)) [0..<Suc n]"
  let ?t = "m (r7 + 4)" and ?lst = "m r7"
  let ?c = "crc32 (fold (\<lambda>w r. crc32 r w) ?mid (crc32 crc_init (m b))) ?lst"
  let ?fcs = "crc32 (crc_bits (word_bits (8 * k) ?t) ?c) (NOT 0)"
  have s: "sint (m (r7 + 12)) = 1 - int r"
    using r sint_of_neg_ptr [of "int r - 1"] by (simp add: m(2))
  have a: "r7 + 4 * (1 - int r) = b" "1 - int r + 1 = - int (Suc n)" "r7 - 4 * int (Suc n) = b + 4"
    by (simp_all add: m(3) n)
  have w: "ws = m b # ?mid @ [?lst]"
  proof -
    have "[0..<r] = 0 # map Suc [0..<Suc n] @ [Suc (Suc n)]"
      unfolding n map_Suc_upt using upt_Suc_append [of 0 "Suc (Suc n)"] upt_conv_Cons [of 0 "Suc (Suc n)"]
      by (simp del: upt_Suc)
    moreover have "b + 4 * int (Suc i) = b + 4 + 4 * int i" for i by simp
    moreover have "b + 4 + 4 * int (Suc n) = r7" by (simp add: m(3) n)
    ultimately show ?thesis
      unfolding ws by (simp only: list.map map_append map_map comp_def) simp
  qed
  have "out_packet m r7 (- int (Suc n)) (crc32 crc_init (m b)) =
      Some (map Out_word ?mid, fold (\<lambda>w r. crc32 r w) ?mid (crc32 crc_init (m b)))"
    unfolding out_packet_words a(3) by (simp add: comp_def del: upt_Suc)
  note P = this
  have o: "lld_out tails m r7 = Some ([Out_word 0x55555555, Out_word 0xD5555555, Out_word (m b)] @
      map Out_word ?mid @ [Out_word ?lst] @ out_tail k ?c ?t)"
    unfolding lld_out_def Let_def s a(1) a(2) P m(1) label_at_label [OF inj k] option.case prod.case
      option.map append.simps by (rule refl)
  have bits: "wire_bits ([Out_word (m b)] @ map Out_word ?mid @ [Out_word ?lst] @ out_tail k ?c ?t) =
      concat (map (word_bits 32) ws) @ word_bits (8 * k) ?t @ word_bits 32 ?fcs"
    using out_tail_bits [OF k t, of ?c] by (simp add: w wire_bits_def comp_def del: upt_Suc)
  have "crc_bits (concat (map (word_bits 32) ws) @ word_bits (8 * k) ?t @ word_bits 32 ?fcs) crc_init = NOT 0"
  proof -
    let ?ds = "concat (map (word_bits 32) (?mid @ [?lst])) @ word_bits (8 * k) ?t"
    have f: "?fcs = crc32 (crc_bits ?ds (crc32 0 (NOT (m b)))) (NOT 0)"
      by (simp add: fold_crc32_bits crc32_crc_init [symmetric] del: upt_Suc) (simp add: crc32_def)
    show ?thesis
      unfolding f using crc_residue [of "m b" ?ds] by (simp add: w del: upt_Suc)
  qed
  then show ?thesis using o bits by auto
qed

lemma masked_word:
  fixes w :: word32
  shows "n \<le> i \<Longrightarrow> \<not> bit (w AND (push_bit n 1 - 1)) i" "word_bits n (w AND (push_bit n 1 - 1)) = word_bits n w"
proof -
  have m: "push_bit n 1 - 1 = (mask n :: word32)" by (simp add: push_bit_of_1 mask_eq_exp_minus_1)
  show "n \<le> i \<Longrightarrow> \<not> bit (w AND (push_bit n 1 - 1)) i" unfolding m by (simp add: bit_and_iff bit_mask_iff)
  show "word_bits n (w AND (push_bit n 1 - 1)) = word_bits n w"
    unfolding m word_bits_def by (auto simp: bit_and_iff bit_mask_iff dest: bit_imp_le_length)
qed

text \<open>The bytes of a frame as the words and the masked word that the driver sends.\<close>

lemma frame_bits_of_words:
  assumes "L \<le> 4 * length buffer" "r = L div 4" "k = L mod 4"
    and w: "0 < k \<Longrightarrow> word_bits (8 * k) w = word_bits (8 * k) (buffer ! r)"
  shows "concat (map (word_bits 32) (take r buffer)) @ word_bits (8 * k) w =
     concat (map byte_bits (take L (words_bytes buffer)))"
proof -
  have L: "L = 4 * r + k" and k: "k < 4" using assms(2,3) by simp_all
  show ?thesis
  proof (cases "k = 0")
    case True
    then show ?thesis
      by (simp add: L words_bytes_take [symmetric] words_bits_bytes word_bits_def [of 0])
  next
    case False
    then have "r < length buffer" using assms(1) by (simp add: L)
    note T = take_words_bytes [OF this k]
    have "word_bits (8 * k) w = concat (map byte_bits (take k (bytes_of_word (buffer ! r))))"
      using w False word_bits_bytes [of k "buffer ! r"] k by simp
    then show ?thesis unfolding L T words_bits_bytes by simp
  qed
qed

text \<open>The whole way, for the property below and for the receiving side.\<close>

lemma lite_frame_wire:
  assumes "inj_on tails {..<4}" "12 \<le> L" "L \<le> 1591" "L \<le> 4 * length buffer"
  shows "\<exists>ts m' outs fcs. mac_tx_lite buffer (of_nat L) = Some ts \<and>
    lite_transmit tails b ts precise m = Some (m', outs) \<and>
    take 2 outs = [Out_word 0x55555555, Out_word 0xD5555555] \<and>
    wire_bits (drop 2 outs) = concat (map byte_bits (take L (words_bytes buffer))) @ word_bits 32 fcs \<and>
    crc_bits (wire_bits (drop 2 outs)) crc_init = NOT 0 \<and>
    (\<forall>x. x < b \<or> b + 4 * int txbuf_words \<le> x \<longrightarrow> m' x = m x)"
proof -
  let ?len = "of_nat L :: word32" and ?r = "L div 4" and ?k = "L mod 4"
  let ?n = "(L + 3) div 4"
  let ?ws = "take ?n buffer"
  let ?m1 = "receive_words b ?ws m"
  have n: "?n \<le> length buffer" "?n \<le> txbuf_words" using assms(3,4) by (auto simp: txbuf_words_def)
  have L: "L < 2 ^ 30" "?len = of_nat (4 * ?r + ?k)" "?k < 4" "4 * ?r + ?k < 2 ^ 30"
    using assms(3) by simp_all
  note len = out_length(3) [OF refl L(1)]
  have ts: "mac_tx_lite buffer ?len = Some (?len # ?ws)"
    using n by (simp add: mac_tx_lite_def len Let_def)
  have acc: "lite_accept b (?len # ?ws) m = Some (?len, ?m1)"
    using n by (simp add: lite_accept_def len Let_def)
  obtain m2 r7 time where o: "mii_out_packet tails b ?len precise ?m1 = (m2, r7, time)"
    by (metis prod_cases3)
  note R = mii_out_packet_reads [OF o L(2-4)]
  have m1: "?m1 (b + 4 * int i) = buffer ! i" if "i < ?n" for i
    using that n by (auto simp: receive_words_at)
  have rn: "?r \<le> ?n" "?k \<noteq> 0 \<Longrightarrow> ?r < ?n" by (simp, presburger)
  have ws: "take ?r buffer = map (\<lambda>i. m2 (b + 4 * int i)) [0..<?r]"
    using rn n by (intro nth_equalityI) (simp_all add: R(5) m1)
  have t: "\<not> bit (m2 (r7 + 4)) i" if "8 * ?k \<le> i" for i
    unfolding R(4) using that by (rule masked_word(1))
  have r: "3 \<le> ?r" "?r < 2 ^ 29" using assms(2,3) by simp_all
  obtain outs fcs where out: "lld_out tails m2 r7 = Some outs"
      "take 2 outs = [Out_word 0x55555555, Out_word 0xD5555555]"
      "wire_bits (drop 2 outs) =
        concat (map (word_bits 32) (take ?r buffer)) @ word_bits (8 * ?k) (m2 (r7 + 4)) @ word_bits 32 fcs"
      "crc_bits (wire_bits (drop 2 outs)) crc_init = NOT 0"
    using lld_out_bits [OF assms(1) L(3) r R(2,3,1) t ws] by auto
  have "word_bits (8 * ?k) (m2 (r7 + 4)) = word_bits (8 * ?k) (buffer ! ?r)" if "0 < ?k"
    unfolding R(4) masked_word(2) using m1 rn that by simp
  note bytes = frame_bits_of_words [OF assms(4) refl refl this]
  have keep: "m2 x = m x" if "x < b \<or> b + 4 * int txbuf_words \<le> x" for x
  proof -
    have "int ?r \<le> 397" using assms(3) by simp
    then have "m2 x = ?m1 x" using that by (intro R(6)) (auto simp: txbuf_words_def)
    also have "\<dots> = m x" using that n(2) by (auto simp: receive_words_at txbuf_words_def)
    finally show ?thesis .
  qed
  have "lite_transmit tails b (?len # ?ws) precise m = Some (m2, outs)"
    by (simp add: lite_transmit_def acc o out(1))
  then show ?thesis
    using ts out(2-4) keep bytes by (auto simp flip: append_assoc)
qed

text \<open>C26: From the client to the wire with the lite implementation. For a frame of 12 to 1591 bytes
the server takes what \<open>mac_tx_lite\<close> sends and the driver ends; after the preamble it puts the bits of
the frame on the wire, byte by byte and least significant bit first, then a checksum that takes the
receiver's register to all ones; and the server writes nothing outside its array.\<close>

theorem lite_frame_on_wire:
  assumes "inj_on tails {..<4}" "12 \<le> L" "L \<le> 1591" "L \<le> 4 * length buffer"
  shows "\<exists>ts m' outs fcs. mac_tx_lite buffer (of_nat L) = Some ts \<and>
    lite_transmit tails b ts precise m = Some (m', outs) \<and>
    take 2 outs = [Out_word 0x55555555, Out_word 0xD5555555] \<and>
    wire_bits (drop 2 outs) = concat (map byte_bits (take L (words_bytes buffer))) @ word_bits 32 fcs \<and>
    crc_bits (wire_bits (drop 2 outs)) crc_init = NOT 0 \<and>
    (\<forall>x. x < b \<or> b + 4 * int txbuf_words \<le> x \<longrightarrow> m' x = m x)"
  by (rule lite_frame_wire [OF assms])

theorem lite_frame_on_wire_witness:
  "\<exists>ts m' outs fcs. mac_tx_lite (replicate 16 1) 61 = Some ts \<and>
     lite_transmit of_nat 100 ts 0 (\<lambda>_. 0) = Some (m', outs) \<and>
     wire_bits (drop 2 outs) = concat (map byte_bits (take 61 (words_bytes (replicate 16 1)))) @ word_bits 32 fcs"
proof -
  have "inj_on (of_nat :: nat \<Rightarrow> word32) {..<4}"
    by (rule inj_onI, drule arg_cong [where f = unat]) (simp add: unat_of_nat take_bit_nat_eq_self)
  from lite_frame_on_wire [OF this, of 61 "replicate 16 1" 100 0 "\<lambda>_. 0"] show ?thesis by auto
qed

text \<open>
  From 1592 to 1600 bytes the server takes the frame and \<open>mii_out_packet\<close> writes behind the array.
\<close>

lemma long_frame_overwrites:
  assumes "1592 \<le> L" "L \<le> 1600" "L \<le> 4 * length buffer"
  shows "\<exists>ts m1 m' r7 time. mac_tx_lite buffer (of_nat L) = Some ts \<and>
    lite_accept b ts m = Some (of_nat L, m1) \<and> mii_out_packet tails b (of_nat L) precise m1 = (m', r7, time) \<and>
    b + 4 * int txbuf_words \<le> r7 + 12 \<and> m' (r7 + 12) = word_of_int (1 - int (L div 4))"
proof -
  let ?len = "of_nat L :: word32" and ?n = "(L + 3) div 4"
  have n: "?n \<le> length buffer" "?n \<le> txbuf_words" using assms by (auto simp: txbuf_words_def)
  have L: "L < 2 ^ 30" "?len = of_nat (4 * (L div 4) + L mod 4)" "L mod 4 < 4" "4 * (L div 4) + L mod 4 < 2 ^ 30"
    using assms(2) by simp_all
  note len = out_length(3) [OF refl L(1)]
  obtain m2 r7 time where o: "mii_out_packet tails b ?len precise (receive_words b (take ?n buffer) m) = (m2, r7, time)"
    by (metis prod_cases3)
  note R = mii_out_packet_reads [OF o L(2-4)]
  have "398 \<le> L div 4" using assms(1) by simp
  then have "b + 4 * int txbuf_words \<le> r7 + 12" unfolding R(1) txbuf_words_def by simp
  then show ?thesis
    using n R(3) o by (simp add: mac_tx_lite_def lite_accept_def len Let_def)
qed

text \<open>The driver does not end with a frame of less than three words.\<close>

lemma out_packet_from_below:
  assumes "out_packet m r7 r8 r9 = Some y"
  shows "r8 < 0"
proof (rule out_packet.raw_induct [where P = "\<lambda>m r7 r8 r9 y. r8 < 0", OF _ assms])
  fix f :: "tx_mem \<Rightarrow> addr \<Rightarrow> int \<Rightarrow> word32 \<Rightarrow> (tx_out list \<times> word32) option" and m r7 r8 r9 y
  assume IH: "\<And>m r7 r8 r9 y. f m r7 r8 r9 = Some y \<Longrightarrow> r8 < 0"
    and b: "(let r5 = m (r7 + 4 * r8); r8 = r8 + 1; r9 = crc32 r9 r5
      in if r8 \<noteq> 0 then Option.bind (f m r7 r8 r9) (\<lambda>(outs, r9). Some (Out_word r5 # outs, r9))
         else Some ([Out_word r5], r9)) = Some y"
  show "r8 < 0"
  proof (cases "r8 + 1 = 0")
    case False
    then obtain x where "f m r7 (r8 + 1) (crc32 r9 (m (r7 + 4 * r8))) = Some x"
      using b by (auto simp: Let_def bind_eq_Some_conv)
    from IH [OF this] show ?thesis by simp
  qed simp
qed

end
