(* ===== verification/Lite_Client.thy ===== *)
theory Lite_Client
  imports Lite_Server Tx_Ports
begin

text \<open>
  The receiving client of the lite implementation, \<open>mii_client_lite.xc\<close>, and its sessions with the
  server. The client waits for an announcement, confirms it and reads the words of the packet, or
  the two words of a status message; the word that the confirmation carries is not looked at by
  the server. The sessions are those without a change of the link status.
\<close>

subsection \<open>The client's call\<close>

text \<open>
  Word \<open>i\<close> of the buffer seen as an array of words. An index out of the bounds of the array is an
  exception, \<open>None\<close>.
\<close>

definition put_buffer_word :: "byte list \<Rightarrow> nat \<Rightarrow> word32 \<Rightarrow> byte list option" where
  "put_buffer_word buffer i w =
     (if 4 * i + 4 \<le> length buffer
      then Some (take (4 * i) buffer @ bytes_of_word w @ drop (4 * i + 4) buffer) else None)"

fun read_words :: "nat \<Rightarrow> nat \<Rightarrow> byte list \<Rightarrow> app_out list \<Rightarrow> (byte list \<times> app_out list) option" where
  "read_words 0 i buffer ts = Some (buffer, ts)"
| "read_words (Suc k) i buffer (App_word w # ts) =
     (case put_buffer_word buffer i w of None \<Rightarrow> None | Some buffer \<Rightarrow> read_words k (i + 1) buffer ts)"
| "read_words (Suc k) i buffer _ = None"

text \<open>
  The call with what comes from the server: buffer, length, port and what is left on the channel.
  The limit \<open>n\<close> is not used.
\<close>

definition safe_mac_rx_lite ::
  "byte list \<Rightarrow> int \<Rightarrow> app_out list \<Rightarrow> (byte list \<times> int \<times> word32 \<times> app_out list) option" where
  "safe_mac_rx_lite buffer n ts =
     (case ts of
        App_uint len # ts \<Rightarrow>
          if len = - 1 then
            (case ts of
               App_word status # App_word src_port # ts \<Rightarrow>
                 if buffer \<noteq> [] then Some (buffer[0 := ucast status], len, src_port, ts) else None
             | _ \<Rightarrow> None)
          else map_option (\<lambda>(buffer, ts). (buffer, len, 0, ts)) (read_words (nat ((len + 3) div 4)) 0 buffer ts)
      | _ \<Rightarrow> None)"

definition mac_rx_lite :: "byte list \<Rightarrow> app_out list \<Rightarrow> (byte list \<times> int \<times> word32 \<times> app_out list) option" where
  "mac_rx_lite buffer ts = safe_mac_rx_lite buffer (- 1) ts"

text \<open>A setting that the lite server does not have: nothing is sent.\<close>

definition mac_set_custom_filter_lite :: "word32 \<Rightarrow> app_out list" where
  "mac_set_custom_filter_lite x = []"

lemma read_words_all:
  "4 * (i + length ws) \<le> length buffer \<Longrightarrow>
     read_words (length ws) i buffer (map App_word ws @ ts) =
       Some (take (4 * i) buffer @ words_bytes ws @ drop (4 * (i + length ws)) buffer, ts)"
proof (induction ws arbitrary: i buffer)
  case Nil
  then show ?case by (simp add: words_bytes_def)
next
  case (Cons w ws)
  let ?b = "take (4 * i) buffer @ bytes_of_word w @ drop (4 * i + 4) buffer"
  have p: "put_buffer_word buffer i w = Some ?b" using Cons.prems by (simp add: put_buffer_word_def)
  have "read_words (length ws) (i + 1) ?b (map App_word ws @ ts) =
      Some (take (4 * (i + 1)) ?b @ words_bytes ws @ drop (4 * (i + 1 + length ws)) ?b, ts)"
    by (rule Cons.IH) (use Cons.prems in simp)
  moreover have "take (4 * (i + 1)) ?b = take (4 * i) buffer @ bytes_of_word w"
    "drop (4 * (i + 1 + length ws)) ?b = drop (4 * (i + length (w # ws))) buffer"
    using Cons.prems by (simp_all add: algebra_simps)
  ultimately show ?case by (simp add: p words_bytes_def)
qed

lemma read_words_room:
  "read_words (length ws) i buffer (map App_word ws @ ts) = Some r \<Longrightarrow> ws \<noteq> [] \<Longrightarrow>
     4 * (i + length ws) \<le> length buffer"
proof (induction ws arbitrary: i buffer)
  case (Cons w ws)
  obtain b where b: "put_buffer_word buffer i w = Some b" "read_words (length ws) (i + 1) b (map App_word ws @ ts) = Some r"
    using Cons.prems(1) by (auto split: option.splits)
  then have "length b = length buffer" "4 * i + 4 \<le> length buffer"
    by (auto simp: put_buffer_word_def split: if_splits)
  then show ?case using Cons.IH [OF b(2)] by (cases "ws = []") simp_all
qed simp

text \<open>The packet on the channel as the client gets it.\<close>

lemma client_reads_packet:
  assumes n: "0 < n" and ws: "length ws = nat ((n + 3) div 4)" and room: "4 * length ws \<le> length buffer"
  shows "safe_mac_rx_lite buffer lim (App_uint n # map App_word ws @ ts) =
      Some (words_bytes ws @ drop (4 * length ws) buffer, n, 0, ts)"
    "take (nat n) (words_bytes ws @ drop (4 * length ws) buffer) = take (nat n) (words_bytes ws)"
  using read_words_all [of 0 ws buffer ts] n ws room by (simp_all add: safe_mac_rx_lite_def)

lemma client_needs_room:
  assumes "0 < n" "length ws = nat ((n + 3) div 4)"
    and "safe_mac_rx_lite buffer lim (App_uint n # map App_word ws @ ts) = Some r"
  shows "4 * length ws \<le> length buffer"
proof -
  have "ws \<noteq> []" using assms(1,2) by auto
  moreover obtain q where "read_words (length ws) 0 buffer (map App_word ws @ ts) = Some q"
    using assms by (auto simp: safe_mac_rx_lite_def)
  ultimately show ?thesis using read_words_room [of ws 0 buffer ts] by simp
qed

subsection \<open>Sessions\<close>

definition content_bytes :: "contents \<Rightarrow> int \<times> byte list" where
  "content_bytes = (\<lambda>(n, t, ws). (n, take (nat n) (words_bytes ws)))"

text \<open>
  The steps of \<open>lite_run\<close> with the channel to the application and with the packets that the client
  got from each bank.
\<close>

type_synonym lite_session_state =
  "lite_server \<times> (nat \<Rightarrow> contents list) \<times> (nat \<Rightarrow> (int \<times> byte list) list) \<times> app_out list"

inductive lite_session :: "addr \<Rightarrow> int \<Rightarrow> lite_session_state \<Rightarrow> bool" for b :: addr and words :: int where
  start: "lite_session b words (lite_server_init b words s0 c0, \<lambda>_. [], \<lambda>_. [], [])"
| driver: "lite_session b words (v, com, got, chan) \<Longrightarrow>
     packetInLLD (srv v) \<le> x \<Longrightarrow> x < packetInLLD (srv v) + MAXPACKET \<Longrightarrow>
     lite_session b words (v\<lparr>srv := (srv v)\<lparr>lmem := (lmem (srv v))(x := y)\<rparr>\<rparr>, com, got, chan)"
| interrupt: "lite_session b words (v, com, got, chan) \<Longrightarrow>
     lld_length (srv v) end = 0 \<or> 4 < lld_length (srv v) end \<and> lld_length (srv v) end \<le> 1528 \<Longrightarrow>
     lite_session b words
       (v\<lparr>srv := miiInterruptHandler end (srv v)\<rparr>, commit_log (srv v) end com, got, chan)"
| receive: "lite_session b words (v, com, got, chan) \<Longrightarrow> havePacket v \<Longrightarrow> lite_serve v = Some (w, o1) \<Longrightarrow>
     lite_check w = (w', o2) \<Longrightarrow>
     safe_mac_rx_lite buffer lim (chan @ o1 @ o2) = Some (buffer', len, src_port, chan') \<Longrightarrow>
     x = bank_at (srv v) (fst (cur v)) \<Longrightarrow>
     lite_session b words (w', com, got(x := got x @ [(len, take (nat len) buffer')]), chan')"
| notified: "lite_session b words (v, com, got, chan) \<Longrightarrow> mii_notified (srv v) = Some s \<Longrightarrow>
     lite_check (v\<lparr>srv := s\<rparr>) = (w, o2) \<Longrightarrow> lite_session b words (w, com, got, chan @ o2)"
| link: "lite_session b words (v, com, got, chan) \<Longrightarrow> lite_link_check (phy_status v) v = (w, o1) \<Longrightarrow>
     lite_check w = (w', o2) \<Longrightarrow> lite_session b words (w', com, got, chan @ o1 @ o2)"

text \<open>What was committed to a bank and the client has not got yet.\<close>

definition pending_bytes ::
  "(nat \<Rightarrow> contents list) \<Rightarrow> (nat \<Rightarrow> (int \<times> byte list) list) \<Rightarrow> nat \<Rightarrow> (int \<times> byte list) list" where
  "pending_bytes com got x = drop (length (got x)) (map content_bytes (com x))"

text \<open>The channel holds the announcement of the packet that the server holds.\<close>

definition announced :: "lite_server \<Rightarrow> app_out list" where
  "announced v = (if havePacket v then [App_uint (fst (snd (cur v)))] else [])"

lemma check_announces:
  "lite_check v = (w, o2) \<Longrightarrow> announced v @ o2 = announced w"
  by (auto simp: lite_check_def announced_def split: if_splits prod.splits)

lemma serve_announces:
  "lite_serve v = Some (w, o1) \<Longrightarrow> o1 = map App_word (held_words v) @ announced w"
  by (auto simp: lite_serve_def announced_def split: option.splits prod.splits)

lemma commit_log_positive:
  assumes "lld_length s e = 0 \<or> 4 < lld_length s e" "\<forall>x. \<forall>p \<in> set (com x). 0 < fst p"
  shows "\<forall>x. \<forall>p \<in> set (commit_log s e com x). 0 < fst p"
  using assms by (auto simp: commit_log_def packet_of_def)

lemma lite_run_positive: "lite_run b words (v, com, del) \<Longrightarrow> \<forall>x. \<forall>p \<in> set (com x). 0 < fst p"
proof (induction "(v, com, del)" arbitrary: v com del rule: lite_run.induct)
  case (interrupt v com del e)
  then show ?case by (intro commit_log_positive) auto
qed simp_all

lemma held_positive:
  assumes "0 < b" "4 dvd b" "1536 \<le> words" "lite_run b words (v, com, del)" "havePacket v"
  shows "0 < fst (snd (cur v))" "length (held_words v) = nat ((fst (snd (cur v)) + 3) div 4)"
proof -
  obtain pending where p: "\<forall>x < 2. com x = del x @ pending x"
    "\<exists>rest. pending (bank_at (srv v) (fst (cur v))) = held_contents v # rest"
    using pending_parts [OF assms(1-4)] assms(5) by metis
  have "bank_at (srv v) (fst (cur v)) < 2" by (simp add: bank_at_def)
  then have "held_contents v \<in> set (com (bank_at (srv v) (fst (cur v))))" using p by auto
  then show "0 < fst (snd (cur v))"
    using lite_run_positive [OF assms(4)] by (force simp: held_contents_def)
  show "length (held_words v) = nat ((fst (snd (cur v)) + 3) div 4)"
    by (simp add: held_words_def split: prod.split)
qed

lemma session_run:
  assumes b: "0 < b" "4 dvd b" "1536 \<le> words"
  shows "lite_session b words (v, com, got, chan) \<Longrightarrow>
    \<exists>del. lite_run b words (v, com, del) \<and> (\<forall>x. got x = map content_bytes (del x)) \<and> chan = announced v"
proof (induction "(v, com, got, chan)" arbitrary: v com got chan rule: lite_session.induct)
  case (start s0 c0)
  have "announced (lite_server_init b words s0 c0) = []" by (simp add: announced_def lite_server_init_def)
  then show ?case by (intro exI [of _ "\<lambda>_. []"]) (simp add: lite_run.start)
next
  case (driver v com got chan x y)
  then show ?case by (auto simp: announced_def intro: lite_run.driver)
next
  case (interrupt v com got chan e)
  then show ?case by (auto simp: announced_def intro: lite_run.interrupt)
next
  case (receive v com got chan w o1 w' o2 buffer lim buffer' len src_port chan' x)
  then obtain del where del: "lite_run b words (v, com, del)" "\<forall>x. got x = map content_bytes (del x)"
    "chan = announced v" by blast
  let ?n = "fst (snd (cur v))"
  note H = held_positive [OF b del(1) receive(3)]
  have "chan @ o1 @ o2 = App_uint ?n # map App_word (held_words v) @ announced w'"
    using serve_announces [OF receive(4)] check_announces [OF receive(5)] receive(3) del(3)
    by (simp add: announced_def)
  then have call: "safe_mac_rx_lite buffer lim (App_uint ?n # map App_word (held_words v) @ announced w') =
      Some (buffer', len, src_port, chan')" using receive(6) by simp
  note R = client_reads_packet [OF H client_needs_room [OF H call]]
  have r: "len = ?n" "chan' = announced w'" and "buffer' = words_bytes (held_words v) @ drop (4 * length (held_words v)) buffer"
    using R(1) [of lim "announced w'"] call by auto
  then have bytes: "take (nat len) buffer' = take (nat ?n) (words_bytes (held_words v))" by (simp only: R(2))
  have "lite_run b words (w', com, deliver v del)"
    by (rule lite_run.serve [OF del(1) receive(3,4,5)])
  moreover have "content_bytes (held_contents v) = (len, take (nat len) buffer')"
    by (simp add: content_bytes_def held_contents_def r(1) bytes [unfolded r(1)])
  ultimately show ?case
    using del(2) r(2) receive(7) by (intro exI [of _ "deliver v del"]) (auto simp: deliver_def Let_def)
next
  case (notified v com got chan s w o2)
  then have "announced (v\<lparr>srv := s\<rparr>) = announced v" by (simp add: announced_def)
  then show ?case
    using notified check_announces [OF notified(4)] by (auto intro: lite_run.notified)
next
  case (link v com got chan w o1 w' o2)
  then have "o1 = []" "w = v" by (auto simp: lite_link_check_def)
  then show ?case
    using link check_announces [OF link(4)] by (auto intro: lite_run.link)
qed

text \<open>C25: In every session of the lite server with its client on a buffer of at least 1536 words with
frames of at most 1528 bytes and no change of the link: what the client got from each bank are the
first packets that were committed there, in order, each with its length and its bytes; the channel
holds the announcement of the packet that the server holds, and nothing else; and a call with room
for that packet returns its length, exactly its bytes, port 0 and the next announcement.\<close>

theorem lite_client_receives:
  assumes b: "0 < b" "4 dvd b" "1536 \<le> words"
    and session: "lite_session b words (v, com, got, chan)"
  shows "(\<forall>x < 2. \<exists>rest. map content_bytes (com x) = got x @ rest) \<and>
    chan = announced v \<and>
    (\<forall>buffer lim. havePacket v \<and> fst (snd (cur v)) + 3 \<le> int (length buffer) \<longrightarrow>
       (\<exists>w o1 buffer'. lite_serve v = Some (w, o1) \<and>
          safe_mac_rx_lite buffer lim (chan @ o1) = Some (buffer', fst (snd (cur v)), 0, announced w) \<and>
          (\<exists>rest. pending_bytes com got (bank_at (srv v) (fst (cur v))) =
             (fst (snd (cur v)), take (nat (fst (snd (cur v)))) buffer') # rest)))"
proof -
  obtain del where del: "lite_run b words (v, com, del)" "\<forall>x. got x = map content_bytes (del x)"
    "chan = announced v" using session_run [OF b session] by blast
  obtain pending where p: "\<forall>x < 2. com x = del x @ pending x"
    "havePacket v \<longrightarrow> (\<exists>w o1. lite_serve v = Some (w, map App_word (held_words v) @ o1)) \<and>
       (\<exists>rest. pending (bank_at (srv v) (fst (cur v))) = held_contents v # rest)"
    by (rule pending_parts [OF b del(1)])
  have g: "map content_bytes (com x) = got x @ map content_bytes (pending x)" if "x < 2" for x
    using p(1) del(2) that by simp
  have call: "\<exists>w o1 buffer'. lite_serve v = Some (w, o1) \<and>
      safe_mac_rx_lite buffer lim (chan @ o1) = Some (buffer', fst (snd (cur v)), 0, announced w) \<and>
      (\<exists>rest. pending_bytes com got (bank_at (srv v) (fst (cur v))) =
         (fst (snd (cur v)), take (nat (fst (snd (cur v)))) buffer') # rest)"
    if h: "havePacket v" and room: "fst (snd (cur v)) + 3 \<le> int (length buffer)" for buffer lim
  proof -
    let ?n = "fst (snd (cur v))" and ?x = "bank_at (srv v) (fst (cur v))"
    obtain w o1 rest where s: "lite_serve v = Some (w, o1)" and r: "pending ?x = held_contents v # rest"
      using p(2) h by blast
    note H = held_positive [OF b del(1) h]
    have "4 * length (held_words v) \<le> length buffer" using room H by (simp add: nat_le_iff)
    note R = client_reads_packet [OF H this]
    have x: "?x < 2" by (simp add: bank_at_def)
    have "pending_bytes com got ?x = content_bytes (held_contents v) # map content_bytes rest"
      by (simp add: pending_bytes_def g [OF x] r)
    then show ?thesis
      using R(1) [of lim "announced w"] R(2) s serve_announces [OF s] h del(3)
      by (auto simp: announced_def content_bytes_def held_contents_def)
  qed
  show ?thesis using g del(3) call by blast
qed

lemma example_session:
  "lite_session 4 1536
     (fst (the example_held), commit_log (srv example_start) 72 (\<lambda>_. []), \<lambda>_. [], [App_uint 60])"
proof -
  have "lite_session 4 1536 (example_start, \<lambda>_. [], \<lambda>_. [], [])"
    unfolding example_start_def by (rule lite_session.start)
  from lite_session.interrupt [OF this, of 72] have
    "lite_session 4 1536 (example_frame, commit_log (srv example_start) 72 (\<lambda>_. []), \<lambda>_. [], [])"
    by (simp add: example_values(1) example_frame_def)
  note run = this
  obtain s where s: "mii_notified (srv example_frame) = Some s"
    using example_values(2) by (auto simp: example_held_def)
  obtain w o1 where w: "lite_check (example_frame\<lparr>srv := s\<rparr>) = (w, o1)" by fastforce
  have "o1 = [App_uint 60]" "w = fst (the example_held)"
    using example_values(3) s w by (simp_all add: example_held_def)
  with lite_session.notified [OF run s w] show ?thesis by simp
qed

theorem lite_client_receives_witness:
  "\<exists>w o1 buffer'. lite_serve (fst (the example_held)) = Some (w, o1) \<and>
     safe_mac_rx_lite (replicate 64 0) 0 ([App_uint 60] @ o1) = Some (buffer', 60, 0, announced w)"
proof -
  obtain u o2 where e: "example_held = Some (u, o2)" using example_values(2) by (metis not_None_eq surj_pair)
  have "havePacket u" "cur u = (12, 60, 7)" using example_values(3) unfolding e by simp_all
  then have v: "havePacket (fst (the example_held))" "fst (snd (cur (fst (the example_held)))) = 60"
    unfolding e by simp_all
  have n: "(0::int) < 4" "4 dvd (4::int)" "1536 \<le> (1536::int)" by simp_all
  note R = lite_client_receives [OF n example_session, THEN conjunct2, THEN conjunct2,
      THEN spec, of "replicate 64 0", THEN spec, of 0, THEN mp, unfolded v(2)]
  have "havePacket (fst (the example_held)) \<and> 60 + 3 \<le> int (length (replicate 64 (0 :: byte)))"
    using v(1) by simp
  from R [OF this] show ?thesis by blast
qed

text \<open>The limit of the interface has no effect.\<close>

lemma limit_ignored: "safe_mac_rx_lite buffer n ts = mac_rx_lite buffer ts"
  by (simp add: mac_rx_lite_def safe_mac_rx_lite_def)

end
