(* ===== verification/Lite_Receive.thy ===== *)
theory Lite_Receive
  imports Lite_Transmit Lite_Server Mac_Link
begin

text \<open>
  Receiving with the lite implementation: the \<open>IN\<close> coroutine of \<open>mii_lld.S\<close>, which stores a frame in
  the buffer it was given, composed with the interrupt routine and the runs of the server; and the link from
  the call of a client on one side to the buffers on the other. The handlers work on the memory and on the
  registers \<open>r4\<close>, the place behind which the next word goes, and \<open>r10\<close>, the checksum; enabling the
  events is left out, their order is the one in which \<open>lld_receive\<close> calls them.
\<close>

type_synonym lld_in = "tx_mem \<times> addr \<times> word32"

subsection \<open>The handlers\<close>

definition mii_rxd :: "word32 \<Rightarrow> lld_in \<Rightarrow> lld_in" where
  "mii_rxd r11 = (\<lambda>(m, r4, r10). (m(r4 + 4 := r11), r4 + 4, crc32 r10 r11))"

text \<open>The end of a frame sends the pointer to the interrupt routine.\<close>

definition mii_rxdv0 :: "lld_in \<Rightarrow> addr" where
  "mii_rxdv0 = (\<lambda>(m, r4, r10). r4)"

text \<open>The number of bits left in the port, and the port's word with these bits at its top.\<close>

definition mii_rxLastBits :: "nat \<Rightarrow> word32 \<Rightarrow> lld_in \<Rightarrow> lld_in" where
  "mii_rxLastBits bits data = (\<lambda>(m, r4, r10). (m(r4 + 8 := of_nat bits, r4 + 4 := data, r4 + 12 := r10), r4, r10))"

definition mii_rxd_packet :: "addr \<Rightarrow> nat \<Rightarrow> word32 \<Rightarrow> lld_in \<Rightarrow> lld_in" where
  "mii_rxd_packet r11 bits data =
     (\<lambda>(m, r4, r10). if r11 = 0 then mii_rxLastBits bits data (m, r4, r10) else (m, r11, r10))"

definition mii_rxd_preamble :: "word32 \<Rightarrow> lld_in \<Rightarrow> lld_in" where
  "mii_rxd_preamble time = (\<lambda>(m, r4, r10). (m(r4 := time), r4, crc_init))"

text \<open>
  A frame: the buffer, the preamble, the words, the end, and the 0 by which the interrupt routine asks for the
  last bits. The result is the memory and the pointer that the interrupt routine gets.
\<close>

definition lld_receive ::
  "addr \<Rightarrow> word32 \<Rightarrow> word32 list \<Rightarrow> nat \<Rightarrow> word32 \<Rightarrow> lld_in \<Rightarrow> tx_mem \<times> addr" where
  "lld_receive p time ws bits data st =
     (let st = mii_rxd_packet p 0 0 st;
          st = mii_rxd_preamble time st;
          st = fold mii_rxd ws st;
          end = mii_rxdv0 st;
          st = mii_rxd_packet 0 bits data st
      in (fst st, end))"

subsection \<open>What is in the buffer\<close>

lemma fold_mii_rxd:
  "fold mii_rxd ws (m, r4, r10) =
     (\<lambda>x. if \<exists>i < length ws. x = r4 + 4 + 4 * int i then ws ! nat ((x - r4 - 4) div 4) else m x,
      r4 + 4 * int (length ws), fold (\<lambda>w r. crc32 r w) ws r10)"
proof (induction ws rule: rev_induct)
  case Nil
  then show ?case by simp
next
  case (snoc w ws)
  let ?e = "r4 + 4 * int (length ws) + 4"
  have "(\<lambda>x. if \<exists>i < length ws. x = r4 + 4 + 4 * int i then ws ! nat ((x - r4 - 4) div 4) else m x)(?e := w) =
      (\<lambda>x. if \<exists>i < length (ws @ [w]). x = r4 + 4 + 4 * int i then (ws @ [w]) ! nat ((x - r4 - 4) div 4) else m x)"
    by (auto simp: less_Suc_eq nth_append fun_eq_iff)
  then have "mii_rxd w (\<lambda>x. if \<exists>i < length ws. x = r4 + 4 + 4 * int i then ws ! nat ((x - r4 - 4) div 4) else m x,
      r4 + 4 * int (length ws), c) =
    (\<lambda>x. if \<exists>i < length (ws @ [w]). x = r4 + 4 + 4 * int i then (ws @ [w]) ! nat ((x - r4 - 4) div 4) else m x,
      r4 + 4 * int (length (ws @ [w])), crc32 c w)" for c
    by (simp only: mii_rxd_def prod.case) simp
  then show ?case by (simp only: fold_append comp_apply snoc) simp
qed

lemma lld_receive_buffer:
  assumes r: "lld_receive p time ws (8 * j) data (m, r4, r10) = (mm, e)" and p: "p \<noteq> 0"
  shows "e = p + 4 * int (length ws)" "mm p = time" "i < length ws \<Longrightarrow> mm (p + 4 + 4 * int i) = ws ! i"
    "mm (e + 4) = data" "mm (e + 8) = of_nat (8 * j)" "mm (e + 12) = fold (\<lambda>w r. crc32 r w) ws crc_init"
  using r p
  by (auto simp: lld_receive_def mii_rxd_packet_def mii_rxd_preamble_def fold_mii_rxd mii_rxdv0_def
      mii_rxLastBits_def Let_def)

text \<open>The check of the interrupt routine takes the rest of the frame into the checksum.\<close>

lemma CRCBad_received:
  assumes r: "lld_receive p time ws (8 * j) data (m, r4, r10) = (mm, e)" and p: "p \<noteq> 0" and j: "j < 4"
  shows "CRCBad mm p e =
    (if crc_bits (frame_bits ws j (drop_bit (32 - 8 * j) data)) crc_init = NOT 0
     then of_nat (4 * length ws + j) else 0)"
proof -
  note b = lld_receive_buffer [OF r p]
  have n: "drop_bit 3 (of_nat (8 * j) :: word32) = of_nat j" "unat (of_nat j :: word32) = j"
  proof -
    have "drop_bit 3 (8 * of_nat j :: word32) = of_nat j" if "j = 0 \<or> j = 1 \<or> j = 2 \<or> j = 3"
      using that by (elim disjE; hypsubst; code_simp)
    then show "drop_bit 3 (of_nat (8 * j) :: word32) = of_nat j" using j by (simp add: less_Suc_eq numeral_eq_Suc)
    show "unat (of_nat j :: word32) = j" using j by (simp add: unat_of_nat take_bit_nat_eq_self)
  qed
  have "crc_bits (frame_bits ws j (drop_bit (32 - 8 * j) data)) crc_init =
      fst (crc_tail j (fold (\<lambda>w r. crc32 r w) ws crc_init, drop_bit (32 - 8 * j) data))"
    by (simp add: frame_bits_def crc_tail_bits fold_crc32)
  moreover have "(if j = 1 \<or> j = 2 \<or> j = 3 then fst (crc_tail j (c, t)) else c) = fst (crc_tail j (c, t))" for c t
    using j by (cases "j = 0") (auto simp: less_Suc_eq numeral_eq_Suc)
  moreover have "NOT x = 0 \<longleftrightarrow> x = NOT 0" for x :: word32 by (metis bit.double_compl)
  ultimately show ?thesis
    unfolding CRCBad_def Let_def b(4-6) n by (simp add: b(1))
qed

subsection \<open>Reception as steps of a run\<close>

text \<open>
  The stores of a frame of up to 1519 bytes are stores of the driver in its buffer, so a reception is a
  sequence of steps of the run; the last words of a longer frame lie behind the buffer.
\<close>

definition with_mem :: "lite_server \<Rightarrow> tx_mem \<Rightarrow> lite_server" where
  "with_mem v m = v\<lparr>srv := (srv v)\<lparr>lmem := m\<rparr>\<rparr>"

lemma with_mem_simps [simp]:
  "with_mem v (lmem (srv v)) = v" "lmem (srv (with_mem v m)) = m"
  "packetInLLD (srv (with_mem v m)) = packetInLLD (srv v)" "nextBuffer (srv (with_mem v m)) = nextBuffer (srv v)"
  "firstPtr (srv (with_mem v m)) = firstPtr (srv v)" "with_mem (with_mem v m) m' = with_mem v m'"
  by (simp_all add: with_mem_def)

lemma run_store:
  assumes "lite_run b words (with_mem v m, com, del)"
    and "packetInLLD (srv v) \<le> x" "x < packetInLLD (srv v) + MAXPACKET"
  shows "lite_run b words (with_mem v (m(x := y)), com, del)"
  using lite_run.driver [OF assms(1), of x y] assms(2,3) by (simp add: with_mem_def)

lemma run_words:
  "lite_run b words (with_mem v m, com, del) \<Longrightarrow> packetInLLD (srv v) \<le> r4 \<Longrightarrow>
     r4 + 4 * int (length ws) < packetInLLD (srv v) + MAXPACKET \<Longrightarrow>
     lite_run b words (with_mem v (fst (fold mii_rxd ws (m, r4, r10))), com, del)"
proof (induction ws arbitrary: m r4 r10)
  case Nil
  then show ?case by simp
next
  case (Cons w ws)
  have "lite_run b words (with_mem v (m(r4 + 4 := w)), com, del)"
    using Cons.prems by (intro run_store) auto
  then have "lite_run b words (with_mem v (fst (fold mii_rxd ws (m(r4 + 4 := w), r4 + 4, crc32 r10 w))), com, del)"
    by (rule Cons.IH) (use Cons.prems in auto)
  moreover have "mii_rxd w (m, r4, r10) = (m(r4 + 4 := w), r4 + 4, crc32 r10 w)" by (simp add: mii_rxd_def)
  ultimately show ?case by simp
qed

lemma run_receive:
  assumes run: "lite_run b words (v, com, del)" and p: "packetInLLD (srv v) \<noteq> 0"
    and r: "lld_receive (packetInLLD (srv v)) time ws bits data (lmem (srv v), r4, r10) = (mm, e)"
    and n: "4 * length ws + 12 < 1530"
  shows "lite_run b words (with_mem v mm, com, del)"
proof -
  let ?p = "packetInLLD (srv v)" and ?e = "packetInLLD (srv v) + 4 * int (length ws)"
  have n': "4 * int (length ws) + 12 < MAXPACKET" using n by (simp add: MAXPACKET_def)
  have "lite_run b words (with_mem v ((lmem (srv v))(?p := time)), com, del)"
    by (rule run_store) (use run in \<open>simp_all add: MAXPACKET_def\<close>)
  from run_words [OF this, of ?p ws crc_init] n'
  obtain m1 r1 where m1: "fold mii_rxd ws ((lmem (srv v))(?p := time), ?p, crc_init) = (m1, ?e, r1)"
    "lite_run b words (with_mem v m1, com, del)"
    by (auto simp: fold_mii_rxd)
  have "lite_run b words (with_mem v (m1(?e + 8 := of_nat bits, ?e + 4 := data, ?e + 12 := r1)), com, del)"
    using n' by (intro run_store m1(2)) auto
  moreover have "mm = m1(?e + 8 := of_nat bits, ?e + 4 := data, ?e + 12 := r1)"
    using r p m1(1)
    by (simp add: lld_receive_def mii_rxd_packet_def mii_rxd_preamble_def mii_rxLastBits_def Let_def)
  ultimately show ?thesis by simp
qed

lemma run_buffer_positive:
  assumes "0 < b" "4 dvd b" "1536 \<le> words" "lite_run b words (v, com, del)"
  shows "0 < packetInLLD (srv v)"
proof -
  obtain held qs where i: "lite_inv (srv v) (current v) com del held qs"
    using lite_run_inv [OF assms] by (auto simp: run_inv_def)
  then obtain a where a: "a < 2" "packetInLLD (srv v) = wrPtr (srv v) a"
    by (auto simp: lite_inv_def driver_ok_def)
  have "bank (srv v) a (fst (qs a)) (snd (qs a))" by (rule bank_of_inv [OF i a(1)])
  note b = this [unfolded bank_def]
  have "0 < firstPtr (srv v) a" using b by (simp add: bank_ok_def)
  then show ?thesis using bank_w(1) [OF b] a(2) by simp
qed

subsection \<open>From client to client\<close>

lemma length_byte_bits [simp]: "length (byte_bits x) = 8"
  by (simp add: byte_bits_def)

lemma byte_bits_inj: "byte_bits x = byte_bits y \<Longrightarrow> x = y"
proof (rule bit_word_eqI)
  fix n :: nat
  assume eq: "byte_bits x = byte_bits y" and n: "n < LENGTH(8)"
  have "byte_bits x ! n = byte_bits y ! n" by (simp add: eq)
  then show "bit x n = bit y n" using n by (simp add: byte_bits_def)
qed

lemma bytes_of_bits:
  "concat (map byte_bits xs) @ r = concat (map byte_bits ys) @ r' \<Longrightarrow> length xs = length ys \<Longrightarrow> xs = ys"
proof (induction xs arbitrary: ys)
  case Nil
  then show ?case by simp
next
  case (Cons x xs)
  then obtain y zs where ys: "ys = y # zs" by (cases ys) auto
  then have "byte_bits x = byte_bits y" "concat (map byte_bits xs) @ r = concat (map byte_bits zs) @ r'"
    using Cons.prems(1) by (simp_all add: append_eq_append_conv)
  then show ?case using Cons.IH [of zs] Cons.prems(2) byte_bits_inj by (simp add: ys)
qed

text \<open>The words that hold a frame of \<open>L\<close> bytes and its checksum.\<close>

lemma received_words:
  assumes f: "frame_bits ws j tail = concat (map byte_bits bs) @ word_bits 32 fcs" and j: "j < 4"
  shows "4 * length ws + j = length bs + 4" "take (length bs) (words_bytes ws) = bs"
proof -
  have "32 * length ws + 8 * j = 8 * length bs + 32"
    using arg_cong [OF f, of length] by (simp add: length_frame_bits length_concat_same [where n = 8])
  then show n: "4 * length ws + j = length bs + 4" by linarith
  then have l: "length bs \<le> length (words_bytes ws)" using j by simp
  have "concat (map byte_bits (words_bytes ws)) @ word_bits (8 * j) tail = concat (map byte_bits bs) @ word_bits 32 fcs"
    using f by (simp add: frame_bits_def words_bits_bytes)
  moreover have "concat (map byte_bits (words_bytes ws)) =
      concat (map byte_bits (take (length bs) (words_bytes ws))) @ concat (map byte_bits (drop (length bs) (words_bytes ws)))"
    by (metis append_take_drop_id concat_append map_append)
  ultimately have "concat (map byte_bits (take (length bs) (words_bytes ws))) @
      (concat (map byte_bits (drop (length bs) (words_bytes ws))) @ word_bits (8 * j) tail) =
      concat (map byte_bits bs) @ word_bits 32 fcs"
    by simp
  then show "take (length bs) (words_bytes ws) = bs" by (rule bytes_of_bits) (use l in simp)
qed

lemma commit_received: "miiPacketsReceived (miiCommitBuffer a len s) = miiPacketsReceived s"
  by (simp add: miiCommitBuffer_def wrap_bank_def miiNotify_def set_w_def Let_def)

text \<open>The packet that is committed, and the counters.\<close>

lemma received_contents:
  assumes rx: "lld_receive (packetInLLD (srv v)) time ws (8 * j) data (m, r4, r10) = (mm, e)"
    and p: "packetInLLD (srv v) \<noteq> 0" and n: "4 * length ws + j = L + 4" "j < 4"
  shows "\<exists>xs. packet_of (srv (with_mem v mm)) (packetInLLD (srv v) - 4, int (L + 4)) = (int L, sint time, xs) \<and>
    take L (words_bytes xs) = take L (words_bytes ws)"
proof -
  note B = lld_receive_buffer [OF rx p]
  let ?xs = "map (\<lambda>i. mm (packetInLLD (srv v) + 4 + 4 * int i)) [0..<(L + 3) div 4]"
  have "(L + 3) div 4 \<le> length ws" using n by linarith
  then have xs: "?xs = take ((L + 3) div 4) ws" using B(3) by (intro nth_equalityI) simp_all
  have "L \<le> 4 * ((L + 3) div 4)" by linarith
  then have "take L (words_bytes ?xs) = take L (words_bytes ws)"
    unfolding xs words_bytes_take by (simp add: min_absorb1)
  moreover have "nat ((int (L + 4) - 4 + 3) div 4) = (L + 3) div 4"
    using zdiv_int [of "L + 3" 4] by (metis add_diff_cancel_right' nat_int of_nat_add of_nat_numeral)
  then have "packet_of (srv (with_mem v mm)) (packetInLLD (srv v) - 4, int (L + 4)) = (int L, sint time, ?xs)"
    using B(2) by (simp add: packet_of_def get_w_def algebra_simps)
  ultimately show ?thesis by blast
qed

lemma interrupt_counts:
  "nextBuffer s = - 1 \<Longrightarrow> miiPacketsOverran (miiInterruptHandler e s) = miiPacketsOverran s + 1"
  "nextBuffer s \<noteq> - 1 \<Longrightarrow> lld_length s e \<noteq> 0 \<Longrightarrow>
     miiPacketsReceived (miiInterruptHandler e s) = miiPacketsReceived s + 1"
  by (simp_all add: miiInterruptHandler_def miiClientUser_def packetGood_def Let_def commit_received lld_length_def)

lemma with_mem_counts [simp]:
  "miiPacketsOverran (srv (with_mem v m)) = miiPacketsOverran (srv v)"
  "miiPacketsReceived (srv (with_mem v m)) = miiPacketsReceived (srv v)"
  by (simp_all add: with_mem_def)

text \<open>C6: From the client on one side to the packet on the other. A frame of 12 to 1515 bytes that the client
gives to \<open>mac_tx_lite\<close> leaves the driver; if its bits reach another lite server unchanged at any point of
a run of that server, the frame is received by steps of the run: the driver stores it inside its
buffer, and when the driver has a buffer to go on with, the interrupt routine commits, whatever the
destination address, exactly one packet to the bank of the buffer, with the time, the length and the bytes of the frame; without one the frame
is counted as overrun and nothing else changes. With \<open>lite_server_delivers\<close> it is then delivered to the
client.\<close>

theorem lite_link:
  assumes run: "0 < b" "4 dvd b" "1536 \<le> words" "lite_run b words (v, com, del)"
    and L: "inj_on tails {..<4}" "12 \<le> L" "L \<le> 1515" "L \<le> 4 * length buffer"
    and tx: "mac_tx_lite buffer (of_nat L) = Some ts" "lite_transmit tails b' ts precise m = Some (m', outs)"
    and wire: "frame_bits ws j (drop_bit (32 - 8 * j) data) = wire_bits (drop 2 outs)" "j < 4"
    and rx: "lld_receive (packetInLLD (srv v)) time ws (8 * j) data (lmem (srv v), r4, r10) = (mm, e)"
  shows "\<exists>com'. lite_run b words (with_mem v mm\<lparr>srv := miiInterruptHandler e (srv (with_mem v mm))\<rparr>, com', del) \<and>
    (if nextBuffer (srv v) = - 1
     then com' = com \<and>
       miiPacketsOverran (miiInterruptHandler e (srv (with_mem v mm))) = miiPacketsOverran (srv v) + 1
     else (\<exists>xs. com' = com(bank_at (srv v) (packetInLLD (srv v)) :=
              com (bank_at (srv v) (packetInLLD (srv v))) @ [(int L, sint time, xs)]) \<and>
            take L (words_bytes xs) = take L (words_bytes buffer)) \<and>
          miiPacketsReceived (miiInterruptHandler e (srv (with_mem v mm))) = miiPacketsReceived (srv v) + 1)"
proof -
  let ?v = "with_mem v mm" and ?p = "packetInLLD (srv v)" and ?bs = "take L (words_bytes buffer)"
  have p: "?p \<noteq> 0" using run_buffer_positive [OF run] by simp
  obtain fcs where fcs: "wire_bits (drop 2 outs) = concat (map byte_bits ?bs) @ word_bits 32 fcs"
    and crc: "crc_bits (wire_bits (drop 2 outs)) crc_init = NOT 0"
    using lite_frame_wire [OF L(1,2) _ L(4), of b' precise m] L(3) tx by auto
  have lb: "length ?bs = L" using L(4) by simp
  note W = received_words [OF trans [OF wire(1) fcs] wire(2), unfolded lb]
  have "CRCBad mm ?p e = of_nat (L + 4)"
    using CRCBad_received [OF rx p wire(2)] wire(1) crc W(1) by simp
  then have len: "lld_length (srv ?v) e = int (L + 4)"
    using out_length(1) [of "of_nat (L + 4)" "L + 4"] L(3) by (simp add: lld_length_def)
  have "lite_run b words (?v, com, del)"
  proof (rule run_receive [OF run(4) p rx])
    show "4 * length ws + 12 < 1530" using W(1) L(3) by presburger
  qed
  from lite_run.interrupt [OF this, of e] have
    R: "lite_run b words (?v\<lparr>srv := miiInterruptHandler e (srv ?v)\<rparr>, commit_log (srv ?v) e com, del)"
    using len L(2,3) by simp
  obtain xs where xs: "packet_of (srv ?v) (?p - 4, int (L + 4)) = (int L, sint time, xs)"
    "take L (words_bytes xs) = ?bs"
    using received_contents [OF rx p W(1) wire(2)] W(2) by auto
  then have "commit_log (srv ?v) e com =
      (if nextBuffer (srv v) = - 1 then com
       else com(bank_at (srv v) ?p := com (bank_at (srv v) ?p) @ [(int L, sint time, xs)]))"
    using len by (simp add: commit_log_def bank_at_def)
  moreover note interrupt_counts [of "srv ?v" e]
  ultimately show ?thesis using R xs(2) len by (intro exI [of _ "commit_log (srv ?v) e com"]) auto
qed

theorem lite_link_witness:
  "\<exists>ws mm e com'. lld_receive 8 7 ws 0 0 (lmem (srv example_start), 0, 0) = (mm, e) \<and>
     lite_run 4 1536 (with_mem example_start mm\<lparr>srv := miiInterruptHandler e (srv (with_mem example_start mm))\<rparr>,
       com', \<lambda>_. []) \<and>
     (\<exists>xs. com' 0 = [(60, 7, xs)] \<and> take 60 (words_bytes xs) = take 60 (words_bytes (replicate 15 1)))"
proof -
  have run: "lite_run 4 1536 (example_start, \<lambda>_. [], \<lambda>_. [])"
    unfolding example_start_def by (rule lite_run.start)
  have inj: "inj_on (of_nat :: nat \<Rightarrow> word32) {..<4}"
    by (rule inj_onI, drule arg_cong [where f = unat]) (simp add: unat_of_nat take_bit_nat_eq_self)
  obtain ts m' outs fcs where tx: "mac_tx_lite (replicate 15 1) (of_nat 60) = Some ts"
      "lite_transmit of_nat 100 ts 0 (\<lambda>_. 0) = Some (m', outs)"
    and w: "wire_bits (drop 2 outs) = concat (map byte_bits (take 60 (words_bytes (replicate 15 1)))) @ word_bits 32 fcs"
    using lite_frame_wire [OF inj, of 60 "replicate 15 1" 100 0 "\<lambda>_. 0"] by auto
  let ?ws = "replicate 15 1 @ [fcs]"
  have f: "frame_bits ?ws 0 (drop_bit (32 - 8 * 0) 0) = wire_bits (drop 2 outs)"
    unfolding w using words_bits_bytes [of "replicate 15 1"] by (simp add: frame_bits_def word_bits_def [of 0])
  have p: "packetInLLD (srv example_start) = 8" "nextBuffer (srv example_start) \<noteq> - 1"
    "bank_at (srv example_start) 8 = 0" "sint (7 :: word32) = 7"
    by code_simp+
  obtain mm e where rx: "lld_receive 8 7 ?ws (8 * 0) 0 (lmem (srv example_start), 0, 0) = (mm, e)" by fastforce
  obtain com' where "lite_run 4 1536
      (with_mem example_start mm\<lparr>srv := miiInterruptHandler e (srv (with_mem example_start mm))\<rparr>, com', \<lambda>_. [])"
    "\<exists>xs. com' 0 = [(60, 7, xs)] \<and> take 60 (words_bytes xs) = take 60 (words_bytes (replicate 15 1))"
    using lite_link [OF _ _ _ run inj _ _ _ tx f _ rx [folded p(1)]] by (auto simp: p)
  then show ?thesis using rx unfolding mult_0_right by blast
qed

text \<open>
  The last word that the driver stores for a frame of 1520 to 1523 bytes, checksum included, such as the longest
  frame with a VLAN tag, is behind the buffer; at the last place of a bank where a buffer starts, it is the first
  header of the next bank or the word behind the array.
\<close>

lemma long_frame_stores_behind:
  assumes "lld_receive p time ws bits data (m, r4, r10) = (mm, e)" "p \<noteq> 0" "length ws = 380"
  shows "mm (p + 1532) = fold (\<lambda>w r. crc32 r w) ws crc_init" "p + MAXPACKET < p + 1532"
    "4 dvd F \<Longrightarrow> 4 dvd p \<Longrightarrow> p \<le> F - MAXPACKET \<Longrightarrow> F - MAXPACKET < p + 4 \<Longrightarrow> p + 1532 = F"
proof -
  show "mm (p + 1532) = fold (\<lambda>w r. crc32 r w) ws crc_init"
    using assms by (auto simp: lld_receive_def mii_rxd_packet_def mii_rxd_preamble_def fold_mii_rxd mii_rxdv0_def
      mii_rxLastBits_def Let_def)
  show "p + MAXPACKET < p + 1532" by (simp add: MAXPACKET_def)
  show "4 dvd F \<Longrightarrow> 4 dvd p \<Longrightarrow> p \<le> F - MAXPACKET \<Longrightarrow> F - MAXPACKET < p + 4 \<Longrightarrow> p + 1532 = F"
    unfolding MAXPACKET_def by presburger
qed

end
