(* ===== verification/Lite_Close.thy ===== *)
theory Lite_Close
  imports Prelude
begin

text \<open>
  The control tokens of \<open>mii_client_user.xc\<close> and of the driver: the start and the end of a packet,
  the closing of the three channels on both sides, and \<open>miiTimeStampInit\<close>. What waits on a channel end is a
  list of tokens; an input waits when there is none, and \<open>chkct\<close> traps on any other token than the expected.
\<close>

datatype token = Dat byte | Ctl nat

datatype 'a input = Done 'a | Waits | Traps

fun bind_input :: "'a input \<Rightarrow> ('a \<Rightarrow> 'b input) \<Rightarrow> 'b input" where
  "bind_input (Done x) f = f x"
| "bind_input Waits f = Waits"
| "bind_input Traps f = Traps"

fun chkct :: "nat \<Rightarrow> token list \<Rightarrow> token list input" where
  "chkct n [] = Waits"
| "chkct n (Ctl c # ts) = (if c = n then Done ts else Traps)"
| "chkct n (Dat b # ts) = Traps"

definition mii_out_packet_done :: "token list \<Rightarrow> token list input" where
  "mii_out_packet_done c_out = chkct 1 c_out"

definition mii_out_init :: "token list \<Rightarrow> token list input" where
  "mii_out_init c_out = chkct 1 c_out"

text \<open>\<open>while (!testct(c)) inuchar(c)\<close>; the test waits for a token.\<close>

fun skip_data :: "token list \<Rightarrow> token list input" where
  "skip_data [] = Waits"
| "skip_data (Ctl c # ts) = Done (Ctl c # ts)"
| "skip_data (Dat b # ts) = skip_data ts"

text \<open>What \<open>drain\<close> reads after it sent its token, from the tokens that come in then.\<close>

definition drain_channel :: "token list \<Rightarrow> token list input" where
  "drain_channel c = bind_input (skip_data c) (chkct 1)"

text \<open>
  The driver's side, \<open>stateDone\<close>: it answers on the channel of the packets it sends, then throws away what is
  on the channel of the received packets, and answers there.
\<close>

definition stateDone :: "token list \<Rightarrow> token list \<Rightarrow> (token list \<times> token list \<times> token list \<times> token list) input" where
  "stateDone OUTchannel INchannel =
     bind_input (chkct 1 OUTchannel) (\<lambda>out.
       bind_input (drain_channel INchannel) (\<lambda>inp. Done (out, [Ctl 1], inp, [Ctl 1])))"

text \<open>
  \<open>mii_close\<close> with the driver in \<open>outIdle\<close>, which has not yet read any of the tokens \<open>toDriver\<close> on its end of the
  channel of received packets. The channel end of the notifications is connected to itself, so the token that
  \<open>drain\<close> sends on it comes behind the characters that wait there. The driver sees the token on
  \<open>cOut\<close> and goes to \<open>stateDone\<close>. The result is what is left on the three channels here and the two at the driver.
\<close>

definition mii_close ::
  "token list \<Rightarrow> token list \<Rightarrow> token list \<Rightarrow> token list \<Rightarrow>
     ((token list \<times> token list \<times> token list) \<times> token list \<times> token list) input" where
  "mii_close cNotifications cIn cOut toDriver =
     bind_input (drain_channel (cNotifications @ [Ctl 1])) (\<lambda>notifications.
       bind_input (stateDone [Ctl 1] (toDriver @ [Ctl 1])) (\<lambda>(dout, outAnswer, din, inAnswer).
         bind_input (chkct 1 (cOut @ outAnswer)) (\<lambda>out.
           bind_input (drain_channel (cIn @ inAnswer)) (\<lambda>inp. Done ((notifications, inp, out), dout, din)))))"

definition miiTimeStampInit :: "word32 \<Rightarrow> word32" where
  "miiTimeStampInit offset = (offset + 10000) AND 0x3FFFF"

subsection \<open>Closing ends\<close>

lemma drain_channel_data: "drain_channel (map Dat bs @ Ctl 1 # ts) = Done ts"
proof -
  have "skip_data (map Dat bs @ Ctl 1 # ts) = Done (Ctl 1 # ts)" by (induction bs) simp_all
  then show ?thesis by (simp add: drain_channel_def)
qed

text \<open>
  Closing returns and leaves all channels empty, whatever characters are under way, provided the driver's
  request for a packet was already taken by \<open>mii_out_init\<close> or \<open>mii_out_packet_done\<close>; if it was not, the
  answer of the driver stays on the channel.
\<close>

lemma mii_close_returns:
  "mii_close (map Dat ns) (map Dat is) [] (map Dat ds) = Done (([], [], []), [], [])"
  "mii_close (map Dat ns) (map Dat is) [Ctl 1] (map Dat ds) = Done (([], [], [Ctl 1]), [], [])"
  using drain_channel_data [of _ "[]"] by (simp_all add: mii_close_def stateDone_def)

end
