(* ===== verification/Demo.thy ===== *)
theory Demo
  imports Checksum
begin

text \<open>
  The demo application \<open>demo.xc\<close>: it answers ARP requests for its address and ICMP echo requests.
  Frames are byte lists. The arrays have 1600 bytes and an index out of bounds is an exception; only
  the loop over the data of an ICMP packet has a bound that comes from the packet, so that loop is the
  one that can be \<open>None\<close>. The messages that the code prints are left out.
\<close>

subsection \<open>Arrays\<close>

text \<open>Consecutive stores, and a word of the array seen as an array of words, least significant byte first.\<close>

definition puts :: "nat \<Rightarrow> byte list \<Rightarrow> byte list \<Rightarrow> byte list" where
  "puts i bs buf = fold (\<lambda>k buf. buf[i + k := bs ! k]) [0..<length bs] buf"

definition word_at :: "byte list \<Rightarrow> nat \<Rightarrow> word32" where
  "word_at buf k = word_of_bytes (buf ! (4 * k)) (buf ! (4 * k + 1)) (buf ! (4 * k + 2)) (buf ! (4 * k + 3))"

definition put_word_at :: "nat \<Rightarrow> word32 \<Rightarrow> byte list \<Rightarrow> byte list" where
  "put_word_at k w = puts (4 * k) (bytes_of_word w)"

lemma length_puts [simp]: "length (puts i bs buf) = length buf"
proof -
  have "length (fold (\<lambda>k buf. buf[i + k := bs ! k]) ks buf) = length buf" for ks
    by (induction ks arbitrary: buf) simp_all
  then show ?thesis by (simp add: puts_def)
qed

lemma puts_nth:
  "j < length buf \<Longrightarrow> puts i bs buf ! j = (if i \<le> j \<and> j < i + length bs then bs ! (j - i) else buf ! j)"
proof -
  assume j: "j < length buf"
  have "fold (\<lambda>k buf. buf[i + k := bs ! k]) [0..<n] buf ! j =
      (if i \<le> j \<and> j < i + n then bs ! (j - i) else buf ! j) \<and>
      length (fold (\<lambda>k buf. buf[i + k := bs ! k]) [0..<n] buf) = length buf" for n
  proof (induction n)
    case (Suc n)
    then show ?case by (cases "j = i + n") (use j in \<open>auto simp: nth_list_update\<close>)
  qed (use j in auto)
  then show ?thesis by (simp add: puts_def)
qed

subsection \<open>Filters\<close>

definition OWN_IP_ADDRESS :: "byte list" where
  "OWN_IP_ADDRESS = [10, 0, 102, 178]"

definition ethertype_ip :: "byte list" where
  "ethertype_ip = [0x08, 0x00]"

definition ethertype_arp :: "byte list" where
  "ethertype_arp = [0x08, 0x06]"

definition is_ethertype :: "byte list \<Rightarrow> byte list \<Rightarrow> bool" where
  "is_ethertype data ty \<longleftrightarrow> data ! 12 = ty ! 0 \<and> data ! 13 = ty ! 1"

definition is_mac_addr :: "byte list \<Rightarrow> byte list \<Rightarrow> bool" where
  "is_mac_addr data mac = list_all (\<lambda>i. data ! i = mac ! i) [0..<6]"

definition is_broadcast_demo :: "byte list \<Rightarrow> bool" where
  "is_broadcast_demo data = list_all (\<lambda>i. data ! i = 0xFF) [0..<6]"

definition mac_custom_filter :: "byte list \<Rightarrow> int" where
  "mac_custom_filter data =
     (if is_ethertype data ethertype_arp then 1 else if is_ethertype data ethertype_ip then 1 else 0)"

subsection \<open>ARP\<close>

definition is_valid_arp_packet :: "byte list \<Rightarrow> bool" where
  "is_valid_arp_packet rxbuf =
     (if rxbuf ! 12 \<noteq> 0x08 \<or> rxbuf ! 13 \<noteq> 0x06 then False
      else if word_at rxbuf 3 \<noteq> 0x01000608 then False
      else if word_at rxbuf 4 \<noteq> 0x04060008 then False
      else if word_at rxbuf 5 AND 0xFFFF \<noteq> 0x0100 then False
      else list_all (\<lambda>i. rxbuf ! (38 + i) = OWN_IP_ADDRESS ! i) [0..<4])"

definition build_arp_response :: "byte list \<Rightarrow> byte list \<Rightarrow> byte list \<Rightarrow> byte list \<times> int" where
  "build_arp_response rxbuf txbuf own_mac_addr =
     (let txbuf = fold (\<lambda>i txbuf. txbuf[i := rxbuf ! (22 + i), 32 + i := rxbuf ! (22 + i)]) [0..<6] txbuf;
          (txbuf, word) = fold (\<lambda>i (txbuf, word). (txbuf[38 + i := ucast (word AND 0xFF)], drop_bit 8 word))
                            [0..<4] (txbuf, word_at rxbuf 7);
          txbuf = puts 28 OWN_IP_ADDRESS txbuf;
          txbuf = fold (\<lambda>i txbuf. txbuf[22 + i := own_mac_addr ! i, 6 + i := own_mac_addr ! i]) [0..<6] txbuf;
          txbuf = put_word_at 3 0x01000608 txbuf;
          txbuf = put_word_at 4 0x04060008 txbuf;
          txbuf = txbuf[20 := 0x00, 21 := 0x02];
          txbuf = fold (\<lambda>i txbuf. txbuf[i := 0x00]) [42..<64] txbuf
      in (txbuf, 64))"

subsection \<open>ICMP\<close>

text \<open>The total length of the IP packet, from bytes 16 and 17.\<close>

definition total_length :: "byte list \<Rightarrow> word32" where
  "total_length rxbuf = drop_bit 16 (byterev (word_at rxbuf 4))"

definition is_valid_icmp_packet :: "byte list \<Rightarrow> int \<Rightarrow> bool" where
  "is_valid_icmp_packet rxbuf nbytes =
     (if rxbuf ! 23 \<noteq> 0x01 then False
      else if word_at rxbuf 3 \<noteq> 0x00450008 then False
      else if drop_bit 16 (word_at rxbuf 8) \<noteq> 0x0008 then False
      else if \<not> list_all (\<lambda>i. rxbuf ! (30 + i) = OWN_IP_ADDRESS ! i) [0..<4] then False
      else if 60 < nbytes \<and> word_of_int nbytes \<noteq> total_length rxbuf + 14 then False
      else checksum_ip rxbuf = 0)"

definition build_icmp_response :: "byte list \<Rightarrow> byte list \<Rightarrow> byte list \<Rightarrow> (byte list \<times> int) option" where
  "build_icmp_response rxbuf txbuf own_mac_addr =
     (let ttl = 0x40;
          ip_checksum = 0x0185;
          txbuf = fold (\<lambda>i txbuf. txbuf[i := rxbuf ! (6 + i)]) [0..<6] txbuf;
          txbuf = fold (\<lambda>i txbuf. txbuf[30 + i := rxbuf ! (26 + i)]) [0..<4] txbuf;
          icmp_checksum = drop_bit 16 (byterev (word_at rxbuf 9));
          txbuf = fold (\<lambda>i txbuf. txbuf[38 + i := rxbuf ! (38 + i)]) [0..<4] txbuf;
          datalen = sint (total_length rxbuf) - 28
      in if 0 < datalen \<and> (length txbuf < 42 + nat datalen \<or> length rxbuf < 42 + nat datalen) then None
         else
           let txbuf = fold (\<lambda>i txbuf. txbuf[42 + i := rxbuf ! (42 + i)]) [0..<nat datalen] txbuf;
               txbuf = fold (\<lambda>i txbuf. txbuf[6 + i := own_mac_addr ! i]) [0..<6] txbuf;
               txbuf = put_word_at 3 0x00450008 txbuf;
               totallen = drop_bit 16 (byterev (word_of_int (28 + datalen)));
               txbuf = put_word_at 4 totallen txbuf;
               ip_checksum = ip_checksum + totallen;
               txbuf = put_word_at 5 (0x01000000 OR push_bit 16 ttl) txbuf;
               txbuf = put_word_at 6 0 txbuf;
               txbuf = puts 26 OWN_IP_ADDRESS txbuf;
               ip_checksum = ip_checksum + u16_at OWN_IP_ADDRESS 0;
               ip_checksum = ip_checksum + u16_at OWN_IP_ADDRESS 2;
               ip_checksum = ip_checksum + u16_at txbuf 30;
               ip_checksum = ip_checksum + u16_at txbuf 32;
               txbuf = txbuf[34 := 0x00, 35 := 0x00];
               icmp_checksum = icmp_checksum + 0x0800;
               icmp_checksum = icmp_checksum + drop_bit 16 icmp_checksum;
               txbuf = txbuf[36 := ucast (drop_bit 8 icmp_checksum), 37 := ucast (icmp_checksum AND 0xFF)];
               ip_checksum = fold_carry ip_checksum;
               ip_checksum = drop_bit 16 (byterev (NOT ip_checksum));
               txbuf = txbuf[24 := ucast (drop_bit 8 ip_checksum), 25 := ucast (ip_checksum AND 0xFF)];
               txbuf = fold (\<lambda>i txbuf. txbuf[nat i := 0x00]) [42 + datalen..63] txbuf
           in Some (txbuf, max (42 + datalen) 64))"

subsection \<open>The loop\<close>

text \<open>
  One turn: the frame that is sent to all ports, if any, and the array. The build with the lite MAC
  filters here; \<open>None\<close> is the exception.
\<close>

definition demo_turn ::
  "bool \<Rightarrow> byte list \<Rightarrow> byte list \<Rightarrow> int \<Rightarrow> byte list \<Rightarrow> (byte list \<times> byte list option) option" where
  "demo_turn lite own_mac_addr rxbuf nbytes txbuf =
     (if lite \<and> \<not> is_broadcast_demo rxbuf \<and> \<not> is_mac_addr rxbuf own_mac_addr then Some (txbuf, None)
      else if lite \<and> mac_custom_filter rxbuf \<noteq> 1 then Some (txbuf, None)
      else if is_valid_arp_packet rxbuf then
        let (txbuf, _) = build_arp_response rxbuf txbuf own_mac_addr
        in Some (txbuf, Some (take (nat nbytes) txbuf))
      else if is_valid_icmp_packet rxbuf nbytes then
        map_option (\<lambda>(txbuf, _). (txbuf, Some (take (nat nbytes) txbuf)))
          (build_icmp_response rxbuf txbuf own_mac_addr)
      else Some (txbuf, None))"

subsection \<open>The code's loops as stores\<close>

lemma fold_puts: "fold (\<lambda>i buf. buf[a + i := f i]) [0..<n] buf = puts a (map f [0..<n]) buf"
  unfolding puts_def by (intro fold_cong) simp_all

lemma fold_puts0: "fold (\<lambda>i buf. buf[i := f i]) [0..<n] buf = puts 0 (map f [0..<n]) buf"
  using fold_puts [of 0] by simp

lemma fold_puts2:
  "fold (\<lambda>i buf. buf[a + i := f i, b + i := f i]) [0..<n] buf = puts b (map f [0..<n]) (puts a (map f [0..<n]) buf)"
  if "a + n \<le> b \<or> b + n \<le> a"
proof -
  have "m \<le> n \<Longrightarrow> fold (\<lambda>i buf. buf[a + i := f i, b + i := f i]) [0..<m] buf =
      fold (\<lambda>i buf. buf[b + i := f i]) [0..<m] (fold (\<lambda>i buf. buf[a + i := f i]) [0..<m] buf)" for m
  proof (induction m)
    case (Suc m)
    have "fold (\<lambda>i buf. buf[b + i := f i]) [0..<k] (xs[a + m := y]) =
        (fold (\<lambda>i buf. buf[b + i := f i]) [0..<k] xs)[a + m := y]" if "k \<le> m" for k xs y
      using that Suc.prems \<open>a + n \<le> b \<or> b + n \<le> a\<close>
      by (induction k arbitrary: xs) (auto simp: list_update_swap)
    then show ?case using Suc by simp
  qed simp
  then show ?thesis by (simp add: fold_puts)
qed

lemma fold_zeros: "fold (\<lambda>i buf. buf[i := 0]) [a..<b] buf = puts a (replicate (b - a) 0) buf"
proof (cases "a \<le> b")
  case True
  have "[a..<b] = map (\<lambda>i. a + i) [0..<b - a]" using True by (intro nth_equalityI) simp_all
  then have "fold (\<lambda>i buf. buf[i := 0]) [a..<b] buf = fold (\<lambda>i buf. buf[a + i := 0]) [0..<b - a] buf"
    by (simp add: fold_map comp_def)
  then show ?thesis by (simp only: fold_puts map_replicate_const length_upt) simp
qed (simp add: puts_def)

lemma fold_zeros_int:
  assumes "0 \<le> lo"
  shows "fold (\<lambda>i buf. buf[nat i := 0]) [lo..63] buf = puts (nat lo) (replicate (64 - nat lo) 0) buf"
proof -
  have "[lo..63] = map int [nat lo..<64]" using assms by (intro nth_equalityI) auto
  then show ?thesis by (simp add: fold_map comp_def fold_zeros)
qed

subsection \<open>Bytes of words\<close>

lemma word_byte_word_at:
  "word_byte (word_at buf k) 0 = buf ! (4 * k)" "word_byte (word_at buf k) 1 = buf ! (4 * k + 1)"
  "word_byte (word_at buf k) 2 = buf ! (4 * k + 2)" "word_byte (word_at buf k) 3 = buf ! (4 * k + 3)"
  by (simp_all add: word_at_def)

lemma word_at_eq:
  "word_at buf k = w \<longleftrightarrow> buf ! (4 * k) = word_byte w 0 \<and> buf ! (4 * k + 1) = word_byte w 1 \<and>
     buf ! (4 * k + 2) = word_byte w 2 \<and> buf ! (4 * k + 3) = word_byte w 3"
proof
  assume "buf ! (4 * k) = word_byte w 0 \<and> buf ! (4 * k + 1) = word_byte w 1 \<and>
     buf ! (4 * k + 2) = word_byte w 2 \<and> buf ! (4 * k + 3) = word_byte w 3"
  then show "word_at buf k = w" by (simp add: word_at_def)
qed (use word_byte_word_at [of buf k] in auto)

lemma word_byte_drop_bit: "word_byte (drop_bit (8 * m) w) k = word_byte w (k + m)"
  by (rule bit_word_eqI) (simp add: bit_word_byte bit_drop_bit_eq algebra_simps)

lemma word_byte_above [simp]: "4 \<le> k \<Longrightarrow> word_byte w k = 0"
  by (rule bit_word_eqI) (auto simp: bit_word_byte dest: bit_imp_le_length)

lemma low_byte_mask: "ucast ((w :: word32) AND 0xFF) = word_byte w 0"
proof -
  have "(0xFF :: word32) = mask 8" by (simp add: mask_eq_exp_minus_1)
  then have "w AND 0xFF = take_bit 8 w" by (simp add: take_bit_eq_mask)
  then have "(ucast (w AND 0xFF) :: byte) = ucast (take_bit 8 w)" by (simp only:)
  also have "\<dots> = word_byte w 0" by (intro bit_word_eqI) (auto simp: bit_word_byte bit_simps)
  finally show ?thesis .
qed

lemma ucast_drop_bit: "ucast (drop_bit (8 * k) (w :: word32)) = word_byte w k"
  by (simp add: word_byte_def)

subsection \<open>The ARP response\<close>

definition arp_reply :: "byte list \<Rightarrow> byte list \<Rightarrow> byte list" where
  "arp_reply rxbuf own =
     byte_range rxbuf 22 6 @ own @ [0x08, 0x06, 0, 1, 0x08, 0x00, 6, 4, 0, 2] @ own @ OWN_IP_ADDRESS @
     byte_range rxbuf 22 6 @ byte_range rxbuf 28 4 @ replicate 22 0"

lemma map_nth_byte_range: "a + n \<le> length buf \<Longrightarrow> map (\<lambda>i. buf ! (a + i)) [0..<n] = byte_range buf a n"
  by (intro nth_equalityI) (simp_all add: byte_range_def)

lemma build_arp_response_puts:
  assumes "length rxbuf = 1600" "length own = 6"
  shows "build_arp_response rxbuf txbuf own =
    (puts 42 (replicate 22 0) (puts 20 [0, 2] (puts 16 [0x08, 0x00, 6, 4] (puts 12 [0x08, 0x06, 0, 1]
      (puts 6 own (puts 22 own (puts 28 OWN_IP_ADDRESS (puts 38 (byte_range rxbuf 28 4)
        (puts 32 (byte_range rxbuf 22 6) (puts 0 (byte_range rxbuf 22 6) txbuf))))))))), 64)"
proof -
  have own: "map (\<lambda>i. own ! i) [0..<6] = own" using map_nth [of own] assms(2) by simp
  have b: "bytes_of_word 0x01000608 = [0x08, 0x06, 0, 1]" "bytes_of_word 0x04060008 = [0x08, 0x00, 6, 4]"
    by code_simp+
  have w: "fold (\<lambda>i (buf, word). (buf[38 + i := ucast (word AND 0xFF)], drop_bit 8 word)) [0..<4] (buf, word_at rxbuf 7) =
      (puts 38 (byte_range rxbuf 28 4) buf, drop_bit 32 (word_at rxbuf 7))" for buf
  proof -
    have "byte_range rxbuf 28 4 = map (word_byte (word_at rxbuf 7)) [0, 1, 2, 3]"
      unfolding map_nth_byte_range [OF _, of 28 4 rxbuf, symmetric]
      using assms(1) by (simp add: map_nth_byte_range [symmetric] upt_rec word_at_def)
    moreover have "word_byte (w AND 0xFF) 0 = word_byte w 0" for w
      using low_byte_mask [of w] ucast_drop_bit [of 0 "w AND 0xFF"] by simp
    ultimately show ?thesis
      using word_byte_drop_bit [of 1 _ 0] word_byte_drop_bit [of 2 _ 0] word_byte_drop_bit [of 3 _ 0] low_byte_mask
      by (simp add: upt_rec puts_def numeral_2_eq_2)
  qed
  have p: "buf[20 := 0, 21 := 2] = puts 20 [0, 2] buf" for buf by (simp add: puts_def)
  show ?thesis
    unfolding build_arp_response_def Let_def
    using assms(1) by (simp add: fold_puts2 [of 0, simplified] w fold_puts2 own map_nth_byte_range put_word_at_def
        b fold_zeros p del: upt_rec_numeral)
qed

lemma puts_at:
  "length bs = m \<Longrightarrow> i + m \<le> length buf \<Longrightarrow> puts i bs buf = take i buf @ bs @ drop (i + m) buf"
  by (intro nth_equalityI) (auto simp: puts_nth nth_append)

lemma arp_response:
  assumes "length rxbuf = 1600" "length txbuf = 1600" "length own = 6"
  shows "build_arp_response rxbuf txbuf own = (arp_reply rxbuf own @ drop 64 txbuf, 64)"
proof -
  have "length (byte_range rxbuf 22 6) = 6" "length (byte_range rxbuf 28 4) = 4" "length OWN_IP_ADDRESS = 4"
    using assms(1) by (simp_all add: byte_range_def OWN_IP_ADDRESS_def)
  note L = this assms(3)
  show ?thesis
    unfolding build_arp_response_puts [OF assms(1,3)]
    using assms(2)
    by (simp add: arp_reply_def puts_at [OF L(1)] puts_at [OF L(2)] puts_at [OF L(3)] puts_at [OF L(4)] puts_at L)
qed

subsection \<open>The ICMP response\<close>

lemma drop16_byterev:
  "drop_bit 16 (byterev w) = word_of_bytes (word_byte w 1) (word_byte w 0) 0 0"
  by (rule bit_word_eqI)
    (auto simp: byterev_def bit_simps bit_word_of_bytes bit_word_byte dest: bit_imp_le_length)

lemma unat_word_of_bytes_low: "unat (word_of_bytes a b 0 0) = unat a + 256 * unat b"
proof -
  have "word_of_bytes a b 0 0 = u16_at [a, b] 0" by (simp add: word_of_bytes_def u16_at_def)
  then have "word_of_bytes a b 0 0 = of_nat (unat a + 256 * unat b)" by (simp add: u16_at_unat)
  moreover have "unat a + 256 * unat b < 2 ^ 32" using byte_less [of a] byte_less [of b] by simp
  ultimately show ?thesis by (simp only: unat_of_nat) (simp add: take_bit_nat_eq_self)
qed

lemma total_length_bytes: "total_length rxbuf = word_of_bytes (rxbuf ! 17) (rxbuf ! 16) 0 0"
  by (simp add: total_length_def drop16_byterev word_at_def)

lemma total_length_unat: "unat (total_length rxbuf) = 256 * unat (rxbuf ! 16) + unat (rxbuf ! 17)"
  by (simp add: total_length_bytes unat_word_of_bytes_low)

lemma total_length_sint: "sint (total_length rxbuf) = int (unat (total_length rxbuf))"
proof -
  have "unat (total_length rxbuf) < 65536"
    using byte_less [of "rxbuf ! 16"] byte_less [of "rxbuf ! 17"] by (simp add: total_length_unat)
  then have "int (unat (total_length rxbuf)) < 65536" by linarith
  also have "65536 < (2 ^ 31 :: int)" by simp
  finally have "int (unat (total_length rxbuf)) < 2 ^ 31" .
  from sint_of_ptr [OF _ this] show ?thesis by simp
qed

text \<open>The frame before the checksum of its header is put in, with the checksum of the ICMP message.\<close>

definition icmp_frame :: "byte list \<Rightarrow> byte list \<Rightarrow> nat \<Rightarrow> word32 \<Rightarrow> byte list" where
  "icmp_frame rxbuf own n c =
     byte_range rxbuf 6 6 @ own @ [0x08, 0x00, 0x45, 0] @ [rxbuf ! 16, rxbuf ! 17, 0, 0] @ [0, 0, 0x40, 1] @
     [0, 0] @ OWN_IP_ADDRESS @ byte_range rxbuf 26 4 @ [0, 0] @ [word_byte c 1, word_byte c 0] @
     byte_range rxbuf 38 (4 + n) @ replicate (22 - n) 0"

definition icmp_sum :: "byte list \<Rightarrow> word32" where
  "icmp_sum rxbuf =
     (let c = drop_bit 16 (byterev (word_at rxbuf 9)) + 0x0800 in c + drop_bit 16 c)"

definition icmp_reply :: "byte list \<Rightarrow> byte list \<Rightarrow> nat \<Rightarrow> byte list" where
  "icmp_reply rxbuf own n =
     (let f = icmp_frame rxbuf own n (icmp_sum rxbuf)
      in f[24 := high_byte (checksum_ip f), 25 := low_byte (checksum_ip f)])"

lemma length_icmp_frame:
  "length rxbuf = 1600 \<Longrightarrow> length own = 6 \<Longrightarrow> n \<le> 1558 \<Longrightarrow> length (icmp_frame rxbuf own n c) = 42 + n + (22 - n)"
  by (simp add: icmp_frame_def byte_range_def OWN_IP_ADDRESS_def)

text \<open>The sum that the code builds from the constants of the header is the one of \<open>checksum_ip\<close>.\<close>

lemma header_sum:
  assumes "length rxbuf = 1600" "length own = 6" "n \<le> 1558"
    and b: "b ! 30 = rxbuf ! 26" "b ! 31 = rxbuf ! 27" "b ! 32 = rxbuf ! 28" "b ! 33 = rxbuf ! 29"
  shows "checksum_ip (icmp_frame rxbuf own n c) = ucast (drop_bit 16 (byterev (NOT (fold_carry
      (0x0185 + word_of_bytes (rxbuf ! 16) (rxbuf ! 17) 0 0 + u16_at OWN_IP_ADDRESS 0 + u16_at OWN_IP_ADDRESS 2
       + u16_at b 30 + u16_at b 32)))))"
proof -
  let ?f = "icmp_frame rxbuf own n c"
  have L: "length (byte_range rxbuf 6 6) = 6" "length (byte_range rxbuf 26 4) = 4" "length OWN_IP_ADDRESS = 4"
    using assms(1) by (simp_all add: byte_range_def OWN_IP_ADDRESS_def)
  have s: "byte_range rxbuf 26 4 ! k = rxbuf ! (26 + k)" if "k < 4" for k
    using that assms(1) by (simp add: byte_range_def)
  let ?h = "[0x45, 0, rxbuf ! 16, rxbuf ! 17, 0, 0, 0, 0, 0x40, 1, 0, 0] @ OWN_IP_ADDRESS @ byte_range rxbuf 26 4"
  have h: "?f ! (14 + k) = ?h ! k" if "k < 20" for k
    using that by (simp add: icmp_frame_def nth_append L assms(2) nth_Cons')
  have u: "u16_at ?f (14 + k) = u16_at ?h k" if "k < 19" for k
  proof -
    have "?f ! (14 + k + 1) = ?h ! (k + 1)" using h [of "Suc k"] that by simp
    then show ?thesis using h [of k] that by (simp only: u16_at_def)
  qed
  show ?thesis
    unfolding checksum_ip_def Let_def
    using u [of 0] u [of 2] u [of 4] u [of 6] u [of 8] u [of 10] u [of 12] u [of 14] u [of 16] u [of 18]
    by (simp add: u16_at_def word_of_bytes_def OWN_IP_ADDRESS_def s b nth_append)
qed

lemma ucast_drop_8: "ucast (drop_bit 8 (w :: word32)) = word_byte w 1"
  using ucast_drop_bit [of 1 w] by simp

lemma high_low_byte_ucast:
  "high_byte (ucast (w :: word32)) = ucast (drop_bit 8 w)" "low_byte (ucast (w :: word32)) = ucast (w AND 0xFF)"
  by (rule bit_word_eqI; auto simp: high_byte_def low_byte_mask low_byte_def bit_word_byte bit_simps)+

lemma puts_append:
  "length p = i \<Longrightarrow> length bs \<le> length t \<Longrightarrow> puts i bs (p @ t) = p @ bs @ drop (length bs) t"
  by (simp add: puts_at)

lemma icmp_frame_puts:
  assumes "length rxbuf = 1600" "length txbuf = 1600" "length own = 6" "n \<le> 1558"
  shows "puts (42 + n) (replicate (22 - n) 0) (puts 24 [x, y] (puts 36 [word_byte c 1, word_byte c 0] (puts 34 [0, 0]
      (puts 26 OWN_IP_ADDRESS (puts 24 [0, 0, 0, 0] (puts 20 [0, 0, 0x40, 1]
        (puts 16 [rxbuf ! 16, rxbuf ! 17, 0, 0] (puts 12 [0x08, 0x00, 0x45, 0] (puts 6 own
          (puts 42 (byte_range rxbuf 42 n) (puts 38 (byte_range rxbuf 38 4) (puts 30 (byte_range rxbuf 26 4)
            (puts 0 (byte_range rxbuf 6 6) txbuf)))))))))))))
    = (icmp_frame rxbuf own n c)[24 := x, 25 := y] @ drop (42 + n + (22 - n)) txbuf"
proof -
  have L: "length (byte_range rxbuf 6 6) = 6" "length (byte_range rxbuf 26 4) = 4" "length OWN_IP_ADDRESS = 4"
    "length (byte_range rxbuf 38 4) = 4" "length (byte_range rxbuf 42 n) = n"
    using assms(1,4) by (simp_all add: byte_range_def OWN_IP_ADDRESS_def)
  have d: "byte_range rxbuf 38 (4 + n) = byte_range rxbuf 38 4 @ byte_range rxbuf 42 n"
    by (simp add: byte_range_def take_add)
  let ?p = "byte_range rxbuf 6 6 @ own @ [0x08, 0x00, 0x45, 0] @ [rxbuf ! 16, rxbuf ! 17, 0, 0] @ [0, 0, 0x40, 1] @
     [x, y] @ OWN_IP_ADDRESS @ byte_range rxbuf 26 4 @ [0, 0] @ [word_byte c 1, word_byte c 0] @
     byte_range rxbuf 38 4 @ byte_range rxbuf 42 n"
  have "length ?p = 42 + n" using L assms by simp
  then have "puts (42 + n) (replicate (22 - n) 0) (?p @ drop (42 + n) txbuf)
      = ?p @ replicate (22 - n) 0 @ drop (42 + n + (22 - n)) txbuf"
    using assms(2,4) by (subst puts_append) (simp_all add: add.commute)
  moreover have "puts 24 [x, y] (puts 36 [word_byte c 1, word_byte c 0] (puts 34 [0, 0]
      (puts 26 OWN_IP_ADDRESS (puts 24 [0, 0, 0, 0] (puts 20 [0, 0, 0x40, 1]
        (puts 16 [rxbuf ! 16, rxbuf ! 17, 0, 0] (puts 12 [0x08, 0x00, 0x45, 0] (puts 6 own
          (puts 42 (byte_range rxbuf 42 n) (puts 38 (byte_range rxbuf 38 4) (puts 30 (byte_range rxbuf 26 4)
            (puts 0 (byte_range rxbuf 6 6) txbuf)))))))))))) = ?p @ drop (42 + n) txbuf"
    using assms
    by (simp add: puts_at [OF L(1)] puts_at [OF L(2)] puts_at [OF L(3)] puts_at [OF L(4)]
        puts_at [OF L(5)] puts_at L add.commute)
  ultimately show ?thesis
    using assms L by (simp add: icmp_frame_def d list_update_append)
qed

lemma icmp_response:
  assumes "length rxbuf = 1600" "length txbuf = 1600" "length own = 6" "n \<le> 1558"
    and n: "unat (total_length rxbuf) = 28 + n"
  shows "build_icmp_response rxbuf txbuf own =
    Some (icmp_reply rxbuf own n @ drop (42 + n + (22 - n)) txbuf, max (42 + int n) 64)"
proof -
  let ?b = "puts 26 OWN_IP_ADDRESS (puts 24 [0, 0, 0, 0] (puts 20 [0, 0, 0x40, 1]
        (puts 16 [rxbuf ! 16, rxbuf ! 17, 0, 0] (puts 12 [0x08, 0x00, 0x45, 0] (puts 6 own
          (puts 42 (byte_range rxbuf 42 n) (puts 38 (byte_range rxbuf 38 4) (puts 30 (byte_range rxbuf 26 4)
            (puts 0 (byte_range rxbuf 6 6) txbuf)))))))))"
  have L: "length (byte_range rxbuf 6 6) = 6" "length (byte_range rxbuf 26 4) = 4" "length OWN_IP_ADDRESS = 4"
    "length (byte_range rxbuf 38 4) = 4" "length (byte_range rxbuf 42 n) = n"
    using assms(1,4) by (simp_all add: byte_range_def OWN_IP_ADDRESS_def)
  have s: "byte_range rxbuf 26 4 ! k = rxbuf ! (26 + k)" if "k < 4" for k
    using that assms(1) by (simp add: byte_range_def)
  have b: "?b ! 30 = rxbuf ! 26" "?b ! 31 = rxbuf ! 27" "?b ! 32 = rxbuf ! 28" "?b ! 33 = rxbuf ! 29"
    using assms(2,3) by (simp_all add: puts_nth L s)
  note h = header_sum [OF assms(1,3,4) b, of "icmp_sum rxbuf"]
  have own: "map (\<lambda>i. own ! i) [0..<6] = own" using map_nth [of own] assms(3) by simp
  have w: "bytes_of_word 0x00450008 = [0x08, 0x00, 0x45, 0]" "bytes_of_word 0 = [0, 0, 0, 0]"
    "bytes_of_word 0x01400000 = [0, 0, 0x40, 1]"
    by code_simp+
  have bt: "bytes_of_word (word_of_bytes (rxbuf ! 16) (rxbuf ! 17) 0 0) = [rxbuf ! 16, rxbuf ! 17, 0, 0]"
    by (simp add: bytes_of_word_def)
  have p: "buf[34 := x, 35 := y] = puts 34 [x, y] buf" "buf[36 := x, 37 := y] = puts 36 [x, y] buf"
    "buf[24 := x, 25 := y] = puts 24 [x, y] buf" for buf x y
    by (simp_all add: puts_def)
  have t: "sint (total_length rxbuf) - 28 = int n" using n by (simp add: total_length_sint)
  have i: "28 + word_of_nat n = total_length rxbuf"
  proof -
    have "28 + word_of_nat n = (of_nat (28 + n) :: word32)" by simp
    then show ?thesis by (simp only: n [symmetric]) simp
  qed
  have r: "drop_bit 16 (byterev (total_length rxbuf)) = word_of_bytes (rxbuf ! 16) (rxbuf ! 17) 0 0"
    by (simp add: drop16_byterev total_length_bytes)
  have z: "nat (42 + int n) = 42 + n" by simp
  let ?X = "drop_bit 16 (byterev (NOT (fold_carry (0x0185 + word_of_bytes (rxbuf ! 16) (rxbuf ! 17) 0 0
    + u16_at OWN_IP_ADDRESS 0 + u16_at OWN_IP_ADDRESS 2 + u16_at ?b 30 + u16_at ?b 32))))"
  have hl: "high_byte (ucast ?X) = word_byte ?X 1" "low_byte (ucast ?X) = word_byte ?X 0"
    by (simp_all only: high_low_byte_ucast low_byte_mask ucast_drop_8)
  have reply: "icmp_reply rxbuf own n
      = (icmp_frame rxbuf own n (icmp_sum rxbuf))[24 := word_byte ?X 1, 25 := word_byte ?X 0]"
    by (simp only: icmp_reply_def Let_def h hl)
  show ?thesis
    unfolding build_icmp_response_def Let_def t if_not_P reply icmp_frame_puts [OF assms(1-4), symmetric]
    using assms(1-4) by (simp add: fold_puts0 fold_puts own map_nth_byte_range map_nth_byte_range [of 0, simplified]
      put_word_at_def w i r p bt z low_byte_mask ucast_drop_8 fold_zeros_int icmp_sum_def Let_def
      del: upt_rec_numeral drop_bit_drop_bit)
qed

subsection \<open>What the replies are\<close>

lemma icmp_reply_explicit:
  assumes "length rxbuf = 1600" "length own = 6"
  shows "icmp_reply rxbuf own n =
    (let f = icmp_frame rxbuf own n (icmp_sum rxbuf); c = icmp_sum rxbuf
     in byte_range rxbuf 6 6 @ own @ [0x08, 0x00, 0x45, 0, rxbuf ! 16, rxbuf ! 17, 0, 0, 0, 0, 0x40, 1,
       high_byte (checksum_ip f), low_byte (checksum_ip f)] @ OWN_IP_ADDRESS @ byte_range rxbuf 26 4 @
       [0, 0, word_byte c 1, word_byte c 0] @ byte_range rxbuf 38 (4 + n) @ replicate (22 - n) 0)"
proof -
  have "length (byte_range rxbuf 6 6) = 6" using assms(1) by (simp add: byte_range_def)
  then have "(icmp_frame rxbuf own n c)[24 := x, 25 := y] =
    byte_range rxbuf 6 6 @ own @ [0x08, 0x00, 0x45, 0, rxbuf ! 16, rxbuf ! 17, 0, 0, 0, 0, 0x40, 1, x, y] @
       OWN_IP_ADDRESS @ byte_range rxbuf 26 4 @
       [0, 0, word_byte c 1, word_byte c 0] @ byte_range rxbuf 38 (4 + n) @ replicate (22 - n) 0" for c x y
    using assms(2) by (simp add: icmp_frame_def list_update_append)
  then show ?thesis by (simp only: icmp_reply_def Let_def)
qed

lemma checksum_ip_cong:
  assumes "\<And>i. i < 34 \<Longrightarrow> f ! i = g ! i"
  shows "checksum_ip f = checksum_ip g"
  using assms by (simp add: checksum_ip_def u16_at_def)

lemma checksum_ip_reply:
  assumes "length rxbuf = 1600" "length own = 6" "n \<le> 1558"
  shows "checksum_ip (icmp_reply rxbuf own n) = 0"
proof -
  have "length (byte_range rxbuf 6 6) = 6" using assms(1) by (simp add: byte_range_def)
  then have "icmp_frame rxbuf own n (icmp_sum rxbuf) ! 24 = 0" "icmp_frame rxbuf own n (icmp_sum rxbuf) ! 25 = 0"
    using assms(2) by (simp_all add: icmp_frame_def nth_append)
  moreover have "34 \<le> length (icmp_frame rxbuf own n (icmp_sum rxbuf))"
    using assms by (simp add: length_icmp_frame)
  ultimately show ?thesis unfolding icmp_reply_def Let_def by (intro checksum_ip_header_parts(2))
qed

text \<open>The sum in ones' complement moves the type, 8 in the request and 0 in the reply, to the checksum.\<close>

lemma icmp_sum_bytes:
  "256 * unat (word_byte (icmp_sum rxbuf) 1) + unat (word_byte (icmp_sum rxbuf) 0) =
     (let s = 256 * unat (rxbuf ! 36) + unat (rxbuf ! 37) + 2048 in if s < 65536 then s else s - 65535)"
proof -
  let ?c = "drop_bit 16 (byterev (word_at rxbuf 9))" and ?s = "256 * unat (rxbuf ! 36) + unat (rxbuf ! 37) + 2048"
  have s: "?s < 67584" using byte_less [of "rxbuf ! 36"] byte_less [of "rxbuf ! 37"] by linarith
  have "?c = word_of_bytes (rxbuf ! 37) (rxbuf ! 36) 0 0" by (simp add: drop16_byterev word_at_def)
  then have "unat ?c = 256 * unat (rxbuf ! 36) + unat (rxbuf ! 37)" by (simp add: unat_word_of_bytes_low)
  then have c: "unat (?c + 0x0800) = ?s" using s by (subst unat_add_lem [THEN iffD1]) simp_all
  have h: "unat (drop_bit 16 (?c + 0x0800)) = ?s div 65536" by (simp only: unat_high_half c)
  have "?s div 65536 \<le> 1" using s by linarith
  then have t: "unat (icmp_sum rxbuf) = ?s + ?s div 65536"
    unfolding icmp_sum_def Let_def using s c h by (subst unat_add_lem [THEN iffD1]) simp_all
  have "256 * unat (word_byte w 1) + unat (word_byte w 0) = unat w mod 65536" for w :: word32
  proof -
    have "256 * unat (word_byte w 1) + unat (word_byte w 0) = unat (ucast w :: word16)"
      using high_low_byte [of "ucast w"] by (simp only: high_low_byte_ucast ucast_drop_8 low_byte_mask)
    also have "\<dots> = unat w mod 65536" by (simp only: unsigned_ucast_eq take_bit_eq_mod) simp
    finally show ?thesis .
  qed
  then have "256 * unat (word_byte (icmp_sum rxbuf) 1) + unat (word_byte (icmp_sum rxbuf) 0) = (?s + ?s div 65536) mod 65536"
    by (simp only: t)
  also have "\<dots> = (if ?s < 65536 then ?s else ?s - 65535)"
    using s by (auto simp: le_div_geq le_mod_geq)
  finally show ?thesis by (simp only: Let_def)
qed

lemma rfc1071_reply:
  "rfc1071 ([0, 0, word_byte (icmp_sum rxbuf) 1, word_byte (icmp_sum rxbuf) 0] @ bs) =
   rfc1071 ([0x08, 0, rxbuf ! 36, rxbuf ! 37] @ bs)"
proof -
  let ?a = "256 * unat (rxbuf ! 36) + unat (rxbuf ! 37)" and ?r = "wsum 256 1 bs"
  let ?s = "?a + 2048"
  let ?t = "if ?s < 65536 then ?s else ?s - 65535"
  have "oc_norm (?t + ?r) = oc_norm (?s + ?r)"
  proof (rule oc_norm_unique)
    show "oc_norm (?s + ?r) \<le> 65535" by (rule oc_norm_le)
    have "?s + ?r = ?t + ?r \<or> ?s + ?r = (?t + ?r) + 65535" by auto
    then have "(?s + ?r) mod 65535 = (?t + ?r) mod 65535" by (metis mod_add_self2)
    then show "oc_norm (?s + ?r) mod 65535 = (?t + ?r) mod 65535" by (simp only: oc_norm_mod)
    show "(oc_norm (?s + ?r) = 0) = (?t + ?r = 0)" by simp
  qed
  moreover have "wsum 256 1 ([0, 0, word_byte (icmp_sum rxbuf) 1, word_byte (icmp_sum rxbuf) 0] @ bs) = ?t + ?r"
    using icmp_sum_bytes [of rxbuf] by (simp add: Let_def)
  moreover have "wsum 256 1 ([0x08, 0, rxbuf ! 36, rxbuf ! 37] @ bs) = ?s + ?r" by simp
  ultimately show ?thesis by (simp only: rfc1071_wsum)
qed

lemma byte_range_take: "a + k \<le> m \<Longrightarrow> byte_range (take m buf) a k = byte_range buf a k"
  by (simp add: byte_range_def take_drop min_absorb1)

lemma icmp_reply_ranges:
  assumes "length rxbuf = 1600" "length own = 6" "n \<le> 1558"
  shows "byte_range (icmp_reply rxbuf own n) 0 6 = byte_range rxbuf 6 6"
    "byte_range (icmp_reply rxbuf own n) 6 6 = own"
    "byte_range (icmp_reply rxbuf own n) 12 6 = [0x08, 0x00, 0x45, 0, rxbuf ! 16, rxbuf ! 17]"
    "byte_range (icmp_reply rxbuf own n) 26 4 = OWN_IP_ADDRESS"
    "byte_range (icmp_reply rxbuf own n) 30 4 = byte_range rxbuf 26 4"
    "byte_range (icmp_reply rxbuf own n) 34 (8 + n) =
       [0, 0, word_byte (icmp_sum rxbuf) 1, word_byte (icmp_sum rxbuf) 0] @ byte_range rxbuf 38 (4 + n)"
    "byte_range (icmp_reply rxbuf own n) 38 (4 + n) = byte_range rxbuf 38 (4 + n)"
proof -
  have L: "length (byte_range rxbuf 6 6) = 6" "length (byte_range rxbuf 26 4) = 4" "length OWN_IP_ADDRESS = 4"
    "length (byte_range rxbuf 38 (4 + n)) = 4 + n"
    using assms by (simp_all add: byte_range_def OWN_IP_ADDRESS_def)
  note s = icmp_reply_explicit [OF assms(1,2), of n, unfolded Let_def]
  show "byte_range (icmp_reply rxbuf own n) 0 6 = byte_range rxbuf 6 6"
    unfolding s using assms(1) by (simp add: byte_range_def)
  show "byte_range (icmp_reply rxbuf own n) 6 6 = own"
    unfolding s using assms by (simp add: byte_range_def)
  show "byte_range (icmp_reply rxbuf own n) 12 6 = [0x08, 0x00, 0x45, 0, rxbuf ! 16, rxbuf ! 17]"
    unfolding s using assms(1,2) by (simp add: byte_range_def)
  show "byte_range (icmp_reply rxbuf own n) 26 4 = OWN_IP_ADDRESS"
    unfolding s using assms(2) L(1) by (simp add: byte_range_def OWN_IP_ADDRESS_def)
  show "byte_range (icmp_reply rxbuf own n) 30 4 = byte_range rxbuf 26 4"
    unfolding s using assms(1,2) L(1,3) by (simp add: byte_range_def)
  show "byte_range (icmp_reply rxbuf own n) 34 (8 + n) =
       [0, 0, word_byte (icmp_sum rxbuf) 1, word_byte (icmp_sum rxbuf) 0] @ byte_range rxbuf 38 (4 + n)"
    unfolding s using assms L(1,3) by (simp add: byte_range_def take_Cons')
  show "byte_range (icmp_reply rxbuf own n) 38 (4 + n) = byte_range rxbuf 38 (4 + n)"
    unfolding s using assms L(1,3) by (simp add: byte_range_def)
qed

lemma valid_icmp_bytes:
  assumes "is_valid_icmp_packet rxbuf nbytes"
  shows "rxbuf ! 12 = 0x08" "rxbuf ! 13 = 0" "rxbuf ! 34 = 0x08" "rxbuf ! 35 = 0"
proof -
  have w: "word_at rxbuf 3 = 0x00450008" and d: "drop_bit 16 (word_at rxbuf 8) = 0x0008"
    using assms by (auto simp: is_valid_icmp_packet_def split: if_splits)
  have v: "word_byte (0x00450008 :: word32) 0 = 8" "word_byte (0x00450008 :: word32) 1 = 0"
    "word_byte (0x0008 :: word32) 0 = 8" "word_byte (0x0008 :: word32) 1 = 0"
    by code_simp+
  show "rxbuf ! 12 = 0x08" "rxbuf ! 13 = 0" using w v unfolding word_at_eq by simp_all
  have "word_byte (word_at rxbuf 8) (k + 2) = word_byte (0x0008 :: word32) k" for k
    using word_byte_drop_bit [of 2 "word_at rxbuf 8" k] by (simp add: d)
  from this [of 0] this [of 1] show "rxbuf ! 34 = 0x08" "rxbuf ! 35 = 0"
    using v word_byte_word_at [of rxbuf 8] by (simp_all add: numeral_3_eq_3 numeral_2_eq_2)
qed

text \<open>A frame that starts with the reply, whatever is behind it.\<close>

lemma reply_in_frame:
  assumes rx: "length rxbuf = 1600" "length own = 6" "n \<le> 1558" and v: "is_valid_icmp_packet rxbuf nbytes"
    and f: "f = take k (icmp_reply rxbuf own n @ rest)" "42 + n \<le> k"
  shows "byte_range f 0 6 = byte_range rxbuf 6 6" "byte_range f 6 6 = own"
    "byte_range f 12 6 = [0x08, 0x00, 0x45, 0x00, rxbuf ! 16, rxbuf ! 17]"
    "byte_range f 26 4 = OWN_IP_ADDRESS" "byte_range f 30 4 = byte_range rxbuf 26 4"
    "byte_range f 38 (4 + n) = byte_range rxbuf 38 (4 + n)" "f ! 34 = 0" "f ! 35 = 0" "checksum_ip f = 0"
    "rfc1071 (byte_range f 34 (8 + n)) = rfc1071 (byte_range rxbuf 34 (8 + n))"
proof -
  let ?r = "icmp_reply rxbuf own n"
  have lr: "length ?r = 42 + n + (22 - n)"
    using rx by (simp add: icmp_reply_def Let_def length_icmp_frame)
  have br: "byte_range f a j = byte_range ?r a j" if "a + j \<le> 42 + n" for a j
    using that f lr byte_range_take [of a j k "?r @ rest"] by (simp add: byte_range_def)
  have nth: "f ! i = ?r ! i" if "i < 42 + n" for i
    using that f lr by (simp add: nth_append)
  note R = icmp_reply_ranges [OF rx]
  show "byte_range f 0 6 = byte_range rxbuf 6 6" "byte_range f 6 6 = own"
    "byte_range f 12 6 = [0x08, 0x00, 0x45, 0x00, rxbuf ! 16, rxbuf ! 17]"
    "byte_range f 26 4 = OWN_IP_ADDRESS" "byte_range f 30 4 = byte_range rxbuf 26 4"
    "byte_range f 38 (4 + n) = byte_range rxbuf 38 (4 + n)"
    using R by (simp_all add: br)
  have "f ! 34 = byte_range ?r 34 (8 + n) ! 0" "f ! 35 = byte_range ?r 34 (8 + n) ! 1"
    using nth [of 34] nth [of 35] lr by (simp_all add: byte_range_def)
  then show "f ! 34 = 0" "f ! 35 = 0" by (simp_all add: R(6))
  show "checksum_ip f = 0"
    using checksum_ip_reply [OF rx] checksum_ip_cong [of f ?r] nth by simp
  have "byte_range rxbuf 34 4 = [0x08, 0, rxbuf ! 36, rxbuf ! 37]"
    using valid_icmp_bytes [OF v] rx(1) by (simp add: map_nth_byte_range [symmetric] upt_rec)
  then have "byte_range rxbuf 34 (8 + n) = [0x08, 0, rxbuf ! 36, rxbuf ! 37] @ byte_range rxbuf 38 (4 + n)"
    using take_add [of 4 "4 + n" "drop 34 rxbuf"] by (simp add: byte_range_def)
  then show "rfc1071 (byte_range f 34 (8 + n)) = rfc1071 (byte_range rxbuf 34 (8 + n))"
    using rfc1071_reply [of rxbuf] br [of 34 "8 + n"] by (simp add: R(6))
qed

text \<open>C30: An ICMP echo request for the station's address, in a packet that fits in the received frame and in
the arrays, is answered: the frame that is sent has the length of the request and goes to its source MAC
address from the station's, its IP header has the same total length, the station's address as the source, the
requester's as the destination and a checksum that verifies, its type and code are 0 and its identifier, sequence
number and data are those of the request, and the ICMP checksum, patched for the new type without looking at the
data, is right exactly when the request's was: the two messages have the same RFC 1071 sum.\<close>

theorem icmp_echo_answered:
  assumes "length rxbuf = 1600" "length txbuf = 1600" "length own = 6"
    and "is_valid_icmp_packet rxbuf nbytes"
    and "lite \<longrightarrow> is_broadcast_demo rxbuf \<or> is_mac_addr rxbuf own"
    and "t = unat (total_length rxbuf)" "28 \<le> t" "int t + 14 \<le> nbytes" "nbytes \<le> 1600"
  shows "\<exists>txbuf' f. demo_turn lite own rxbuf nbytes txbuf = Some (txbuf', Some f) \<and> int (length f) = nbytes \<and>
    byte_range f 0 6 = byte_range rxbuf 6 6 \<and> byte_range f 6 6 = own \<and>
    byte_range f 12 6 = [0x08, 0x00, 0x45, 0x00, rxbuf ! 16, rxbuf ! 17] \<and>
    byte_range f 26 4 = OWN_IP_ADDRESS \<and> byte_range f 30 4 = byte_range rxbuf 26 4 \<and>
    checksum_ip f = 0 \<and>
    f ! 34 = 0 \<and> f ! 35 = 0 \<and> byte_range f 38 (t - 24) = byte_range rxbuf 38 (t - 24) \<and>
    rfc1071 (byte_range f 34 (t - 20)) = rfc1071 (byte_range rxbuf 34 (t - 20))"
proof -
  obtain n where n: "t = 28 + n" using assms(7) le_Suc_ex by blast
  then have n1: "n \<le> 1558" "42 + n \<le> nat nbytes" using assms(8,9) by simp_all
  note v = valid_icmp_bytes [OF assms(4)]
  let ?tx = "icmp_reply rxbuf own n @ drop (42 + n + (22 - n)) txbuf"
  define f where "f = take (nat nbytes) ?tx"
  have "\<not> is_valid_arp_packet rxbuf" using v by (simp add: is_valid_arp_packet_def)
  moreover have "mac_custom_filter rxbuf = 1"
    using v by (simp add: mac_custom_filter_def is_ethertype_def ethertype_ip_def)
  ultimately have d: "demo_turn lite own rxbuf nbytes txbuf = Some (?tx, Some f)"
    using assms(4,5) icmp_response [OF assms(1-3) n1(1)] n assms(6)
    unfolding demo_turn_def f_def by auto
  have "length (icmp_reply rxbuf own n) = 42 + n + (22 - n)"
    using assms(1,3) n1 by (simp add: icmp_reply_def Let_def length_icmp_frame)
  then have len: "int (length f) = nbytes" using assms(2,8,9) n by (simp add: f_def)
  have "t - 24 = 4 + n" "t - 20 = 8 + n" using n by simp_all
  then show ?thesis
    using d len reply_in_frame [OF assms(1,3) n1(1) assms(4) f_def n1(2)]
    by (intro exI [of _ ?tx] exI [of _ f]) (simp only: simp_thms)
qed

text \<open>A request of 43 bytes with one byte of data, in the receive array.\<close>

definition echo_request :: "byte list" where
  "echo_request =
     [0xFF, 0xFF, 0xFF, 0xFF, 0xFF, 0xFF, 1, 2, 3, 4, 5, 6, 0x08, 0x00, 0x45, 0, 0, 29, 0, 0, 0, 0, 0x40, 1,
      0x9a, 0x2d, 10, 0, 102, 1, 10, 0, 102, 178, 0x08, 0, 0x12, 0x34, 0, 1, 0, 1, 7]"

lemma length_echo_request [simp]: "length echo_request = 43"
  by (simp add: echo_request_def)

lemma valid_icmp_cong:
  assumes "\<And>i. i < 36 \<Longrightarrow> a ! i = b ! i"
  shows "is_valid_icmp_packet a nbytes = is_valid_icmp_packet b nbytes" "total_length a = total_length b"
    "is_broadcast_demo a = is_broadcast_demo b"
proof -
  have w: "word_at a k = word_at b k" if "k < 9" for k
    using that assms by (simp add: word_at_def)
  have c: "checksum_ip a = checksum_ip b" by (rule checksum_ip_cong) (use assms in simp)
  show "total_length a = total_length b" by (simp add: total_length_def w)
  then show "is_valid_icmp_packet a nbytes = is_valid_icmp_packet b nbytes"
    using assms by (simp add: is_valid_icmp_packet_def w c list_all_iff)
  show "is_broadcast_demo a = is_broadcast_demo b" using assms by (simp add: is_broadcast_demo_def list_all_iff)
qed

theorem icmp_echo_answered_witness:
  "\<exists>txbuf' f. demo_turn True [2, 0, 0, 0, 0, 1] (echo_request @ replicate 1557 0) 60 (replicate 1600 0) =
     Some (txbuf', Some f) \<and> byte_range f 0 6 = [1, 2, 3, 4, 5, 6]"
proof -
  let ?r = "echo_request @ replicate 1557 0"
  have l: "length ?r = 1600" by simp
  have e: "i < 36 \<Longrightarrow> ?r ! i = echo_request ! i" for i
    by (simp add: nth_append)
  have "is_valid_icmp_packet echo_request 60" "is_broadcast_demo echo_request" "total_length echo_request = 29"
    by code_simp+
  then have v: "is_valid_icmp_packet ?r 60" "is_broadcast_demo ?r" "total_length ?r = 29"
    using valid_icmp_cong [of ?r echo_request, OF e] by simp_all
  moreover have "byte_range ?r 6 6 = [1, 2, 3, 4, 5, 6]" by (simp add: byte_range_def echo_request_def)
  ultimately show ?thesis
    using icmp_echo_answered [OF l, of "replicate 1600 0" "[2, 0, 0, 0, 0, 1]" 60 True 29] by auto
qed

text \<open>C31: An ARP request for the station's address is answered: the frame is sent to the sender of the
request, with the station's addresses as the sender of the reply and the sender's as its target, and the
bytes from 42 to 63 are zero. The reply is as long as the request: of a request of up to 64 bytes it is
that many bytes of this frame, and behind byte 63 of a longer one come the bytes that the
transmit array still holds, those of earlier replies.\<close>

theorem arp_request_answered:
  assumes "length rxbuf = 1600" "length txbuf = 1600" "length own = 6"
    and "is_valid_arp_packet rxbuf"
    and "lite \<longrightarrow> is_broadcast_demo rxbuf \<or> is_mac_addr rxbuf own" "0 \<le> nbytes" "nbytes \<le> 1600"
    and txbuf': "txbuf' = byte_range rxbuf 22 6 @ own @ [0x08, 0x06, 0, 1, 0x08, 0x00, 6, 4, 0, 2] @ own @
          OWN_IP_ADDRESS @ byte_range rxbuf 22 6 @ byte_range rxbuf 28 4 @ replicate 22 0 @ drop 64 txbuf"
  shows "demo_turn lite own rxbuf nbytes txbuf = Some (txbuf', Some (take (nat nbytes) txbuf')) \<and>
    (\<forall>k. 64 \<le> k \<and> k < nat nbytes \<longrightarrow> take (nat nbytes) txbuf' ! k = txbuf ! k)"
proof -
  have l: "length (arp_reply rxbuf own) = 64"
    using assms(1,3) by (simp add: arp_reply_def byte_range_def OWN_IP_ADDRESS_def)
  have t: "txbuf' = arp_reply rxbuf own @ drop 64 txbuf"
    by (simp only: txbuf' arp_reply_def append_assoc)
  have "rxbuf ! 12 = 0x08" "rxbuf ! 13 = 0x06"
    using assms(4) by (auto simp: is_valid_arp_packet_def split: if_splits)
  then have "mac_custom_filter rxbuf = 1"
    by (simp add: mac_custom_filter_def is_ethertype_def ethertype_arp_def)
  then have "demo_turn lite own rxbuf nbytes txbuf = Some (txbuf', Some (take (nat nbytes) txbuf'))"
    using assms(4,5) arp_response [OF assms(1-3)] by (auto simp: demo_turn_def t)
  moreover have "take (nat nbytes) txbuf' ! k = txbuf ! k" if "64 \<le> k" "k < nat nbytes" for k
    using that assms(2,7) l by (simp add: t nth_append)
  ultimately show ?thesis by blast
qed

text \<open>A request of 66 bytes: the two bytes behind the reply are those of the transmit array.\<close>

theorem arp_request_answered_witness:
  "demo_turn True [2, 0, 0, 0, 0, 1]
     ([0xFF, 0xFF, 0xFF, 0xFF, 0xFF, 0xFF, 1, 2, 3, 4, 5, 6, 0x08, 0x06, 0, 1, 0x08, 0, 6, 4, 0, 1,
       1, 2, 3, 4, 5, 6, 10, 0, 102, 1, 0, 0, 0, 0, 0, 0, 10, 0, 102, 178] @ replicate 1558 0) 66 (replicate 1600 7) =
   Some ([1, 2, 3, 4, 5, 6] @ [2, 0, 0, 0, 0, 1] @ [0x08, 0x06, 0, 1, 0x08, 0x00, 6, 4, 0, 2] @ [2, 0, 0, 0, 0, 1] @
          OWN_IP_ADDRESS @ [1, 2, 3, 4, 5, 6] @ [10, 0, 102, 1] @ replicate 22 0 @ drop 64 (replicate 1600 7),
     Some ([1, 2, 3, 4, 5, 6] @ [2, 0, 0, 0, 0, 1] @ [0x08, 0x06, 0, 1, 0x08, 0x00, 6, 4, 0, 2] @
          [2, 0, 0, 0, 0, 1] @ OWN_IP_ADDRESS @ [1, 2, 3, 4, 5, 6] @ [10, 0, 102, 1] @ replicate 22 0 @ [7, 7]))"
proof -
  let ?a = "[0xFF, 0xFF, 0xFF, 0xFF, 0xFF, 0xFF, 1, 2, 3, 4, 5, 6, 0x08, 0x06, 0, 1, 0x08, 0, 6, 4, 0, 1,
       1, 2, 3, 4, 5, 6, 10, 0, 102, 1, 0, 0, 0, 0, 0, 0, 10, 0, 102, 178] :: byte list"
  let ?r = "?a @ replicate 1558 0"
  have "is_valid_arp_packet ?a" "is_broadcast_demo ?a" by code_simp+
  moreover have "is_valid_arp_packet ?r = is_valid_arp_packet ?a" "is_broadcast_demo ?r = is_broadcast_demo ?a"
    by (simp_all add: is_valid_arp_packet_def is_broadcast_demo_def word_at_def upt_rec)
  moreover have "byte_range ?r 22 6 = [1, 2, 3, 4, 5, 6]" "byte_range ?r 28 4 = [10, 0, 102, 1]"
    by (simp_all add: byte_range_def)
  moreover have "(replicate 2 7 :: byte list) = [7, 7]" by (simp add: numeral_2_eq_2)
  ultimately show ?thesis
    using arp_request_answered [of ?r "replicate 1600 7" "[2, 0, 0, 0, 0, 1]" True 66, OF _ _ _ _ _ _ _ refl]
    by (simp add: OWN_IP_ADDRESS_def)
qed

text \<open>A length in the header of a short packet that the array cannot hold stops the program.\<close>

lemma icmp_length_unchecked:
  assumes "length rxbuf = 1600" "length txbuf = 1600" "length own = 6"
    and "is_valid_icmp_packet rxbuf nbytes"
    and "lite \<longrightarrow> is_broadcast_demo rxbuf \<or> is_mac_addr rxbuf own"
    and "1586 < unat (total_length rxbuf)"
  shows "demo_turn lite own rxbuf nbytes txbuf = None"
proof -
  note v = valid_icmp_bytes [OF assms(4)]
  have fl: "length (fold (\<lambda>i buf. buf[a i := b i]) ks buf) = length buf" for a b ks and buf :: "byte list"
    by (induction ks arbitrary: buf) simp_all
  obtain t where "unat (total_length rxbuf) = t" "1586 < t" using assms(6) by blast
  then have "sint (total_length rxbuf) = int t" "1586 < t" by (simp_all only: total_length_sint)
  then have "build_icmp_response rxbuf txbuf own = None"
    using assms(1,2) by (auto simp: build_icmp_response_def Let_def fl)
  moreover have "\<not> is_valid_arp_packet rxbuf" using v by (simp add: is_valid_arp_packet_def)
  moreover have "mac_custom_filter rxbuf = 1"
    using v by (simp add: mac_custom_filter_def is_ethertype_def ethertype_ip_def)
  ultimately show ?thesis using assms(4,5) by (auto simp: demo_turn_def)
qed

lemma icmp_length_unchecked_example:
  "\<exists>rxbuf. length rxbuf = 1600 \<and> is_valid_icmp_packet rxbuf 60 \<and> is_broadcast_demo rxbuf \<and>
     1586 < unat (total_length rxbuf)"
proof -
  let ?e = "echo_request[16 := 0xFF, 17 := 0xFF, 25 := 0x4a]"
  let ?r = "?e @ replicate 1557 0"
  have e: "i < 36 \<Longrightarrow> ?r ! i = ?e ! i" for i
    by (simp add: nth_append)
  have "is_valid_icmp_packet ?e 60" "is_broadcast_demo ?e" "total_length ?e = 0xFFFF"
    by code_simp+
  then show ?thesis
    using valid_icmp_cong [of ?r ?e, OF e] by (intro exI [of _ ?r]) simp
qed

end
