(* ===== verification/Spec2Isabelle.thy ===== *)
theory Spec2Isabelle
  imports Rx_System Mii_Queue Ethernet_Filter Mac_Link Nettypes Link_Status Mii_Wrappers Checksum Smi
    Rx_Session Board_Support Tx_Shaper Lite_Macaddr Lite_Limits
    Lite_Transmit Lite_Client Lite_Receive Lite_Close Demo
begin

text \<open>
  A verification development for the XMOS ethernet MAC: the packet memory and the threads of the full
  implementation (\<open>module_ethernet/src/full\<close>), the lite implementation (\<open>module_ethernet/src/lite\<close>),
  the PHY management of \<open>module_ethernet_smi\<close>, the board headers, and of the applications the demo,
  which answers ARP and ICMP echo requests, and a custom filter.

  \<^bold>\<open>The program.\<close> In the full implementation each port has a receive thread and a transmit thread
  (\<open>mii_master.xc\<close>). The receive thread takes space from a circular pool in shared memory, stores a
  frame and commits it. The filter thread (\<open>mii_filter.xc\<close>) labels committed packets with the
  clients they are for. The receive server (\<open>ethernet_rx_server.xc\<close>) puts a labelled packet in the
  queues of those clients, notifies them, sends the packet on request and frees it after the last
  client. The transmit server (\<open>ethernet_tx_server.xc\<close>) takes requests from clients, copies the frame
  into the pools of the ports it is for and answers questions about addresses, links and times of
  transmission. The transmit thread sends what is in the pool, subject to a traffic shaper, and
  either frees a packet or hands it over for its time to be reported. In the lite implementation one
  server serves one client, with an interrupt that commits frames to two banks of buffers.

  \<^bold>\<open>The machine.\<close> Words are \<open>32 word\<close>, bytes \<open>8 word\<close>, addresses integers. The shared memory is a
  record of a map from addresses to words (word access) and the pool structures; every field of a
  packet or a pool header has the word offset of the C structure (\<open>Ram\<close>). Stateful functions take
  the state and return it; where a loop of the program may run on, the definition is a
  \<open>partial_function (option)\<close> and the properties prove that the call returns. Configuration macros
  are fields of the record \<open>mac_config\<close>, so that one definition stands for every build.

  \<^bold>\<open>Shared theories.\<close>
  \<^item> \<open>Prelude\<close>: machine types, signed conversions, lists as memory, fact collections.
  \<^item> \<open>Config\<close>: \<open>ethernet_conf_derived.h\<close>, \<open>ethernet_conf_example.h\<close>, \<open>ethernet_server_def.h\<close>.
  \<^item> \<open>Ram\<close>, \<open>Packet_Data\<close>: the packet of \<open>mii_full.h\<close> and \<open>mii_packet.c\<close>; the loops that write and
    read its data across the wrap. \<open>packet_data_round_trip\<close>: what is stored is read back by all readers.
  \<^item> \<open>Crc\<close>: the CRC instructions. \<open>Ring\<close>: the locale \<open>bounded_fifo\<close> of circular index queues.

  \<^bold>\<open>The packet memory.\<close>
  \<^item> \<open>Mii_Malloc\<close>: \<open>mii_malloc.c\<close>, every operation. A header word is the size, negative when freed;
    0 sends the reader to the start of the pool.
  \<^item> \<open>Mempool\<close>: the abstraction of a pool to the list of its packets, each with a mark whether it is
    freed, the invariant \<open>pool_inv\<close>, and the refinements: reserve and commit append, free removes in any
    order (\<open>mii_reserve_commit\<close>, \<open>mii_free_refines_spec\<close>, \<open>mii_free_any_order\<close>), readers see commit
    order (\<open>mempool_fifo\<close>, \<open>my_rdptr_visits_queue\<close>). The locale \<open>packet_pool\<close> is the contract that
    clients of the pool use.
  \<^item> \<open>Mii_Queue\<close>: \<open>mii_queue.c\<close>, the queues of sent packets and the counter of a packet's users.
  \<^item> \<open>Mii_Wrappers\<close>: \<open>mii_wrappers.c\<close> and the start-up of \<open>ethernet_server.xc\<close>: the pools that come
    out of the initialisation are empty, apart and usable in every build.

  \<^bold>\<open>Receiving.\<close>
  \<^item> \<open>Mii_Rx_Pins\<close>: the receive thread \<open>mii_rx_pins\<close>, cut where it waits for the port.
  \<^item> \<open>Rx_System\<close>: the thread interleaved with the threads that label and free packets. Safety,
    delivery and what no step changes of a published packet hold on every interleaving.
  \<^item> \<open>Ethernet_Filter\<close>: \<open>mii_filter.xc\<close>, \<open>mii_filter_support.c\<close>; the decision in terms of the bytes
    of a frame, the counters, and that a burst of at most 32 bits is found by the checksum.
  \<^item> \<open>Rx_Server\<close>, \<open>Rx_Server_Refs\<close>: \<open>ethernet_rx_server.xc\<close>; the reference counts over every run.
  \<^item> \<open>Rx_Client\<close>: the reception of packets in \<open>ethernet_rx_client.xc\<close>; what a client gets of one, and what
    is stored from its array on.
  \<^item> \<open>Rx_Session\<close>: its settings and counters, and the tokens between server and clients: the two
    sides stay in step as long as no client asks for status packets.

  \<^bold>\<open>Transmitting.\<close>
  \<^item> \<open>Tx_Client\<close>: \<open>ethernet_tx_client.xc\<close>, \<open>ethernet_tx_client_support.c\<close>.
  \<^item> \<open>Tx_Server\<close>: \<open>ethernet_tx_server.xc\<close>, a turn of the loop with its commands.
  \<^item> \<open>Tx_Ports\<close>, \<open>Tx_Delivery\<close>: the copies on the ports; a request is queued on all ports or on none,
    the frame a client gives is what goes on the wire, a timed frame is answered to its client.
  \<^item> \<open>Mii_Tx_Pins\<close>: the transmit half of \<open>mii_master.xc\<close>; \<open>tx_run_in_order\<close> says what a pool of packets
    puts on the wire. \<open>Tx_Shaper\<close>: turns of the thread in any memory, and the bandwidth that the traffic
    shaper grants them.
  \<^item> \<open>Mac_Link\<close>: what one MAC sends, the filter of another accepts.
  \<^item> \<open>Link_Status\<close>: \<open>link_status.c\<close>, as whole calls and as the single accesses of two threads, with the
    interleavings in which a change is seen and those in which it is lost.

  \<^bold>\<open>The lite implementation.\<close>
  \<^item> \<open>Lite_Buffer\<close>: the receive buffers of \<open>mii_client_user.xc\<close> and its interrupt.
  \<^item> \<open>Lite_Bank\<close>: one bank as a queue. \<open>Lite_System\<close>: both banks with the driver and the interrupt.
  \<^item> \<open>Lite_Server\<close>: the loop of \<open>mii_single_server.xc\<close> and its runs; \<open>lite_server_delivers\<close> states
    order, completeness and that neither the server nor its notification gets stuck.
  \<^item> \<open>Lite_Limits\<close>: the size of the buffer that makes this true. \<open>Lite_Macaddr\<close>: the MAC address
    that two threads share without a lock, store by store.
  \<^item> \<open>Lite_Client\<close>: \<open>safe_mac_rx_lite\<close> and its sessions with the server; \<open>lite_client_receives\<close> states
    which bytes the client gets.
  \<^item> \<open>Lite_Transmit\<close>: from \<open>mac_tx_lite\<close> over the server and \<open>mii_out_packet\<close> to what the \<open>OUT\<close>
    coroutine of \<open>mii_lld.S\<close> puts on the port; \<open>lite_frame_on_wire\<close> is the path as a whole.
  \<^item> \<open>Lite_Receive\<close>: the \<open>IN\<close> coroutine and its stores as steps of the server's runs; \<open>lite_link\<close> takes a
    frame from the client on one side to the committed packet on the other.
  \<^item> \<open>Lite_Close\<close>: the control tokens that start, end and close the channels of the driver.

  \<^bold>\<open>Around the MAC.\<close> \<open>Smi\<close> models \<open>smi.xc\<close> down to the bits on the wires (the locale \<open>mdio_bus\<close> is
  the register access that the PHY operations need), \<open>Board_Support\<close> the headers of
  \<open>module_ethernet_board_support\<close>, \<open>Nettypes\<close> the byte order types of \<open>nettypes.h\<close>, \<open>Checksum\<close> the
  internet checksum of the demo, and \<open>Demo\<close> its filters, checks and replies: \<open>arp_request_answered\<close>
  and \<open>icmp_echo_answered\<close> say what goes out for a request.

  \<^bold>\<open>Bounds.\<close> A pool of \<open>n\<close> words is well formed for any \<open>n\<close> its packets fit in. The transmit
  properties ask for a frame shorter than the space reserved for it, since a packet that fills the
  free space exactly makes the pool look empty (\<open>exact_fit_empties\<close>). The runs of the lite server have
  frames of at most 1528 bytes with the checksum and at least 1536 words of buffer; with the 1520
  words that the header file allows the receiver stops (\<open>minimum_buffer_stops\<close>). The shaper's bound
  counts preamble, checksum and gap, as the code does, and holds while the 32-bit credit does not wrap. The lite link is for frames of at most 1519 bytes with the
  checksum, the longest whose words the driver stores inside its buffer. No definition uses fuel that
  limits a property: the loops over a pool return by the pool's invariant.

  \<^bold>\<open>Abstractions.\<close> A section under a lock is one step. The calls of \<open>link_status.c\<close>, which have no lock, are one
  step each where the servers call them (\<open>Rx_Server\<close>, \<open>Rx_Session\<close>, \<open>Tx_Server\<close>); \<open>Link_Status\<close> takes
  them apart and shows when that is right. The first six words of a received frame arrive in one step,
  so frames shorter than 24 bytes, on which the thread waits at the port, are left out. The receive thread's interleavings are those of
  builds without the high priority receive queue. The steps of one transmit request are taken without
  a transmit thread in between, and a turn of the lite server without its interrupt. A channel
  transaction is a list of words, bytes and control tokens. Timers are arguments.

  \<^bold>\<open>Not modelled.\<close> The configuration of ports and clock blocks, the hunt for the preamble and the
  \<open>par\<close> that starts the threads: pure input and output. The timing of the lite driver and which of
  its events are enabled: a frame is received in one piece between steps of the server. The software
  lock variant of the allocator, which \<open>mii_full.h\<close> compiles out. The AVB routing table and an
  application's filter are not in the repository; they are parameters of the definitions that call
  them. Tests, the loopback application and \<open>experimental\<close> programs on top of the library. The prototypes of the include directory.
\<close>

end
